(* ===== verification/Aiq_Prelude.thy ===== *)
theory Aiq_Prelude
  imports Main "HOL-Library.Word"
begin

unbundle bit_operations_syntax

text \<open>
  Shared vocabulary of the development: the machine integers of a 64-bit target, the outcome
  type of fallible code, and the facts on words, maps and pointer chains that the component
  theories share.

  A Rust computation that can panic, block or run into undefined behaviour returns a value of
  type \<open>'a res\<close>, a sum with the fault on the left. \<open>Panic m\<close> is a panic with its
  message, \<open>WouldBlock\<close> a wait for another thread (a held mutex, a link another thread
  has still to write), \<open>Undefined\<close> an access to memory that is not live or an
  \<open>unwrap_unchecked\<close>/\<open>unreachable_unchecked\<close> whose condition is false.
  \<open>OutOfFuel\<close> is not an outcome of the code: it is what a loop without a structural bound
  yields when the number of rounds it was given is too small.
\<close>

section \<open>Machine types and outcomes\<close>

type_synonym usize = "64 word"
type_synonym u32 = "32 word"
type_synonym u64 = "64 word"
type_synonym addr = usize

datatype fault = Panic string | WouldBlock | Undefined | OutOfFuel

type_synonym 'a res = "fault + 'a"

definition bind_res :: "'a res \<Rightarrow> ('a \<Rightarrow> 'b res) \<Rightarrow> 'b res" where
  "bind_res m f = (case m of Inl e \<Rightarrow> Inl e | Inr x \<Rightarrow> f x)"

named_theorems res_simps \<open>evaluation of fallible computations\<close>
named_theorems word_tag \<open>pointer tagging on 64-bit words\<close>
named_theorems succ_simps \<open>successors along a pointer chain\<close>

lemma bind_res_Inr [simp, res_simps]: "bind_res (Inr x) f = f x"
  by (simp add: bind_res_def)

lemma bind_res_Inl [simp, res_simps]: "bind_res (Inl e) f = Inl e"
  by (simp add: bind_res_def)

lemma bind_res_eq_Inr_iff:
  "bind_res m f = Inr y \<longleftrightarrow> (\<exists>x. m = Inr x \<and> f x = Inr y)"
  by (cases m) simp_all

lemma bind_res_assoc: "bind_res (bind_res m f) g = bind_res m (\<lambda>x. bind_res (f x) g)"
  by (cases m) simp_all

definition unwrap :: "string \<Rightarrow> 'a option \<Rightarrow> 'a res" where
  "unwrap msg x = (case x of None \<Rightarrow> Inl (Panic msg) | Some y \<Rightarrow> Inr y)"

definition unwrap_unchecked :: "'a option \<Rightarrow> 'a res" where
  "unwrap_unchecked x = (case x of None \<Rightarrow> Inl Undefined | Some y \<Rightarrow> Inr y)"

lemma unwrap_simps [simp, res_simps]:
  "unwrap msg (Some y) = Inr y" "unwrap msg None = Inl (Panic msg)"
  by (simp_all add: unwrap_def)

lemma unwrap_unchecked_simps [simp, res_simps]:
  "unwrap_unchecked (Some y) = Inr y" "unwrap_unchecked None = Inl Undefined"
  by (simp_all add: unwrap_unchecked_def)

section \<open>Tag bits on words\<close>

text \<open>
  The low bit of an even address is free for a tag. These are the four cancellation laws that
  make tagging and untagging mutually inverse, and the two for the one-bit shift.
\<close>

lemma and_one_bit: "(w::usize) AND 1 = 0 \<longleftrightarrow> \<not> bit w 0"
  by (metis and_one_eq bit_0 even_iff_mod_2_eq_zero)

lemma bit_pos: "bit (w::usize) n \<Longrightarrow> \<not> bit w 0 \<Longrightarrow> 0 < n"
  by (cases n) simp_all

lemma even_shift_back [word_tag]: "(w::usize) AND 1 = 0 \<Longrightarrow> push_bit 1 (drop_bit 1 w) = w"
  unfolding and_one_bit
proof (rule bit_word_eqI)
  fix n
  assume "\<not> bit w 0" and "n < LENGTH(64)"
  then show "bit (push_bit 1 (drop_bit 1 w)) n = bit w n"
    by (cases n) (simp_all only: bit_push_bit_iff bit_drop_bit_eq o_def, simp_all)
qed

lemma shift_even [word_tag]: "(push_bit 1 w :: usize) AND 1 = 0"
  unfolding and_one_bit by (simp only: bit_push_bit_iff) simp

lemma half_range: "unat (drop_bit 1 (- 1) :: usize) = 2 ^ 63 - 1"
  by (simp only: unat_drop_bit_eq drop_bit_eq_div unsigned_minus_1_eq_mask)
    (simp add: mask_eq_exp_minus_1)

lemma shift_back [word_tag]:
  assumes "(w::usize) \<le> drop_bit 1 (- 1)"
  shows "drop_bit 1 (push_bit 1 w) = w"
proof -
  have "unat w \<le> 2 ^ 63 - 1" using assms by (simp only: word_le_nat_alt half_range)
  then show ?thesis
    by (simp add: word_unat_eq_iff unat_drop_bit_eq unat_word_ariths drop_bit_eq_div)
qed

lemma shift_right_bound: "drop_bit 1 (w::usize) \<le> drop_bit 1 (- 1)"
proof -
  have "unat w < 2 ^ 64" using unsigned_less [of w] by simp
  moreover have "unat (drop_bit 1 w) = unat w div 2"
    by (simp only: unat_drop_bit_eq) (simp add: drop_bit_eq_div)
  ultimately show ?thesis by (simp only: word_le_nat_alt half_range) simp
qed

lemma tag_flag [word_tag]: "((p::usize) OR 1) AND 1 \<noteq> 0"
  unfolding and_one_bit by (simp add: bit_or_iff)

lemma tag_clear [word_tag]: "(p::usize) AND 1 = 0 \<Longrightarrow> (p OR 1) AND NOT 1 = p"
  unfolding and_one_bit
  by (rule bit_word_eqI) (auto simp: bit_and_iff bit_or_iff bit_not_iff bit_1_iff dest: bit_pos)

lemma tag_restore [word_tag]: "(p::usize) AND 1 \<noteq> 0 \<Longrightarrow> (p AND NOT 1) OR 1 = p"
  unfolding and_one_bit
  by (rule bit_word_eqI) (auto simp: bit_and_iff bit_or_iff bit_not_iff bit_1_iff)

lemma clear_even [word_tag]: "(p::usize) AND 1 = 0 \<Longrightarrow> p AND NOT 1 = p"
  unfolding and_one_bit
  by (rule bit_word_eqI) (auto simp: bit_and_iff bit_or_iff bit_not_iff bit_1_iff dest: bit_pos)

lemma clear_flag [word_tag]: "((p::usize) AND NOT 1) AND 1 = 0"
  unfolding and_one_bit by (simp add: bit_and_iff bit_not_iff)

section \<open>Pointer chains\<close>

text \<open>
  A \<open>next_ref\<close> is a reference to a cell that holds a successor pointer: the queue's
  \<open>head\<close>, or the \<open>next\<close> field of the node at an address. The code passes such
  references around as \<open>&AtomicPtr<NodeLink>\<close>.

  \<open>succ r0 ns r\<close> is the node a chain that starts at the cell \<open>r0\<close> and runs through
  \<open>ns\<close> has behind the cell \<open>r\<close>.
\<close>

datatype next_ref = HeadRef | NextRef addr

fun succ :: "next_ref \<Rightarrow> addr list \<Rightarrow> next_ref \<Rightarrow> addr option" where
  "succ r0 [] r = None"
| "succ r0 (x # xs) r = (if r = r0 then Some x else succ (NextRef x) xs r)"

fun lastref :: "next_ref \<Rightarrow> addr list \<Rightarrow> next_ref" where
  "lastref r0 [] = r0"
| "lastref r0 (x # xs) = lastref (NextRef x) xs"

definition refs :: "next_ref \<Rightarrow> addr list \<Rightarrow> next_ref set" where
  "refs r0 ns = insert r0 (NextRef ` set ns)"

definition linear :: "next_ref \<Rightarrow> addr list \<Rightarrow> bool" where
  "linear r0 ns \<longleftrightarrow> distinct ns \<and> r0 \<notin> NextRef ` set ns"

lemma linear_simps [simp]:
  "linear r0 []"
  "linear HeadRef ns \<longleftrightarrow> distinct ns"
  "linear r0 (x # ns) \<longleftrightarrow> r0 \<noteq> NextRef x \<and> r0 \<notin> NextRef ` set ns \<and> linear (NextRef x) ns"
  by (auto simp: linear_def)

lemma lastref_eq: "lastref r0 ns = (if ns = [] then r0 else NextRef (last ns))"
  by (induction r0 ns rule: lastref.induct) simp_all

lemma lastref_in_refs [simp]: "lastref r0 ns \<in> refs r0 ns"
  by (simp add: lastref_eq refs_def)

lemma succ_SomeD: "succ r0 ns r = Some y \<Longrightarrow> y \<in> set ns \<and> r \<in> refs r0 ns"
  by (induction r0 ns r rule: succ.induct) (auto simp: refs_def split: if_splits)

lemma succ_notin_refs [simp]: "r \<notin> refs r0 ns \<Longrightarrow> succ r0 ns r = None"
  using succ_SomeD [of r0 ns r] by (cases "succ r0 ns r") auto

lemma succ_snoc [succ_simps]:
  "succ r0 (ns @ [y]) r
   = (if succ r0 ns r = None \<and> r = lastref r0 ns then Some y else succ r0 ns r)"
  by (induction r0 ns r rule: succ.induct) auto

lemma succ_lastref [simp]: "linear r0 ns \<Longrightarrow> succ r0 ns (lastref r0 ns) = None"
  by (induction r0 ns rule: lastref.induct) (auto simp: lastref_eq split: if_splits)

lemma succ_None_iff:
  "linear r0 ns \<Longrightarrow> succ r0 ns r = None \<longleftrightarrow> r \<notin> refs r0 ns \<or> r = lastref r0 ns"
proof (induction r0 ns r rule: succ.induct)
  case (1 r0 r)
  then show ?case by (auto simp: refs_def)
next
  case (2 r0 x xs r)
  show ?case
  proof (cases "r = r0")
    case True
    have "lastref (NextRef x) xs \<in> NextRef ` set (x # xs)" by (simp add: lastref_eq)
    with 2 True show ?thesis by (auto simp: refs_def)
  next
    case False
    with 2 show ?thesis by (auto simp: refs_def)
  qed
qed

lemma lastref_unique:
  "linear r0 ns \<Longrightarrow> r \<in> refs r0 ns \<Longrightarrow> succ r0 ns r = None \<Longrightarrow> lastref r0 ns = r"
  using succ_None_iff [of r0 ns r] by auto

lemma succ_inj:
  "distinct ns \<Longrightarrow> succ r0 ns r = Some y \<Longrightarrow> succ r0 ns r' = Some y \<Longrightarrow> r = r'"
  by (induction r0 ns r rule: succ.induct) (auto split: if_splits dest: succ_SomeD)

lemma succ_exists: "linear r0 ns \<Longrightarrow> y \<in> set ns \<Longrightarrow> \<exists>r. succ r0 ns r = Some y"
proof (induction ns arbitrary: r0)
  case (Cons x xs)
  show ?case
  proof (cases "y = x")
    case False
    with Cons obtain r where r: "succ (NextRef x) xs r = Some y" by force
    with Cons.prems(1) have "r \<noteq> r0" by (auto simp: refs_def dest: succ_SomeD)
    with r show ?thesis by auto
  qed auto
qed simp

lemma succ_remove [succ_simps]:
  "linear r0 ns \<Longrightarrow> succ r0 ns rx = Some x \<Longrightarrow>
   succ r0 (remove1 x ns) r
   = (if r = rx then succ r0 ns (NextRef x)
      else if r = NextRef x then None else succ r0 ns r)"
proof (induction r0 ns rx rule: succ.induct)
  case (2 r0 z zs rx)
  show ?case
  proof (cases "rx = r0")
    case True
    with 2 show ?thesis
      by (cases zs) (auto simp: linear_def refs_def image_iff)
  next
    case False
    with 2 have in_zs: "succ (NextRef z) zs rx = Some x" by simp
    with 2 have "x \<noteq> z" "r0 \<noteq> NextRef x" by (auto dest: succ_SomeD simp: linear_def)
    with 2 False in_zs show ?thesis by auto
  qed
qed simp

lemma linear_remove1: "linear r0 ns \<Longrightarrow> linear r0 (remove1 x ns)"
  by (auto simp: linear_def dest: notin_set_remove1)

lemma linear_snoc: "linear r0 (ns @ [y]) \<longleftrightarrow> linear r0 ns \<and> y \<notin> set ns \<and> r0 \<noteq> NextRef y"
  by (auto simp: linear_def)

lemma refs_snoc [simp]: "refs r0 (ns @ [y]) = insert (NextRef y) (refs r0 ns)"
  by (auto simp: refs_def)

lemma refs_remove1: "distinct ns \<Longrightarrow> r0 \<noteq> NextRef x \<Longrightarrow> refs r0 (remove1 x ns) = refs r0 ns - {NextRef x}"
  by (auto simp: refs_def)

lemma succ_irrefl: "linear r0 ns \<Longrightarrow> succ r0 ns (NextRef x) \<noteq> Some x"
  by (induction r0 ns "NextRef x" rule: succ.induct) (auto dest: succ_SomeD)

lemma lastref_remove1:
  assumes lin: "linear r0 ns" and x: "succ r0 ns rx = Some x"
  shows "lastref r0 (remove1 x ns) = (if succ r0 ns (NextRef x) = None then rx else lastref r0 ns)"
    (is "_ = ?r")
proof -
  have mem: "x \<in> set ns" "rx \<in> refs r0 ns" using x by (auto dest: succ_SomeD)
  have ne: "rx \<noteq> NextRef x" "r0 \<noteq> NextRef x"
    using lin x mem by (auto simp: succ_irrefl) (simp add: linear_def)
  have "lastref r0 ns \<noteq> rx" using lin x by (metis option.distinct(1) succ_lastref)
  moreover have lst: "succ r0 ns (NextRef x) \<noteq> None \<Longrightarrow> lastref r0 ns \<noteq> NextRef x"
    using succ_lastref [OF lin] by auto
  ultimately have "succ r0 (remove1 x ns) ?r = None"
    unfolding succ_remove [OF lin x] using succ_lastref [OF lin] by simp
  moreover have "?r \<in> refs r0 (remove1 x ns)"
    using lin mem ne lst by (simp add: refs_remove1 linear_def)
  ultimately show ?thesis
    by (intro lastref_unique linear_remove1 lin)
qed

section \<open>Association lists\<close>

text \<open>A key and what belongs to it are taken out.\<close>

definition without :: "'k \<Rightarrow> ('k \<times> 'a) list \<Rightarrow> ('k \<times> 'a) list" where
  "without p xs = filter (\<lambda>(x, _). x \<noteq> p) xs"

lemma without_keys [simp]: "map fst (without p xs) = filter (\<lambda>x. x \<noteq> p) (map fst xs)" "fst ` set (without p xs) = fst ` set xs - {p}"
  by (induction xs) (auto simp: without_def)

lemma without_Nil [simp]: "without p [] = []"
  by (simp add: without_def)

lemma set_without: "x \<in> set (without p xs) \<longleftrightarrow> x \<in> set xs \<and> fst x \<noteq> p"
  by (auto simp: without_def)

lemma without_id: "p \<notin> fst ` set xs \<Longrightarrow> without p xs = xs"
  by (induction xs) (auto simp: without_def)

lemma keys_fewer:
  assumes "distinct (map fst xs)" and "fst ` set xs \<subseteq> fst ` set ys"
  shows "length xs < Suc (length ys)"
proof -
  have "length xs = card (fst ` set xs)" using distinct_card [OF assms(1)] by simp
  also have "\<dots> \<le> card (fst ` set ys)" by (rule card_mono) (use assms(2) in simp_all)
  also have "\<dots> \<le> length ys" using card_length [of "map fst ys"] by simp
  finally show ?thesis by simp
qed

lemma without_map: "without p (map (\<lambda>(x, k). (x, f x k)) fl) = map (\<lambda>(x, k). (x, f x k)) (without p fl)"
  by (induction fl) (auto simp: without_def)

lemma remove1_filter: "distinct xs \<Longrightarrow> filter (\<lambda>x. x \<noteq> p) xs = remove1 p xs"
  by (simp add: distinct_remove1_removeAll removeAll_filter_not_eq eq_commute)

text \<open>The value of a key is replaced.\<close>

definition assign :: "'k \<Rightarrow> 'a \<Rightarrow> ('k \<times> 'a) list \<Rightarrow> ('k \<times> 'a) list" where
  "assign p v xs = map (\<lambda>(x, w). (x, if x = p then v else w)) xs"

lemma assign_keys [simp]:
  "map fst (assign p v xs) = map fst xs" "fst ` set (assign p v xs) = fst ` set xs" "assign p v xs = [] \<longleftrightarrow> xs = []"
proof -
  show k: "map fst (assign p v xs) = map fst xs" by (induction xs) (auto simp: assign_def)
  show "fst ` set (assign p v xs) = fst ` set xs" using arg_cong [OF k, of set] by simp
qed (simp add: assign_def)

lemma assign_same: "map_of xs p = Some v \<Longrightarrow> distinct (map fst xs) \<Longrightarrow> assign p v xs = xs"
  unfolding assign_def by (rule map_idI) (auto dest: eq_key_imp_eq_value map_of_SomeD)

lemma assign_mem: "p \<in> fst ` set xs \<Longrightarrow> (p, v) \<in> set (assign p v xs)"
  by (force simp: assign_def)

lemma map_of_assign: "map_of (assign p v xs) x = (if x = p then map_option (\<lambda>_. v) (map_of xs p) else map_of xs x)"
  by (induction xs) (auto simp: assign_def)

section \<open>Refinement of operation sequences\<close>

text \<open>
  A component refines an abstract machine if every operation, started in related states, returns
  the abstract output and ends in related states. Then every sequence of operations returns the
  abstract outputs, and in particular none of them panics, blocks or is undefined.
\<close>

fun run_impl :: "('op \<Rightarrow> 'c \<Rightarrow> ('o \<times> 'c) res) \<Rightarrow> 'op list \<Rightarrow> 'c \<Rightarrow> ('o list \<times> 'c) res" where
  "run_impl step [] c = Inr ([], c)"
| "run_impl step (op # ops) c =
     bind_res (step op c) (\<lambda>(out, c). bind_res (run_impl step ops c) (\<lambda>(outs, c). Inr (out # outs, c)))"

fun run_spec :: "('op \<Rightarrow> 'a \<Rightarrow> 'o \<times> 'a) \<Rightarrow> 'op list \<Rightarrow> 'a \<Rightarrow> 'o list \<times> 'a" where
  "run_spec step [] a = ([], a)"
| "run_spec step (op # ops) a =
     (let (out, a) = step op a; (outs, a) = run_spec step ops a in (out # outs, a))"

text \<open>Runs of two sequences of calls, one after the other.\<close>

lemma run_impl_append:
  "run_impl step (xs @ ys) c = Inr (outs, c') \<longleftrightarrow>
   (\<exists>us vs d. run_impl step xs c = Inr (us, d) \<and> run_impl step ys d = Inr (vs, c') \<and> outs = us @ vs)"
proof (induction xs arbitrary: c outs)
  case (Cons x xs)
  show ?case
  proof (cases "step x c")
    case (Inr r)
    obtain o1 c1 where "r = (o1, c1)" by (cases r)
    with Inr Cons.IH show ?thesis by (auto simp: bind_res_eq_Inr_iff)
  qed simp
qed simp

lemma run_impl_length: "run_impl step ops c = Inr (outs, c') \<Longrightarrow> length outs = length ops"
  by (induction ops arbitrary: c outs) (auto simp: bind_res_eq_Inr_iff)

text \<open>Runs in which no call is \<open>bad\<close> in the state it is made in.\<close>

fun avoids :: "('op \<Rightarrow> 'c \<Rightarrow> bool) \<Rightarrow> ('op \<Rightarrow> 'c \<Rightarrow> ('o \<times> 'c) res) \<Rightarrow> 'op list \<Rightarrow> 'c \<Rightarrow> bool" where
  "avoids bad step [] c = True"
| "avoids bad step (op # ops) c \<longleftrightarrow>
     \<not> bad op c \<and> (case step op c of Inl _ \<Rightarrow> True | Inr (_, c) \<Rightarrow> avoids bad step ops c)"

locale simulation =
  fixes R :: "'c \<Rightarrow> 'a \<Rightarrow> bool" and cstep :: "'op \<Rightarrow> 'c \<Rightarrow> ('o \<times> 'c) res"
    and astep :: "'op \<Rightarrow> 'a \<Rightarrow> 'o \<times> 'a"
  assumes sim: "R c a \<Longrightarrow> \<exists>c'. cstep op c = Inr (fst (astep op a), c') \<and> R c' (snd (astep op a))"
begin

lemma run_refines:
  "R c a \<Longrightarrow> \<exists>c'. run_impl cstep ops c = Inr (fst (run_spec astep ops a), c')
     \<and> R c' (snd (run_spec astep ops a))"
proof (induction ops arbitrary: c a)
  case (Cons op ops)
  obtain c1 where c1: "cstep op c = Inr (fst (astep op a), c1)" "R c1 (snd (astep op a))"
    using sim [OF Cons.prems] by blast
  obtain c2 where "run_impl cstep ops c1 = Inr (fst (run_spec astep ops (snd (astep op a))), c2)"
    "R c2 (snd (run_spec astep ops (snd (astep op a))))"
    using Cons.IH [OF c1(2)] by blast
  with c1 show ?case by (simp add: Let_def split_beta)
qed simp

end

text \<open>
  A specification whose steps may fault: \<open>fault op a\<close> is the fault of the call, if it has one. A run
  ends with the first fault, on both sides the same one.
\<close>

definition faulty :: "('op \<Rightarrow> 'a \<Rightarrow> fault option) \<Rightarrow> ('op \<Rightarrow> 'a \<Rightarrow> 'o \<times> 'a) \<Rightarrow> 'op \<Rightarrow> 'a \<Rightarrow> ('o \<times> 'a) res" where
  "faulty fault astep op a = (case fault op a of Some e \<Rightarrow> Inl e | None \<Rightarrow> Inr (astep op a))"

definition outcome :: "('o list \<times> 'a) res \<Rightarrow> 'o list res" where
  "outcome r = map_sum id fst r"

lemma outcome_simps [simp]: "outcome (Inl e) = Inl e" "outcome (Inr (outs, a)) = Inr outs"
  by (simp_all add: outcome_def)

locale fault_simulation =
  fixes R :: "'c \<Rightarrow> 'a \<Rightarrow> bool" and cstep :: "'op \<Rightarrow> 'c \<Rightarrow> ('o \<times> 'c) res"
    and astep :: "'op \<Rightarrow> 'a \<Rightarrow> 'o \<times> 'a" and fault :: "'op \<Rightarrow> 'a \<Rightarrow> fault option"
  assumes step_sim: "R c a \<Longrightarrow> fault op a = None \<Longrightarrow> \<exists>c'. cstep op c = Inr (fst (astep op a), c') \<and> R c' (snd (astep op a))"
    and step_fault: "R c a \<Longrightarrow> fault op a = Some e \<Longrightarrow> cstep op c = Inl e"
begin

lemma step_succeeds:
  assumes "R c a" and "cstep op c = Inr (out, c')"
  shows "fault op a = None" "out = fst (astep op a)" "R c' (snd (astep op a))"
proof -
  show n: "fault op a = None" using step_fault [OF assms(1), of op] assms(2) by (cases "fault op a") auto
  from step_sim [OF assms(1) n] assms(2) show "out = fst (astep op a)" "R c' (snd (astep op a))" by auto
qed

lemma run_related:
  assumes "R c a"
  shows "case run_impl cstep ops c of
      Inl e \<Rightarrow> run_impl (faulty fault astep) ops a = Inl e
    | Inr (outs, c') \<Rightarrow> \<exists>a'. run_impl (faulty fault astep) ops a = Inr (outs, a') \<and> R c' a'"
  using assms
proof (induction ops arbitrary: c a)
  case (Cons op ops)
  show ?case
  proof (cases "fault op a")
    case None
    obtain c1 where c1: "cstep op c = Inr (fst (astep op a), c1)" "R c1 (snd (astep op a))" using step_sim [OF Cons.prems None] by blast
    from Cons.IH [OF c1(2)] c1(1) None show ?thesis
      by (cases "run_impl cstep ops c1") (auto simp: faulty_def split_beta)
  next
    case (Some e)
    then show ?thesis using step_fault [OF Cons.prems Some] by (simp add: faulty_def)
  qed
qed simp

lemma run_succeeds:
  assumes "R c a" and "run_impl (faulty fault astep) ops a = Inr (outs, a')"
  shows "\<exists>c'. run_impl cstep ops c = Inr (outs, c') \<and> R c' a'"
  using run_related [OF assms(1), of ops] assms(2) by (cases "run_impl cstep ops c") auto

lemma run_outcome: "R c a \<Longrightarrow> outcome (run_impl cstep ops c) = outcome (run_impl (faulty fault astep) ops a)"
  using run_related [of c a ops] by (cases "run_impl cstep ops c") auto

end

sublocale simulation \<subseteq> faultless: fault_simulation R cstep astep "\<lambda>_ _. None"
  by unfold_locales (use sim in auto)

text \<open>
  Clients that wait. A list has the waiters by key with what they are registered with. The one at
  \<open>p\<close> is served as long as it is registered with \<open>v\<close>, or is out of the list and
  one of \<open>N\<close>, and \<open>b\<close> has happened.
\<close>

definition is_served :: "('k \<times> 'v) list \<Rightarrow> 'k set \<Rightarrow> 'k \<Rightarrow> 'v \<Rightarrow> bool \<Rightarrow> bool" where
  "is_served ws N p v b \<longleftrightarrow> (p, v) \<in> set ws \<or> p \<notin> fst ` set ws \<and> p \<in> N \<and> b"

lemma served_leave:
  assumes s: "is_served ws N p v b" and gone: "set ws \<subseteq> set gone \<union> set rest" "fst ` set rest \<subseteq> fst ` set ws - fst ` set gone"
    and b: "b \<or> v \<in> snd ` set gone \<Longrightarrow> b'" and N: "p \<in> N \<union> fst ` set gone \<Longrightarrow> p \<in> N'"
  shows "is_served rest N' p v b'"
proof (cases "(p, v) \<in> set gone")
  case True
  then have "p \<in> fst ` set gone" "v \<in> snd ` set gone" by force+
  then show ?thesis using gone(2) b N unfolding is_served_def by blast
next
  case False
  then show ?thesis using assms unfolding is_served_def by blast
qed

lemma served_take:
  assumes "is_served ws N p v b" and "distinct (map fst ws)" and "ws = gone @ rest \<or> ws = rest @ gone"
    and "b \<or> v \<in> snd ` set gone \<Longrightarrow> b'" and "p \<in> N \<union> fst ` set gone \<Longrightarrow> p \<in> N'"
  shows "is_served rest N' p v b'"
proof (rule served_leave [OF assms(1) _ _ assms(4,5)])
  show "set ws \<subseteq> set gone \<union> set rest" using assms(3) by auto
  have "fst ` set rest \<subseteq> fst ` set ws" using assms(3) by (elim disjE) (simp_all add: image_Un)
  moreover have "fst ` set gone \<inter> fst ` set rest = {}"
    using assms(3)
  proof
    assume "ws = gone @ rest"
    then show ?thesis using assms(2) by simp
  next
    assume "ws = rest @ gone"
    then show ?thesis using assms(2) by (simp add: Int_commute)
  qed
  ultimately show "fst ` set rest \<subseteq> fst ` set ws - fst ` set gone" by blast
qed

lemma served_mono: "is_served ws N p v b \<Longrightarrow> (b \<Longrightarrow> b') \<Longrightarrow> (p \<in> N \<Longrightarrow> p \<in> N') \<Longrightarrow> is_served ws N' p v b'"
  by (auto simp: is_served_def)

lemma served_other:
  assumes "x \<noteq> p"
  shows "is_served (ws @ [(x, w)]) N p v b = is_served ws N p v b" "is_served (assign x w ws) N p v b = is_served ws N p v b"
    "is_served (without x ws) N p v b = is_served ws N p v b"
proof -
  show "is_served (ws @ [(x, w)]) N p v b = is_served ws N p v b" using assms by (auto simp: is_served_def)
  have "(p, v) \<in> set (assign x w ws) \<longleftrightarrow> (p, v) \<in> set ws" using assms by (induction ws) (auto simp: assign_def)
  then show "is_served (assign x w ws) N p v b = is_served ws N p v b" by (simp add: is_served_def)
  show "is_served (without x ws) N p v b = is_served ws N p v b" using assms by (simp add: is_served_def set_without)
qed

text \<open>The tasks that a sequence of calls has woken, from a log per call.\<close>

definition woken :: "('r \<times> ('w \<times> bool) list) list \<Rightarrow> 'w set" where
  "woken outs = fst ` set (concat (map snd outs))"

lemma woken_simps [simp]: "woken [] = {}" "woken (x # xs) = fst ` set (snd x) \<union> woken xs"
  by (auto simp: woken_def)

text \<open>
  A component whose calls wake tasks: a pending poll registers its task, and calls that do not concern
  the waiter keep it served.
\<close>

locale waking = fault_simulation R cstep astep fault
  for R :: "'c \<Rightarrow> 'a \<Rightarrow> bool" and cstep :: "'op \<Rightarrow> 'c \<Rightarrow> (('r \<times> ('w \<times> bool) list) \<times> 'c) res"
    and astep :: "'op \<Rightarrow> 'a \<Rightarrow> ('r \<times> ('w \<times> bool) list) \<times> 'a" and fault :: "'op \<Rightarrow> 'a \<Rightarrow> fault option" +
  fixes waits :: "'k \<Rightarrow> 'w \<Rightarrow> 'a \<Rightarrow> bool \<Rightarrow> bool" and polls :: "'k \<Rightarrow> 'w \<Rightarrow> 'op \<Rightarrow> bool"
    and concerns :: "'k \<Rightarrow> 'op \<Rightarrow> bool" and pending :: 'r
  assumes pending_waits: "R c a \<Longrightarrow> fault op a = None \<Longrightarrow> polls p cx op \<Longrightarrow> fst (fst (astep op a)) = pending
      \<Longrightarrow> waits p cx (snd (astep op a)) False"
    and step_waits: "R c a \<Longrightarrow> fault op a = None \<Longrightarrow> waits p cx a b \<Longrightarrow> \<not> concerns p op
      \<Longrightarrow> waits p cx (snd (astep op a)) (b \<or> cx \<in> fst ` set (snd (fst (astep op a))))"
begin

lemma run_waits:
  "R c a \<Longrightarrow> waits p cx a b \<Longrightarrow> \<forall>op\<in>set ops. \<not> concerns p op \<Longrightarrow> run_impl cstep ops c = Inr (outs, c')
   \<Longrightarrow> \<exists>a'. R c' a' \<and> waits p cx a' (b \<or> cx \<in> woken outs)"
proof (induction ops arbitrary: c a b outs)
  case (Cons op ops)
  obtain u c1 ws where s: "cstep op c = Inr (u, c1)" "run_impl cstep ops c1 = Inr (ws, c')" "outs = u # ws"
    using Cons.prems(4) by (auto simp: bind_res_eq_Inr_iff)
  note d = step_succeeds [OF Cons.prems(1) s(1)]
  have "waits p cx (snd (astep op a)) (b \<or> cx \<in> fst ` set (snd u))"
    using Cons.prems d(1) unfolding d(2) by (intro step_waits) simp_all
  from Cons.IH [OF d(3) this _ s(2)] Cons.prems(3) s(3) show ?case by (simp add: disj_assoc)
qed auto

lemma no_lost_wakeup:
  assumes r: "R c a" and run: "run_impl cstep (before @ op # after) c = Inr (outs, c')"
    and op: "polls p cx op" "fst (outs ! length before) = pending" and others: "\<forall>x\<in>set after. \<not> concerns p x"
  obtains a' where "R c' a'" "waits p cx a' (cx \<in> woken (drop (Suc (length before)) outs))"
proof -
  obtain us vs c1 where l: "run_impl cstep before c = Inr (us, c1)" "run_impl cstep (op # after) c1 = Inr (vs, c')" "outs = us @ vs"
    using run unfolding run_impl_append by blast
  obtain u c2 ws where s: "cstep op c1 = Inr (u, c2)" "run_impl cstep after c2 = Inr (ws, c')" "vs = u # ws"
    using l(2) by (auto simp: bind_res_eq_Inr_iff)
  obtain a1 where a1: "R c1 a1" using run_related [OF r, of before] l(1) by auto
  note d = step_succeeds [OF a1 s(1)]
  have len: "length us = length before" by (rule run_impl_length [OF l(1)])
  then have e: "fst u = pending" "drop (Suc (length before)) outs = ws" using op(2) l(3) s(3) by (simp_all add: nth_append)
  have "waits p cx (snd (astep op a1)) False" using pending_waits [OF a1 d(1) op(1)] e(1) d(2) by simp
  from run_waits [OF d(3) this others s(2)] that show ?thesis unfolding e(2) by auto
qed

end

section \<open>Concurrent machines\<close>

text \<open>
  A concurrent component is a relation on states, one step of one thread at a time.
  \<open>reach\<close> are the states it can get to, and a predicate that holds at the start and is
  kept by every step holds in all of them.
\<close>

inductive reach :: "('s \<Rightarrow> bool) \<Rightarrow> ('s \<Rightarrow> 's \<Rightarrow> bool) \<Rightarrow> 's \<Rightarrow> bool"
  for init :: "'s \<Rightarrow> bool" and step :: "'s \<Rightarrow> 's \<Rightarrow> bool" where
  reach_init: "init s \<Longrightarrow> reach init step s"
| reach_step: "reach init step s \<Longrightarrow> step s s' \<Longrightarrow> reach init step s'"

lemma reach_steps: "step\<^sup>*\<^sup>* s s' \<Longrightarrow> reach init step s \<Longrightarrow> reach init step s'"
  by (induction rule: rtranclp_induct) (auto intro: reach_step)

locale invariant_of =
  fixes init :: "'s \<Rightarrow> bool" and step :: "'s \<Rightarrow> 's \<Rightarrow> bool" and inv :: "'s \<Rightarrow> bool"
  assumes init_inv: "init s \<Longrightarrow> inv s" and step_inv: "inv s \<Longrightarrow> step s s' \<Longrightarrow> inv s'"
begin

lemma reach_inv: "reach init step s \<Longrightarrow> inv s"
  by (induction rule: reach.induct) (auto intro: init_inv step_inv)

lemma steps_inv: "step\<^sup>*\<^sup>* s s' \<Longrightarrow> inv s \<Longrightarrow> inv s'"
  by (induction rule: rtranclp_induct) (auto intro: step_inv)

end

end
