(* ===== verification/Queue_State.thy ===== *)
theory Queue_State
  imports Aiq_Prelude
begin

text \<open>
  \<^verbatim>\<open>src/queue/state.rs\<close>: what the queue's tail word holds. The word is either an
  embedded queue state (the queue is empty) or the address of the last node, and each
  implementation of \<^verbatim>\<open>QueueStatePrivate\<close> says how the two are told apart. The trait
  is a record of its two functions, an implementation is a value of that record, and the trait's
  safety contract (\<^emph>\<open>implementation must be bijective\<close>) is the locale
  \<open>queue_state\<close>, interpreted for the three implementations of the crate.
\<close>

section \<open>The enum and the trait\<close>

datatype 's state_or_ptr = State 's | Ptr addr

definition sop_state :: "'s state_or_ptr \<Rightarrow> 's option" where
  "sop_state x = (case x of State s \<Rightarrow> Some s | Ptr _ \<Rightarrow> None)"

definition sop_tail :: "'s state_or_ptr \<Rightarrow> addr option" where
  "sop_tail x = (case x of Ptr p \<Rightarrow> Some p | State _ \<Rightarrow> None)"

lemma sop_simps [simp]:
  "sop_state (State s) = Some s" "sop_state (Ptr p) = None"
  "sop_tail (State s) = None" "sop_tail (Ptr p) = Some p"
  by (simp_all add: sop_state_def sop_tail_def)

lemma sop_tail_eq_Some [simp]: "sop_tail x = Some p \<longleftrightarrow> x = Ptr p"
  by (cases x) simp_all

lemma sop_state_eq_Some [simp]: "sop_state x = Some s \<longleftrightarrow> x = State s"
  by (cases x) simp_all

record 's state_ops =
  tail_to_enum :: "usize \<Rightarrow> 's state_or_ptr"
  enum_to_tail :: "'s state_or_ptr \<Rightarrow> usize res"

text \<open>
  Addresses a \<^verbatim>\<open>NodeLink\<close> can have: non-null, and aligned to four bytes by its
  \<^verbatim>\<open>repr(align(4))\<close>.
\<close>

definition node_addr :: "addr \<Rightarrow> bool" where
  "node_addr p \<longleftrightarrow> p \<noteq> 0 \<and> p AND 3 = 0"

section \<open>The three implementations\<close>

definition unit_state :: "unit state_ops" where
  "unit_state = \<lparr>
     tail_to_enum = (\<lambda>tail. if tail = 0 then State () else Ptr tail),
     enum_to_tail = (\<lambda>x. case x of State _ \<Rightarrow> Inr 0 | Ptr p \<Rightarrow> Inr p)\<rparr>"

definition TAIL_FLAG :: usize where
  "TAIL_FLAG = 1"

definition STATE_SHIFT :: nat where
  "STATE_SHIFT = 1"

definition INTRUSIVE_QUEUE_MAX_STATE :: usize where
  "INTRUSIVE_QUEUE_MAX_STATE = drop_bit STATE_SHIFT (- 1)"

definition state_to_ptr :: "usize \<Rightarrow> usize res" where
  "state_to_ptr st =
     (if st > INTRUSIVE_QUEUE_MAX_STATE then Inl (Panic ''queue state overflow'')
      else Inr (push_bit STATE_SHIFT st))"

definition usize_state :: "usize state_ops" where
  "usize_state = \<lparr>
     tail_to_enum = (\<lambda>tail.
       if tail AND TAIL_FLAG \<noteq> 0 then Ptr (tail AND NOT TAIL_FLAG)
       else State (drop_bit STATE_SHIFT tail)),
     enum_to_tail = (\<lambda>x. case x of State st \<Rightarrow> state_to_ptr st | Ptr p \<Rightarrow> Inr (p OR TAIL_FLAG))\<rparr>"

definition check_alignment :: "addr \<Rightarrow> usize" where
  "check_alignment p = p AND NOT TAIL_FLAG"

definition ptr_state :: "addr state_ops" where
  "ptr_state = \<lparr>
     tail_to_enum = (\<lambda>tail.
       if tail AND TAIL_FLAG \<noteq> 0 then Ptr (tail AND NOT TAIL_FLAG) else State tail),
     enum_to_tail = (\<lambda>x. case x of State p \<Rightarrow> Inr (check_alignment p) | Ptr p \<Rightarrow> Inr (p OR TAIL_FLAG))\<rparr>"

lemmas state_ops_defs = unit_state_def usize_state_def ptr_state_def state_to_ptr_def
  check_alignment_def

text \<open>The laws of the tag, over the folded constants so that the simplifier keeps their shape.\<close>

lemma tag_laws [simp]:
  "(p OR TAIL_FLAG) AND TAIL_FLAG \<noteq> 0"
  "p AND TAIL_FLAG = 0 \<Longrightarrow> (p OR TAIL_FLAG) AND NOT TAIL_FLAG = p"
  "p AND TAIL_FLAG \<noteq> 0 \<Longrightarrow> (p AND NOT TAIL_FLAG) OR TAIL_FLAG = p"
  "p AND TAIL_FLAG = 0 \<Longrightarrow> p AND NOT TAIL_FLAG = p"
  "(p AND NOT TAIL_FLAG) AND TAIL_FLAG = 0"
  unfolding TAIL_FLAG_def
  by (rule tag_flag, erule tag_clear, erule tag_restore, erule clear_even, rule clear_flag)

lemma shift_laws [simp]:
  "push_bit STATE_SHIFT st AND TAIL_FLAG = 0"
  "p AND TAIL_FLAG = 0 \<Longrightarrow> push_bit STATE_SHIFT (drop_bit STATE_SHIFT p) = p"
  "st \<le> INTRUSIVE_QUEUE_MAX_STATE \<Longrightarrow> drop_bit STATE_SHIFT (push_bit STATE_SHIFT st) = st"
  "drop_bit STATE_SHIFT p \<le> INTRUSIVE_QUEUE_MAX_STATE"
  unfolding TAIL_FLAG_def STATE_SHIFT_def INTRUSIVE_QUEUE_MAX_STATE_def
  by (rule shift_even, erule even_shift_back, erule shift_back, rule shift_right_bound)

lemma zero_laws [simp]: "TAIL_FLAG \<noteq> 0" "\<not> INTRUSIVE_QUEUE_MAX_STATE < drop_bit STATE_SHIFT p"
  by (simp add: TAIL_FLAG_def) (simp add: not_less)

lemma max_state_value: "INTRUSIVE_QUEUE_MAX_STATE = 9223372036854775807"
  unfolding INTRUSIVE_QUEUE_MAX_STATE_def STATE_SHIFT_def
  by (simp only: word_unat_eq_iff half_range) simp

section \<open>Node addresses\<close>

lemma node_addr_even [simp]: "node_addr p \<Longrightarrow> p AND TAIL_FLAG = 0"
proof -
  assume "node_addr p"
  then have "(p AND 3) AND 1 = 0" by (simp add: node_addr_def)
  then show "p AND TAIL_FLAG = 0" by (simp add: and.assoc TAIL_FLAG_def)
qed

lemma node_addr_nonzero [simp]: "node_addr p \<Longrightarrow> p \<noteq> 0" "\<not> node_addr 0"
  by (auto simp: node_addr_def)

lemma node_addr_not_marker [simp]: "\<not> node_addr 1" "\<not> node_addr 2"
  by (simp_all add: node_addr_def)

lemma node_addr_ge: "node_addr p \<Longrightarrow> 2 < p"
proof -
  assume p: "node_addr p"
  then have "p \<noteq> 0" "p \<noteq> 1" "p \<noteq> 2" using node_addr_not_marker by auto
  then have "unat p \<noteq> unat (0::usize)" "unat p \<noteq> unat (1::usize)" "unat p \<noteq> unat (2::usize)"
    by (simp_all only: word_unat_eq_iff not_False_eq_True)
  then show "2 < p" by (simp add: word_less_nat_alt)
qed

section \<open>The contract\<close>

locale queue_state =
  fixes S :: "'s state_ops" and valid :: "'s \<Rightarrow> bool" and dflt :: 's
  assumes tail_roundtrip: "enum_to_tail S (tail_to_enum S w) = Inr w"
    and state_encodable: "valid st \<Longrightarrow> \<exists>w. enum_to_tail S (State st) = Inr w \<and> tail_to_enum S w = State st"
    and ptr_encodable: "node_addr p \<Longrightarrow> \<exists>w. enum_to_tail S (Ptr p) = Inr w \<and> tail_to_enum S w = Ptr p"
    and null_is_state: "tail_to_enum S 0 = State dflt"
    and decoded_valid: "tail_to_enum S w = State st \<Longrightarrow> valid st"
begin

lemma decode_inj: "tail_to_enum S v = tail_to_enum S w \<Longrightarrow> v = w"
  by (metis Inr_inject tail_roundtrip)

lemma dflt_valid: "valid dflt"
  using decoded_valid [OF null_is_state] .

lemma encode_state: "enum_to_tail S (State st) = Inr w \<Longrightarrow> valid st \<Longrightarrow> tail_to_enum S w = State st"
  using state_encodable by force

lemma encode_ptr: "enum_to_tail S (Ptr p) = Inr w \<Longrightarrow> node_addr p \<Longrightarrow> tail_to_enum S w = Ptr p"
  using ptr_encodable by force

lemma encode_of_decode: "tail_to_enum S w = x \<Longrightarrow> enum_to_tail S x = Inr w"
  using tail_roundtrip by blast

lemma decode_eq_iff: "node_addr p \<Longrightarrow> enum_to_tail S (Ptr p) = Inr w \<Longrightarrow> v = w \<longleftrightarrow> tail_to_enum S v = Ptr p"
  using encode_ptr decode_inj by auto

end

interpretation unit_qs: queue_state unit_state "\<lambda>_. True" "()"
  by unfold_locales (auto simp: unit_state_def)

interpretation usize_qs: queue_state usize_state "\<lambda>st. st \<le> INTRUSIVE_QUEUE_MAX_STATE" 0
  by unfold_locales (auto simp: state_ops_defs not_less split: if_splits)

interpretation ptr_qs: queue_state ptr_state "\<lambda>p. p AND TAIL_FLAG = 0" 0
  by unfold_locales (auto simp: state_ops_defs split: if_splits)

section \<open>Properties\<close>

text \<open>
  C18. A tail word and the enum it stands for determine each other for the \<^verbatim>\<open>usize\<close>
  state: decoding then encoding gives the word back for every 64-bit word, encoding then decoding
  gives the state back exactly when it fits in 63 bits and gives every node address back, and a
  state that does not fit panics instead of being truncated into another state.
\<close>

theorem usize_state_bijective:
  "enum_to_tail usize_state (tail_to_enum usize_state w) = Inr w
   \<and> (st \<le> INTRUSIVE_QUEUE_MAX_STATE \<longrightarrow>
        (\<exists>v. enum_to_tail usize_state (State st) = Inr v \<and> tail_to_enum usize_state v = State st))
   \<and> (node_addr p \<longrightarrow>
        (\<exists>v. enum_to_tail usize_state (Ptr p) = Inr v \<and> tail_to_enum usize_state v = Ptr p))
   \<and> (st > INTRUSIVE_QUEUE_MAX_STATE \<longrightarrow>
        enum_to_tail usize_state (State st) = Inl (Panic ''queue state overflow''))"
  using usize_qs.tail_roundtrip usize_qs.state_encodable usize_qs.ptr_encodable
  by (auto simp: usize_state_def state_to_ptr_def)

theorem usize_state_bijective_witness:
  "(\<exists>v. enum_to_tail usize_state (State 5) = Inr v \<and> tail_to_enum usize_state v = State 5)
   \<and> (\<exists>v. enum_to_tail usize_state (Ptr 4096) = Inr v \<and> tail_to_enum usize_state v = Ptr 4096)
   \<and> enum_to_tail usize_state (State 9223372036854775808) = Inl (Panic ''queue state overflow'')"
  using usize_state_bijective [of 0 5 4096] usize_state_bijective [of 0 9223372036854775808 4096]
  by (simp add: node_addr_def max_state_value)

text \<open>
  The raw-pointer state is not bijective: a state pointer whose low bit is set is accepted
  without any check, but what the queue stores and gives back is the pointer with that bit
  cleared. On even pointers the round trip is exact.
\<close>

theorem ptr_state_drops_low_bit:
  "\<exists>v. enum_to_tail ptr_state (State p) = Inr v
       \<and> tail_to_enum ptr_state v = State (p AND NOT TAIL_FLAG)
       \<and> (p AND NOT TAIL_FLAG = p \<longleftrightarrow> p AND TAIL_FLAG = 0)"
proof (intro exI conjI)
  show "enum_to_tail ptr_state (State p) = Inr (p AND NOT TAIL_FLAG)"
    by (simp add: ptr_state_def check_alignment_def)
  show "tail_to_enum ptr_state (p AND NOT TAIL_FLAG) = State (p AND NOT TAIL_FLAG)"
    by (simp add: ptr_state_def)
  show "p AND NOT TAIL_FLAG = p \<longleftrightarrow> p AND TAIL_FLAG = 0"
    by (metis tag_laws(4,5))
qed

end
