(* ===== verification/Node_Link.thy ===== *)
theory Node_Link
  imports Queue_State
begin

text \<open>
  The memory the queue lives in: the link part of \<^verbatim>\<open>src/node.rs\<close> (NodeLink and
  RawNodeState), the fields of \<^verbatim>\<open>Queue\<close>, and the cells the two are made of. The
  links of all live nodes are a partial map from addresses: a dereference of an address that is
  not in the map is \<open>Undefined\<close>, so that a theorem that an operation returns is also a
  theorem that it touches live nodes only.
\<close>

section \<open>Node links and node states\<close>

record node_link =
  link_prev :: addr
  link_next :: addr

definition node_link_new :: node_link where
  "node_link_new = \<lparr>link_prev = 0, link_next = 0\<rparr>"

datatype raw_node_state = Unqueued | Queued | Dequeued

definition into_ptr :: "raw_node_state \<Rightarrow> addr" where
  "into_ptr st = (case st of Unqueued \<Rightarrow> 0 | Queued \<Rightarrow> 2 | Dequeued \<Rightarrow> 1)"

definition link_state :: "node_link \<Rightarrow> raw_node_state" where
  "link_state l =
     (let m = min (link_prev l) 2
      in if m = 0 then Unqueued else if m = 1 then Dequeued else Queued)"

definition HEAD_MARKER :: addr where
  "HEAD_MARKER = into_ptr Queued"

lemma HEAD_MARKER_simps [simp]:
  "HEAD_MARKER \<noteq> 0" "HEAD_MARKER \<noteq> 1" "\<not> node_addr HEAD_MARKER"
  by (simp_all add: HEAD_MARKER_def into_ptr_def)

lemma node_addr_not_HEAD_MARKER [simp]: "node_addr p \<Longrightarrow> p \<noteq> HEAD_MARKER" "node_addr p \<Longrightarrow> p \<noteq> 1"
  by auto

lemma link_state_iff:
  "link_state l = Unqueued \<longleftrightarrow> link_prev l = 0"
  "link_state l = Dequeued \<longleftrightarrow> link_prev l = 1"
  "link_state l = Queued \<longleftrightarrow> link_prev l \<noteq> 0 \<and> link_prev l \<noteq> 1"
proof -
  have "unat (link_prev l) < 2 \<longleftrightarrow> link_prev l = 0 \<or> link_prev l = 1"
    by (auto simp: less_2_cases_iff word_unat_eq_iff)
  then have "link_prev l < 2 \<longleftrightarrow> link_prev l = 0 \<or> link_prev l = 1"
    by (simp add: word_less_nat_alt)
  then show "link_state l = Unqueued \<longleftrightarrow> link_prev l = 0"
    "link_state l = Dequeued \<longleftrightarrow> link_prev l = 1"
    "link_state l = Queued \<longleftrightarrow> link_prev l \<noteq> 0 \<and> link_prev l \<noteq> 1"
    by (auto simp: link_state_def Let_def min_def)
qed

section \<open>The queue and its memory\<close>

text \<open>
  The fields of \<^verbatim>\<open>Queue\<close> (the mutex as the flag whether it is held), together
  with the links and the data of the live nodes; \<^verbatim>\<open>NodeInner\<close> is \<^verbatim>\<open>repr(C)\<close>
  with the link first, so a node and its link have one address.
\<close>

record 'd queue =
  q_tail :: usize
  q_head :: addr
  q_locked :: bool
  q_links :: "addr \<rightharpoonup> node_link"
  q_data :: "addr \<rightharpoonup> 'd"

definition load_prev :: "addr \<Rightarrow> 'd queue \<Rightarrow> addr res" where
  "load_prev p q = (case q_links q p of None \<Rightarrow> Inl Undefined | Some l \<Rightarrow> Inr (link_prev l))"

definition store_prev :: "addr \<Rightarrow> addr \<Rightarrow> 'd queue \<Rightarrow> 'd queue res" where
  "store_prev p v q =
     (case q_links q p of None \<Rightarrow> Inl Undefined
      | Some l \<Rightarrow> Inr (q\<lparr>q_links := (q_links q)(p \<mapsto> l\<lparr>link_prev := v\<rparr>)\<rparr>))"

definition load_next :: "next_ref \<Rightarrow> 'd queue \<Rightarrow> addr res" where
  "load_next r q =
     (case r of HeadRef \<Rightarrow> Inr (q_head q)
      | NextRef p \<Rightarrow>
          (case q_links q p of None \<Rightarrow> Inl Undefined | Some l \<Rightarrow> Inr (link_next l)))"

definition store_next :: "next_ref \<Rightarrow> addr \<Rightarrow> 'd queue \<Rightarrow> 'd queue res" where
  "store_next r v q =
     (case r of HeadRef \<Rightarrow> Inr (q\<lparr>q_head := v\<rparr>)
      | NextRef p \<Rightarrow>
          (case q_links q p of None \<Rightarrow> Inl Undefined
           | Some l \<Rightarrow> Inr (q\<lparr>q_links := (q_links q)(p \<mapsto> l\<lparr>link_next := v\<rparr>)\<rparr>)))"

text \<open>The cells of a memory as functions, and how the stores update them.\<close>

definition cell :: "'d queue \<Rightarrow> next_ref \<Rightarrow> addr option" where
  "cell q r = (case r of HeadRef \<Rightarrow> Some (q_head q) | NextRef p \<Rightarrow> map_option link_next (q_links q p))"

definition prev_of :: "'d queue \<Rightarrow> addr \<Rightarrow> addr option" where
  "prev_of q p = map_option link_prev (q_links q p)"

definition ref_ptr :: "next_ref \<Rightarrow> addr" where
  "ref_ptr r = (case r of HeadRef \<Rightarrow> HEAD_MARKER | NextRef p \<Rightarrow> p)"

definition ptr_ref :: "addr \<Rightarrow> next_ref" where
  "ptr_ref p = (if p = HEAD_MARKER then HeadRef else NextRef p)"

lemma ref_ptr_simps [simp]: "ref_ptr HeadRef = HEAD_MARKER" "ref_ptr (NextRef p) = p"
  by (simp_all add: ref_ptr_def)

lemma ptr_ref_simps [simp]: "ptr_ref HEAD_MARKER = HeadRef" "node_addr p \<Longrightarrow> ptr_ref p = NextRef p"
  by (auto simp: ptr_ref_def)

lemma load_prev_cell: "prev_of q p = Some v \<Longrightarrow> load_prev p q = Inr v"
  by (auto simp: prev_of_def load_prev_def)

lemma load_next_cell: "cell q r = Some v \<Longrightarrow> load_next r q = Inr v"
  by (auto simp: cell_def load_next_def split: next_ref.splits)

lemma cell_tail [simp]:
  "cell (q\<lparr>q_tail := t\<rparr>) = cell q" "prev_of (q\<lparr>q_tail := t\<rparr>) = prev_of q"
  "cell (q\<lparr>q_locked := b\<rparr>) = cell q" "prev_of (q\<lparr>q_locked := b\<rparr>) = prev_of q"
  "cell (q\<lparr>q_data := d\<rparr>) = cell q" "prev_of (q\<lparr>q_data := d\<rparr>) = prev_of q"
  by (auto simp: cell_def prev_of_def fun_eq_iff split: next_ref.splits)

lemma live_iff: "p \<in> dom (q_links q) \<longleftrightarrow> prev_of q p \<noteq> None" "prev_of q p \<noteq> None \<longleftrightarrow> cell q (NextRef p) \<noteq> None"
  by (auto simp: prev_of_def cell_def)

text \<open>
  What a store leaves alone: \<open>frame q q'\<close> says that only links changed, and that no node
  was allocated or freed.
\<close>

definition frame :: "'d queue \<Rightarrow> 'd queue \<Rightarrow> bool" where
  "frame q q' \<longleftrightarrow> q_locked q' = q_locked q \<and> q_data q' = q_data q
     \<and> dom (q_links q') = dom (q_links q)"

lemma frame_refl [simp]: "frame q q"
  by (simp add: frame_def)

lemma frame_trans [trans]: "frame a b \<Longrightarrow> frame b c \<Longrightarrow> frame a c"
  by (simp add: frame_def)

lemma store_prev_cell:
  assumes "prev_of q p = Some u"
  obtains q' where "store_prev p v q = Inr q'" "cell q' = cell q" "prev_of q' = (prev_of q)(p \<mapsto> v)"
    "q_tail q' = q_tail q" "frame q q'"
proof -
  from assms obtain l where l: "q_links q p = Some l" by (auto simp: prev_of_def)
  show ?thesis
    by (rule that [of "q\<lparr>q_links := (q_links q)(p \<mapsto> l\<lparr>link_prev := v\<rparr>)\<rparr>"])
      (auto simp: l store_prev_def cell_def prev_of_def frame_def fun_eq_iff split: next_ref.splits)
qed

lemma store_next_cell:
  assumes "cell q r = Some u"
  obtains q' where "store_next r v q = Inr q'" "cell q' = (cell q)(r \<mapsto> v)" "prev_of q' = prev_of q"
    "q_tail q' = q_tail q" "frame q q'"
proof (cases r)
  case HeadRef
  show ?thesis
    by (rule that [of "q\<lparr>q_head := v\<rparr>"])
      (auto simp: HeadRef store_next_def cell_def prev_of_def frame_def fun_eq_iff split: next_ref.splits)
next
  case (NextRef p)
  with assms obtain l where l: "q_links q p = Some l" by (auto simp: cell_def)
  show ?thesis
    by (rule that [of "q\<lparr>q_links := (q_links q)(p \<mapsto> l\<lparr>link_next := v\<rparr>)\<rparr>"])
      (auto simp: NextRef l store_next_def cell_def prev_of_def frame_def fun_eq_iff split: next_ref.splits)
qed

section \<open>Chains of cells\<close>

text \<open>
  \<open>chain c pv pend r0 ns nx\<close>: starting at the cell \<open>r0\<close> the nodes \<open>ns\<close> are
  linked in order, each node's \<open>prev\<close> names the cell before it, and the last cell holds
  \<open>nx\<close> (null in the queue, the sentinel in a drained list). The nodes of \<open>pend\<close> are
  half inserted: they are already the tail or have a successor, but the cell in front of them is
  still null (phase 2 of the insertion is outstanding).
\<close>

definition chain ::
  "(next_ref \<Rightarrow> addr option) \<Rightarrow> (addr \<Rightarrow> addr option) \<Rightarrow> addr set \<Rightarrow> next_ref \<Rightarrow> addr list \<Rightarrow> addr \<Rightarrow> bool"
  where
  "chain c pv pend r0 ns nx \<longleftrightarrow>
     linear r0 ns \<and> (\<forall>x\<in>set ns. node_addr x)
     \<and> (\<forall>r\<in>refs r0 ns. c r =
          Some (case succ r0 ns r of None \<Rightarrow> nx | Some y \<Rightarrow> if y \<in> pend then 0 else y))
     \<and> (\<forall>r y. succ r0 ns r = Some y \<longrightarrow> pv y = Some (ref_ptr r))"

lemma chain_linear: "chain c pv pend r0 ns nx \<Longrightarrow> linear r0 ns"
  and chain_node_addr: "chain c pv pend r0 ns nx \<Longrightarrow> x \<in> set ns \<Longrightarrow> node_addr x"
  and chain_cell: "chain c pv pend r0 ns nx \<Longrightarrow> r \<in> refs r0 ns \<Longrightarrow>
        c r = Some (case succ r0 ns r of None \<Rightarrow> nx | Some y \<Rightarrow> if y \<in> pend then 0 else y)"
  and chain_prev: "chain c pv pend r0 ns nx \<Longrightarrow> succ r0 ns r = Some y \<Longrightarrow> pv y = Some (ref_ptr r)"
  by (simp_all add: chain_def)

lemma chainI:
  assumes "linear r0 ns" and "\<And>x. x \<in> set ns \<Longrightarrow> node_addr x"
    and "\<And>r. r \<in> refs r0 ns \<Longrightarrow> c r
           = Some (case succ r0 ns r of None \<Rightarrow> nx | Some y \<Rightarrow> if y \<in> pend then 0 else y)"
    and "\<And>r y. succ r0 ns r = Some y \<Longrightarrow> pv y = Some (ref_ptr r)"
  shows "chain c pv pend r0 ns nx"
  using assms by (simp add: chain_def)

lemma chain_snoc:
  assumes ch: "chain c pv pend r0 ns 0" and y: "linear r0 (ns @ [y])" "node_addr y"
    and cy: "c (NextRef y) = Some 0" and py: "pv y = Some (ref_ptr (lastref r0 ns))"
  shows "chain c pv (insert y pend) r0 (ns @ [y]) 0"
proof (rule chainI)
  have lin: "linear r0 ns" and ny: "y \<notin> set ns" "r0 \<noteq> NextRef y"
    using y(1) by (auto simp: linear_snoc)
  have old: "succ r0 ns r = Some z \<Longrightarrow> z \<noteq> y" for r z using ny by (auto dest: succ_SomeD)
  have new: "NextRef y \<notin> refs r0 ns" using ny by (auto simp: refs_def)
  show "linear r0 (ns @ [y])" by (rule y(1))
  show "x \<in> set (ns @ [y]) \<Longrightarrow> node_addr x" for x
    using y(2) chain_node_addr [OF ch] by auto
  show "c r = Some (case succ r0 (ns @ [y]) r of None \<Rightarrow> 0 | Some z \<Rightarrow> if z \<in> insert y pend then 0 else z)"
    if "r \<in> refs r0 (ns @ [y])" for r
  proof (cases "r = NextRef y")
    case True
    then have "r \<noteq> lastref r0 ns" using new lastref_in_refs by metis
    with True new cy show ?thesis by (simp add: succ_snoc)
  next
    case False
    with that have "r \<in> refs r0 ns" by simp
    with chain_cell [OF ch this] old succ_lastref [OF lin] show ?thesis
      by (auto simp: succ_snoc split: option.splits)
  qed
  show "succ r0 (ns @ [y]) r = Some z \<Longrightarrow> pv z = Some (ref_ptr r)" for r z
    using py chain_prev [OF ch] by (auto simp: succ_snoc split: if_splits)
qed

lemma chain_link:
  assumes ch: "chain c pv pend r0 ns nx" and ry: "succ r0 ns r = Some y"
  shows "chain (c(r \<mapsto> y)) pv (pend - {y}) r0 ns nx"
proof (rule chainI)
  have inj: "succ r0 ns r' = Some y \<Longrightarrow> r' = r" for r'
    using chain_linear [OF ch] ry by (auto simp: linear_def intro: succ_inj)
  show "(c(r \<mapsto> y)) r' = Some (case succ r0 ns r' of None \<Rightarrow> nx | Some z \<Rightarrow> if z \<in> pend - {y} then 0 else z)"
    if "r' \<in> refs r0 ns" for r'
  proof (cases "r' = r")
    case True
    with ry show ?thesis by simp
  next
    case False
    then have "succ r0 ns r' \<noteq> Some y" using inj by blast
    with False chain_cell [OF ch that] show ?thesis by (cases "succ r0 ns r'") auto
  qed
qed (use ch in \<open>auto simp: chain_def\<close>)

lemma chain_remove_refs:
  assumes "linear r0 ns" and "succ r0 ns rx = Some x"
  shows "refs r0 (remove1 x ns) = refs r0 ns - {NextRef x}"
  using assms succ_SomeD [OF assms(2)] by (intro refs_remove1) (auto simp: linear_def)

lemma chain_remove:
  assumes ch: "chain c pv pend r0 ns nx" and rx: "succ r0 ns rx = Some x"
    and xy: "succ r0 ns (NextRef x) = Some y" and y: "y \<notin> pend"
  shows "chain (c(rx \<mapsto> y)) (pv(y \<mapsto> ref_ptr rx)) pend r0 (remove1 x ns) nx"
proof (rule chainI)
  note lin = chain_linear [OF ch]
  note rem = succ_remove [OF lin rx]
  have inj: "succ r0 ns r = Some y \<Longrightarrow> r = NextRef x" for r
    using lin xy by (auto simp: linear_def intro: succ_inj)
  show "linear r0 (remove1 x ns)" using lin by (rule linear_remove1)
  show "z \<in> set (remove1 x ns) \<Longrightarrow> node_addr z" for z
    using chain_node_addr [OF ch] by (meson in_mono set_remove1_subset)
  show "(c(rx \<mapsto> y)) r
        = Some (case succ r0 (remove1 x ns) r of None \<Rightarrow> nx | Some z \<Rightarrow> if z \<in> pend then 0 else z)"
    if "r \<in> refs r0 (remove1 x ns)" for r
    using that chain_cell [OF ch, of r] xy y
    by (cases "r = rx") (simp_all add: rem chain_remove_refs [OF lin rx])
  show "succ r0 (remove1 x ns) r = Some z \<Longrightarrow> (pv(y \<mapsto> ref_ptr rx)) z = Some (ref_ptr r)" for r z
  proof (cases "r = rx")
    case False
    assume "succ r0 (remove1 x ns) r = Some z"
    with False have z: "succ r0 ns r = Some z" "r \<noteq> NextRef x" by (auto simp: rem split: if_splits)
    then have "z \<noteq> y" using inj by blast
    with chain_prev [OF ch z(1)] show ?thesis by simp
  qed (simp add: rem xy)
qed

lemma chain_remove_last:
  assumes ch: "chain c pv pend r0 ns nx" and rx: "succ r0 ns rx = Some x"
    and xy: "succ r0 ns (NextRef x) = None"
  shows "chain (c(rx \<mapsto> nx)) pv pend r0 (remove1 x ns) nx"
proof (rule chainI)
  note lin = chain_linear [OF ch]
  note rem = succ_remove [OF lin rx]
  show "linear r0 (remove1 x ns)" using lin by (rule linear_remove1)
  show "z \<in> set (remove1 x ns) \<Longrightarrow> node_addr z" for z
    using chain_node_addr [OF ch] by (meson in_mono set_remove1_subset)
  show "(c(rx \<mapsto> nx)) r
        = Some (case succ r0 (remove1 x ns) r of None \<Rightarrow> nx | Some z \<Rightarrow> if z \<in> pend then 0 else z)"
    if "r \<in> refs r0 (remove1 x ns)" for r
    using that chain_cell [OF ch, of r] xy
    by (cases "r = rx") (simp_all add: rem chain_remove_refs [OF lin rx])
  show "succ r0 (remove1 x ns) r = Some z \<Longrightarrow> pv z = Some (ref_ptr r)" for r z
    using chain_prev [OF ch, of r z] xy by (auto simp: rem split: if_splits)
qed

lemma chain_cong:
  assumes ch: "chain c pv pend r0 ns nx" and c: "\<And>r. r \<in> refs r0 ns \<Longrightarrow> c' r = c r"
    and p: "\<And>x. x \<in> set ns \<Longrightarrow> pv' x = pv x"
  shows "chain c' pv' pend r0 ns nx"
proof (rule chainI)
  show "succ r0 ns r = Some y \<Longrightarrow> pv' y = Some (ref_ptr r)" for r y
    using chain_prev [OF ch] succ_SomeD [of r0 ns r y] p by simp
qed (use ch c in \<open>auto simp: chain_def\<close>)

end
