(* ===== verification/Queue.thy ===== *)
theory Queue
  imports Node_Link
begin

text \<open>
  \<^verbatim>\<open>src/queue.rs\<close>: the queue's own operations and the operations of
  \<^verbatim>\<open>LockedQueue\<close> and its guards, each translated as one function from memory to an
  outcome. The first argument \<open>S\<close> is the \<^verbatim>\<open>QueueState\<close> implementation the
  queue is instantiated with.

  What other threads do is explicit where the code leaves them room. A compare-and-swap loop takes
  a list \<open>env\<close> of interference: before the \<open>i\<close>-th exchange the memory is changed
  by the \<open>i\<close>-th function, and the exchange fails spuriously if the flag next to it is set
  (the loops use \<^verbatim>\<open>compare_exchange_weak\<close>); after the list is used up nobody
  interferes. Acquiring the mutex takes a function \<open>gap\<close>, what others did before it was
  granted. A link that its enqueuer has still to write is \<open>WouldBlock\<close>.
\<close>

section \<open>Construction and the embedded state\<close>

type_synonym 'd env = "(('d queue \<Rightarrow> 'd queue) \<times> bool) list"

definition new_impl :: "usize \<Rightarrow> 'd queue" where
  "new_impl tail = \<lparr>q_tail = tail, q_head = 0, q_locked = False,
     q_links = Map.empty, q_data = Map.empty\<rparr>"

definition queue_new :: "'d queue" where
  "queue_new = new_impl 0"

definition with_state :: "'s state_ops \<Rightarrow> 's \<Rightarrow> 'd queue res" where
  "with_state S st = bind_res (enum_to_tail S (State st)) (\<lambda>tail. Inr (new_impl tail))"

definition with_state_const :: "usize \<Rightarrow> 'd queue res" where
  "with_state_const st = bind_res (state_to_ptr st) (\<lambda>tail. Inr (new_impl tail))"

definition tail_node :: "'s state_ops \<Rightarrow> 'd queue \<Rightarrow> addr option" where
  "tail_node S q = sop_tail (tail_to_enum S (q_tail q))"

definition state_of :: "'s state_ops \<Rightarrow> 'd queue \<Rightarrow> 's option" where
  "state_of S q = sop_state (tail_to_enum S (q_tail q))"

definition is_empty :: "'s state_ops \<Rightarrow> 'd queue \<Rightarrow> bool" where
  "is_empty S q \<longleftrightarrow> state_of S q \<noteq> None"

text \<open>Results of the state operations: \<open>Inr\<close> is \<^verbatim>\<open>Ok\<close>, \<open>Inl\<close> is \<^verbatim>\<open>Err\<close>.\<close>

definition compare_exchange_state ::
  "'s state_ops \<Rightarrow> 's \<Rightarrow> 's \<Rightarrow> 'd queue \<Rightarrow> (('s option + 's) \<times> 'd queue) res" where
  "compare_exchange_state S current new q =
     bind_res (enum_to_tail S (State current)) (\<lambda>cur.
     bind_res (enum_to_tail S (State new)) (\<lambda>new'.
       if q_tail q = cur then Inr (Inr current, q\<lparr>q_tail := new'\<rparr>)
       else Inr (Inl (state_of S q), q)))"

fun fetch_update_state ::
  "'s state_ops \<Rightarrow> ('s \<Rightarrow> 's option res) \<Rightarrow> 'd env \<Rightarrow> 'd queue \<Rightarrow> (('s option + 's) \<times> 'd queue) res" where
  "fetch_update_state S f [] q =
     (case tail_to_enum S (q_tail q) of Ptr _ \<Rightarrow> Inr (Inl None, q)
      | State st \<Rightarrow> bind_res (f st) (\<lambda>r.
          case r of None \<Rightarrow> Inr (Inl (Some st), q)
          | Some st' \<Rightarrow> bind_res (enum_to_tail S (State st')) (\<lambda>new_tail.
              Inr (Inr st, q\<lparr>q_tail := new_tail\<rparr>))))"
| "fetch_update_state S f ((others, spurious) # env) q =
     (let tail = q_tail q in
      case tail_to_enum S tail of Ptr _ \<Rightarrow> Inr (Inl None, q)
      | State st \<Rightarrow> bind_res (f st) (\<lambda>r.
          case r of None \<Rightarrow> Inr (Inl (Some st), q)
          | Some st' \<Rightarrow> bind_res (enum_to_tail S (State st')) (\<lambda>new_tail.
              let q = others q in
              if \<not> spurious \<and> q_tail q = tail then Inr (Inr st, q\<lparr>q_tail := new_tail\<rparr>)
              else fetch_update_state S f env q)))"

section \<open>Locking\<close>

definition lock :: "('d queue \<Rightarrow> 'd queue) \<Rightarrow> 'd queue \<Rightarrow> 'd queue res" where
  "lock gap q = (let q = gap q in if q_locked q then Inl WouldBlock else Inr (q\<lparr>q_locked := True\<rparr>))"

definition unlock :: "'d queue \<Rightarrow> 'd queue" where
  "unlock q = q\<lparr>q_locked := False\<rparr>"

definition is_empty_or_lock ::
  "'s state_ops \<Rightarrow> ('d queue \<Rightarrow> 'd queue) \<Rightarrow> 'd queue \<Rightarrow> (bool \<times> 'd queue) res" where
  "is_empty_or_lock S gap q =
     (if is_empty S q then Inr (False, q)
      else bind_res (lock gap q) (\<lambda>q.
        if is_empty S q then Inr (False, unlock q) else Inr (True, q)))"

text \<open>
  The closures that run with the lock held take the guard, and captured variables of type
  \<open>'e\<close> that they may change.
\<close>

definition is_empty_locked ::
  "'s state_ops \<Rightarrow> ('d queue \<Rightarrow> 'd queue) \<Rightarrow> ('e \<Rightarrow> 'd queue \<Rightarrow> ('e \<times> 'd queue) res)
   \<Rightarrow> 'e \<Rightarrow> 'd queue \<Rightarrow> ('e \<times> 'd queue) res" where
  "is_empty_locked S gap locked_fallback e q =
     bind_res (lock gap q) (\<lambda>q. if is_empty S q then Inr (e, unlock q) else locked_fallback e q)"

definition is_empty_or_locked ::
  "'s state_ops \<Rightarrow> ('d queue \<Rightarrow> 'd queue) \<Rightarrow> ('e \<Rightarrow> 'd queue \<Rightarrow> ('e \<times> 'd queue) res)
   \<Rightarrow> 'e \<Rightarrow> 'd queue \<Rightarrow> ('e \<times> 'd queue) res" where
  "is_empty_or_locked S gap locked_fallback e q =
     (if is_empty S q then Inr (e, q) else is_empty_locked S gap locked_fallback e q)"

definition fetch_update_state_or_lock ::
  "'s state_ops \<Rightarrow> ('s \<Rightarrow> 's res) \<Rightarrow> ('d queue \<Rightarrow> 'd queue) \<Rightarrow> 'd queue \<Rightarrow> (bool \<times> 'd queue) res" where
  "fetch_update_state_or_lock S f gap q =
     bind_res (fetch_update_state S (\<lambda>s. bind_res (f s) (\<lambda>t. Inr (Some t))) [] q) (\<lambda>(r, q).
       case r of Inr _ \<Rightarrow> Inr (False, q)
       | Inl _ \<Rightarrow> bind_res (lock gap q) (\<lambda>q.
           bind_res (fetch_update_state S (\<lambda>s. bind_res (f s) (\<lambda>t. Inr (Some t))) [] q) (\<lambda>(r, q).
             case r of Inr _ \<Rightarrow> Inr (False, unlock q) | Inl _ \<Rightarrow> Inr (True, q))))"

definition fetch_update_state_locked ::
  "'s state_ops \<Rightarrow> ('s \<Rightarrow> 's res) \<Rightarrow> ('d queue \<Rightarrow> 'd queue) \<Rightarrow> ('e \<Rightarrow> 'd queue \<Rightarrow> ('e \<times> 'd queue) res)
   \<Rightarrow> 'e \<Rightarrow> 'd queue \<Rightarrow> ('e \<times> 'd queue) res" where
  "fetch_update_state_locked S f gap locked_fallback e q =
     bind_res (lock gap q) (\<lambda>q.
       bind_res (fetch_update_state S (\<lambda>s. bind_res (f s) (\<lambda>t. Inr (Some t))) [] q) (\<lambda>(r, q).
         case r of Inl _ \<Rightarrow> locked_fallback e q | Inr _ \<Rightarrow> Inr (e, unlock q)))"

definition fetch_update_state_or_locked ::
  "'s state_ops \<Rightarrow> ('s \<Rightarrow> 's res) \<Rightarrow> ('d queue \<Rightarrow> 'd queue) \<Rightarrow> ('e \<Rightarrow> 'd queue \<Rightarrow> ('e \<times> 'd queue) res)
   \<Rightarrow> 'e \<Rightarrow> 'd queue \<Rightarrow> ('e \<times> 'd queue) res" where
  "fetch_update_state_or_locked S f gap locked_fallback e q =
     bind_res (fetch_update_state S (\<lambda>s. bind_res (f s) (\<lambda>t. Inr (Some t))) [] q) (\<lambda>(r, q).
       case r of Inl _ \<Rightarrow> fetch_update_state_locked S f gap locked_fallback e q | Inr _ \<Rightarrow> Inr (e, q))"

section \<open>Insertion\<close>

text \<open>
  Phase 1 of \<^verbatim>\<open>enqueue\<close>, the loop that makes the node the tail; it returns the
  cell in front of the node, or \<open>None\<close> where \<open>check_tail\<close> refuses the tail it saw.
\<close>

definition prev_ptr_of :: "addr option \<Rightarrow> addr" where
  "prev_ptr_of prev = (case prev of None \<Rightarrow> HEAD_MARKER | Some p \<Rightarrow> p)"

definition prev_next_of :: "addr option \<Rightarrow> next_ref" where
  "prev_next_of prev = (case prev of None \<Rightarrow> HeadRef | Some p \<Rightarrow> NextRef p)"

fun enqueue_tail ::
  "'s state_ops \<Rightarrow> addr \<Rightarrow> (usize \<Rightarrow> bool) \<Rightarrow> 'd env \<Rightarrow> 'd queue \<Rightarrow> (next_ref option \<times> 'd queue) res" where
  "enqueue_tail S node check_tail [] q =
     (if \<not> check_tail (q_tail q) then bind_res (store_prev node 0 q) (\<lambda>q. Inr (None, q))
      else let prev = tail_node S q in
        bind_res (store_prev node (prev_ptr_of prev) q) (\<lambda>q.
        bind_res (enum_to_tail S (Ptr node)) (\<lambda>new_tail.
          Inr (Some (prev_next_of prev), q\<lparr>q_tail := new_tail\<rparr>))))"
| "enqueue_tail S node check_tail ((others, spurious) # env) q =
     (let tail = q_tail q in
      if \<not> check_tail tail then bind_res (store_prev node 0 q) (\<lambda>q. Inr (None, q))
      else let prev = tail_node S q in
        bind_res (store_prev node (prev_ptr_of prev) q) (\<lambda>q.
        bind_res (enum_to_tail S (Ptr node)) (\<lambda>new_tail.
          let q = others q in
          if \<not> spurious \<and> q_tail q = tail
          then Inr (Some (prev_next_of prev), q\<lparr>q_tail := new_tail\<rparr>)
          else enqueue_tail S node check_tail env q)))"

definition enqueue ::
  "'s state_ops \<Rightarrow> addr \<Rightarrow> (usize \<Rightarrow> bool) \<Rightarrow> 'd env \<Rightarrow> 'd queue \<Rightarrow> (bool \<times> 'd queue) res" where
  "enqueue S node check_tail env q =
     bind_res (enqueue_tail S node check_tail env q) (\<lambda>(r, q).
       case r of None \<Rightarrow> Inr (False, q)
       | Some prev_next \<Rightarrow> bind_res (store_next prev_next node q) (\<lambda>q. Inr (True, q)))"

section \<open>Removal under the lock\<close>

definition get_next :: "next_ref \<Rightarrow> 'd queue \<Rightarrow> addr res" where
  "get_next r q = bind_res (load_next r q) (\<lambda>p. if p = 0 then Inl WouldBlock else Inr p)"

definition locked_dequeue :: "'s state_ops \<Rightarrow> 'd queue \<Rightarrow> addr option res" where
  "locked_dequeue S q =
     (case tail_node S q of None \<Rightarrow> Inr None
      | Some _ \<Rightarrow> bind_res (get_next HeadRef q) (\<lambda>node. Inr (Some node)))"

definition locked_pop :: "'s state_ops \<Rightarrow> 'd queue \<Rightarrow> addr option" where
  "locked_pop S q = tail_node S q"

text \<open>
  \<^verbatim>\<open>remove_with_prev\<close>. The middle step yields the flag, the successor (null if there
  is none) and the memory; the debug assertion on \<open>wait_enqueued\<close> is the panic it is in a
  debug build.
\<close>

definition remove_with_prev ::
  "'s state_ops \<Rightarrow> addr \<Rightarrow> usize \<Rightarrow> bool \<Rightarrow> addr \<Rightarrow> 'd queue \<Rightarrow> (bool \<times> 'd queue) res" where
  "remove_with_prev S node new_tail wait_enqueued prev q =
     (let prev_next = ptr_ref prev in
      bind_res (if wait_enqueued
                then bind_res (get_next prev_next q) (\<lambda>p.
                       if p = node then Inr () else Inl (Panic ''assertion failed''))
                else Inr ()) (\<lambda>_.
      bind_res (load_next (NextRef node) q) (\<lambda>next.
      bind_res (if next = 0
                then bind_res (store_next prev_next 0 q) (\<lambda>q.
                     bind_res (if prev = HEAD_MARKER then Inr new_tail else enum_to_tail S (Ptr prev)) (\<lambda>new_tail.
                     bind_res (enum_to_tail S (Ptr node)) (\<lambda>node_ptr.
                       if q_tail q = node_ptr then Inr (True, 0, q\<lparr>q_tail := new_tail\<rparr>)
                       else bind_res (get_next (NextRef node) q) (\<lambda>next. Inr (False, next, q)))))
                else Inr (False, next, q)) (\<lambda>(is_empty, next, q).
      bind_res (if next \<noteq> 0
                then bind_res (store_prev next prev q) (store_next prev_next next)
                else Inr q) (\<lambda>q.
      bind_res (store_prev node (into_ptr Dequeued) q) (\<lambda>q. Inr (is_empty, q)))))))"

definition remove ::
  "'s state_ops \<Rightarrow> addr \<Rightarrow> usize \<Rightarrow> bool \<Rightarrow> 'd queue \<Rightarrow> (bool \<times> 'd queue) res" where
  "remove S node new_tail wait_enqueued q =
     bind_res (load_prev node q) (\<lambda>prev. remove_with_prev S node new_tail wait_enqueued prev q)"

section \<open>The guards of dequeue and pop\<close>

definition guard_requeue :: "'d queue \<Rightarrow> 'd queue" where
  "guard_requeue q = q"

definition dequeue_try_set_queue_state ::
  "'s state_ops \<Rightarrow> addr \<Rightarrow> 's \<Rightarrow> 'd queue \<Rightarrow> (bool \<times> 'd queue) res" where
  "dequeue_try_set_queue_state S node st q =
     bind_res (enum_to_tail S (State st)) (\<lambda>new_tail. remove_with_prev S node new_tail False HEAD_MARKER q)"

definition dequeue_drop :: "'s state_ops \<Rightarrow> addr \<Rightarrow> 'd queue \<Rightarrow> 'd queue res" where
  "dequeue_drop S node q =
     bind_res (remove_with_prev S node 0 False HEAD_MARKER q) (\<lambda>(_, q). Inr q)"

definition pop_requeue :: "'d queue \<Rightarrow> 'd queue" where
  "pop_requeue q = q"

definition pop_try_set_queue_state ::
  "'s state_ops \<Rightarrow> addr \<Rightarrow> 's \<Rightarrow> 'd queue \<Rightarrow> (bool \<times> 'd queue) res" where
  "pop_try_set_queue_state S node st q =
     bind_res (enum_to_tail S (State st)) (\<lambda>new_tail. remove S node new_tail True q)"

definition pop_drop :: "'s state_ops \<Rightarrow> addr \<Rightarrow> 'd queue \<Rightarrow> 'd queue res" where
  "pop_drop S node q = bind_res (remove S node 0 True q) (\<lambda>(_, q). Inr q)"

section \<open>Invariant\<close>

text \<open>
  \<open>queue_inv S q pend ns\<close>: the memory holds the nodes \<open>ns\<close> in order, of which those
  in \<open>pend\<close> are half inserted, and the tail word names the last of them or holds a state.
  \<open>nodes_ok q X Q\<close>: apart from the addresses in \<open>X\<close>, the live nodes in the state
  \<^verbatim>\<open>Queued\<close> are those of \<open>Q\<close>, and an unqueued node has a null
  \<open>next\<close>.
\<close>

definition queue_inv :: "'s state_ops \<Rightarrow> 'd queue \<Rightarrow> addr set \<Rightarrow> addr list \<Rightarrow> bool" where
  "queue_inv S q pend ns \<longleftrightarrow> chain (cell q) (prev_of q) pend HeadRef ns 0
     \<and> tail_node S q = (if ns = [] then None else Some (last ns))"

definition nodes_ok :: "'d queue \<Rightarrow> addr set \<Rightarrow> addr set \<Rightarrow> bool" where
  "nodes_ok q X Q \<longleftrightarrow> (\<forall>x v. x \<notin> X \<longrightarrow> prev_of q x = Some v \<longrightarrow>
     node_addr x \<and> (x \<in> Q \<longleftrightarrow> v \<noteq> 0 \<and> v \<noteq> 1) \<and> (v = 0 \<longrightarrow> cell q (NextRef x) = Some 0))"

definition queue_wf :: "'s state_ops \<Rightarrow> 'd queue \<Rightarrow> addr list \<Rightarrow> bool" where
  "queue_wf S q ns \<longleftrightarrow> queue_inv S q {} ns \<and> nodes_ok q {} (set ns)"

lemma queue_inv_chain: "queue_inv S q pend ns \<Longrightarrow> chain (cell q) (prev_of q) pend HeadRef ns 0"
  and queue_inv_tail: "queue_inv S q pend ns \<Longrightarrow> tail_node S q = (if ns = [] then None else Some (last ns))"
  by (simp_all add: queue_inv_def)

lemma queue_inv_distinct: "queue_inv S q pend ns \<Longrightarrow> distinct ns"
  using chain_linear [OF queue_inv_chain] by fastforce

lemma queue_inv_addr: "queue_inv S q pend ns \<Longrightarrow> x \<in> set ns \<Longrightarrow> node_addr x"
  using chain_node_addr [OF queue_inv_chain] .

lemma is_empty_iff: "queue_inv S q pend ns \<Longrightarrow> is_empty S q \<longleftrightarrow> ns = []"
  using queue_inv_tail [of S q pend ns]
  by (cases "tail_to_enum S (q_tail q)") (auto simp: is_empty_def state_of_def tail_node_def split: if_splits)

lemma queue_inv_locked [simp]: "queue_inv S (q\<lparr>q_locked := b\<rparr>) pend ns = queue_inv S q pend ns"
  by (simp add: queue_inv_def tail_node_def)

lemma nodes_ok_cong:
  "nodes_ok q X Q \<Longrightarrow> prev_of q' = prev_of q \<Longrightarrow> (\<And>x. cell q' (NextRef x) = cell q (NextRef x))
   \<Longrightarrow> nodes_ok q' X Q"
  by (simp add: nodes_ok_def)

lemma nodes_ok_locked [simp]:
  "nodes_ok (q\<lparr>q_locked := b\<rparr>) X Q = nodes_ok q X Q" "nodes_ok (q\<lparr>q_data := d\<rparr>) X Q = nodes_ok q X Q"
  by (simp_all add: nodes_ok_def)

text \<open>What an operation on the chain \<open>ns\<close> may change: links of \<open>ns\<close> only.\<close>

definition touches :: "addr set \<Rightarrow> 'd queue \<Rightarrow> 'd queue \<Rightarrow> bool" where
  "touches A q q' \<longleftrightarrow> frame q q' \<and> (\<forall>z. z \<notin> A \<longrightarrow>
     prev_of q' z = prev_of q z \<and> cell q' (NextRef z) = cell q (NextRef z))"

lemma touchesI:
  assumes "frame q q'" and "cell q' = (cell q)(r \<mapsto> v)" and "r \<in> refs HeadRef ns"
    and "\<And>z. z \<notin> set ns \<Longrightarrow> prev_of q' z = prev_of q z"
  shows "touches (set ns) q q'"
  using assms by (auto simp: touches_def refs_def)

lemma queue_inv_at:
  assumes inv: "queue_inv S q pend ns" and rx: "succ HeadRef ns rx = Some x"
  shows "x \<in> set ns" and "rx \<in> refs HeadRef ns" and "node_addr x" and "ptr_ref (ref_ptr rx) = rx"
    and "rx = HeadRef \<or> (\<exists>p. rx = NextRef p \<and> node_addr p)"
    and "prev_of q x = Some (ref_ptr rx)" and "x \<notin> pend \<Longrightarrow> cell q rx = Some x"
    and "cell q (NextRef x) = Some (case succ HeadRef ns (NextRef x) of
           None \<Rightarrow> 0 | Some y \<Rightarrow> if y \<in> pend then 0 else y)"
    and "x \<notin> set (remove1 x ns)"
proof -
  note ch = queue_inv_chain [OF inv]
  show mem: "x \<in> set ns" "rx \<in> refs HeadRef ns" using succ_SomeD [OF rx] by auto
  then show "node_addr x" "ptr_ref (ref_ptr rx) = rx" "rx = HeadRef \<or> (\<exists>p. rx = NextRef p \<and> node_addr p)"
    using queue_inv_addr [OF inv] by (auto simp: refs_def)
  show "prev_of q x = Some (ref_ptr rx)" using chain_prev [OF ch rx] .
  show "x \<notin> pend \<Longrightarrow> cell q rx = Some x" using chain_cell [OF ch mem(2)] rx by simp
  show "cell q (NextRef x) = Some (case succ HeadRef ns (NextRef x) of
           None \<Rightarrow> 0 | Some y \<Rightarrow> if y \<in> pend then 0 else y)"
    using mem by (intro chain_cell [OF ch]) (simp add: refs_def)
  show "x \<notin> set (remove1 x ns)" using queue_inv_distinct [OF inv] by simp
qed

text \<open>The last store of a removal: the node, out of the chain by then, becomes dequeued.\<close>

lemma mark_dequeued:
  assumes "prev_of q x = Some u" and ch: "chain (cell q) (prev_of q) pend HeadRef ns 0"
    and tl: "tail_node S q = (if ns = [] then None else Some (last ns))" and x: "x \<notin> set ns"
  obtains q' where "store_prev x (into_ptr Dequeued) q = Inr q'" "queue_inv S q' pend ns"
    "cell q' = cell q" "prev_of q' = (prev_of q)(x \<mapsto> 1)" "q_tail q' = q_tail q" "frame q q'"
proof -
  obtain q' where q': "store_prev x (into_ptr Dequeued) q = Inr q'" "cell q' = cell q"
    "prev_of q' = (prev_of q)(x \<mapsto> 1)" "q_tail q' = q_tail q" "frame q q'"
    using store_prev_cell [OF assms(1), of "into_ptr Dequeued"] by (auto simp: into_ptr_def)
  have "chain (cell q') (prev_of q') pend HeadRef ns 0"
    by (rule chain_cong [OF ch]) (use q' x in auto)
  with q' tl show ?thesis by (intro that) (auto simp: queue_inv_def tail_node_def)
qed

context queue_state
begin

lemma encode_prev:
  assumes "r = HeadRef \<or> (\<exists>p. r = NextRef p \<and> node_addr p)" and "tail_to_enum S new_tail = State st"
  obtains nt where
    "(if ref_ptr r = HEAD_MARKER then Inr new_tail else enum_to_tail S (Ptr (ref_ptr r))) = Inr nt"
    "tail_to_enum S nt = (case r of HeadRef \<Rightarrow> State st | NextRef p \<Rightarrow> Ptr p)"
proof -
  from assms(1) consider "r = HeadRef" | p where "r = NextRef p" "node_addr p" by blast
  then show ?thesis
  proof cases
    case 1
    then show ?thesis using that [of new_tail] assms(2) by simp
  next
    case (2 p)
    then obtain v where "enum_to_tail S (Ptr p) = Inr v" "tail_to_enum S v = Ptr p"
      using ptr_encodable by blast
    then show ?thesis using that [of v] 2 by simp
  qed
qed

lemma remove_last_ok:
  assumes inv: "queue_inv S q pend ns" and rx: "succ HeadRef ns rx = Some x"
    and last: "succ HeadRef ns (NextRef x) = None" and x: "x \<notin> pend"
    and new: "tail_to_enum S new_tail = State st"
  obtains q' where "remove_with_prev S x new_tail w (ref_ptr rx) q = Inr (True, q')"
    "queue_inv S q' pend (remove1 x ns)" "prev_of q' x = Some 1" "touches (set ns) q q'"
    "remove1 x ns = [] \<longrightarrow> tail_to_enum S (q_tail q') = State st"
proof -
  note ch = queue_inv_chain [OF inv] and at = queue_inv_at [OF inv rx]
  have lin: "linear HeadRef ns" using queue_inv_distinct [OF inv] by simp
  have "lastref HeadRef ns = NextRef x"
    using last at(1) lin by (intro lastref_unique) (auto simp: refs_def)
  then have "tail_node S q = Some x"
    using at(1) queue_inv_tail [OF inv] by (auto simp: lastref_eq split: if_splits)
  then have enc: "enum_to_tail S (Ptr x) = Inr (q_tail q)"
    by (intro encode_of_decode) (simp add: tail_node_def)
  have lr: "lastref HeadRef (remove1 x ns) = rx" using lastref_remove1 [OF lin rx] last by simp
  obtain q1 where q1: "store_next rx 0 q = Inr q1" "cell q1 = (cell q)(rx \<mapsto> 0)"
    "prev_of q1 = prev_of q" "q_tail q1 = q_tail q" "frame q q1"
    using at(7) [OF x] by (rule store_next_cell)
  obtain nt where nt:
    "(if ref_ptr rx = HEAD_MARKER then Inr new_tail else enum_to_tail S (Ptr (ref_ptr rx))) = Inr nt"
    "tail_to_enum S nt = (case rx of HeadRef \<Rightarrow> State st | NextRef p \<Rightarrow> Ptr p)"
    using at(5) new by (rule encode_prev)
  define q2 where "q2 = q1\<lparr>q_tail := nt\<rparr>"
  have "prev_of q2 x = Some (ref_ptr rx)" using at(6) q1 by (simp add: q2_def)
  moreover have "chain (cell q2) (prev_of q2) pend HeadRef (remove1 x ns) 0"
    using chain_remove_last [OF ch rx last] q1 by (simp add: q2_def)
  moreover have "tail_node S q2 = (if remove1 x ns = [] then None else Some (List.last (remove1 x ns)))"
    using lr nt by (auto simp: tail_node_def q2_def lastref_eq split: if_splits)
  ultimately obtain q3 where q3: "store_prev x (into_ptr Dequeued) q2 = Inr q3"
    "queue_inv S q3 pend (remove1 x ns)" "cell q3 = cell q2" "prev_of q3 = (prev_of q2)(x \<mapsto> 1)"
    "q_tail q3 = q_tail q2" "frame q2 q3"
    using at(9) by (rule mark_dequeued)
  have "load_next rx q = Inr x" "load_next (NextRef x) q = Inr 0"
    using at(7) [OF x] at(8) last by (auto intro: load_next_cell)
  then have "remove_with_prev S x new_tail w (ref_ptr rx) q = Inr (True, q3)"
    using q1(1,4) nt(1) enc q3(1) at(3)
    by (simp add: remove_with_prev_def Let_def at(4) get_next_def q2_def)
  moreover have "touches (set ns) q q3"
  proof (rule touchesI [OF _ _ at(2)])
    show "frame q q3" using q1(5) q3(6) by (auto simp: q2_def frame_def)
    show "cell q3 = (cell q)(rx \<mapsto> 0)" using q1(2) q3(3) by (simp add: q2_def)
    show "prev_of q3 z = prev_of q z" if "z \<notin> set ns" for z
      using that at(1) q1(3) q3(4) by (auto simp: q2_def)
  qed
  moreover have "remove1 x ns = [] \<longrightarrow> tail_to_enum S (q_tail q3) = State st"
    using lr nt(2) q3(5) by (auto simp: q2_def)
  ultimately show ?thesis using q3(2,4) by (intro that [of q3]) simp_all
qed

lemma remove_mid_ok:
  assumes inv: "queue_inv S q pend ns" and rx: "succ HeadRef ns rx = Some x"
    and xy: "succ HeadRef ns (NextRef x) = Some y" and p: "x \<notin> pend" "y \<notin> pend"
  obtains q' where "remove_with_prev S x new_tail w (ref_ptr rx) q = Inr (False, q')"
    "queue_inv S q' pend (remove1 x ns)" "prev_of q' x = Some 1" "touches (set ns) q q'"
    "remove1 x ns \<noteq> []"
proof -
  note ch = queue_inv_chain [OF inv] and at = queue_inv_at [OF inv rx] and aty = queue_inv_at [OF inv xy]
  have lin: "linear HeadRef ns" using queue_inv_distinct [OF inv] by simp
  have ne: "x \<noteq> y" using succ_irrefl [OF lin, of x] xy by auto
  then have nonempty: "remove1 x ns \<noteq> []"
    using aty(1) by (metis in_set_remove1 list.set(1) empty_iff)
  obtain q1 where q1: "store_prev y (ref_ptr rx) q = Inr q1" "cell q1 = cell q"
    "prev_of q1 = (prev_of q)(y \<mapsto> ref_ptr rx)" "q_tail q1 = q_tail q" "frame q q1"
    using aty(6) by (rule store_prev_cell)
  have "cell q1 rx = Some x" using q1 at(7) [OF p(1)] by simp
  then obtain q2 where q2: "store_next rx y q1 = Inr q2" "cell q2 = (cell q1)(rx \<mapsto> y)"
    "prev_of q2 = prev_of q1" "q_tail q2 = q_tail q1" "frame q1 q2"
    by (rule store_next_cell)
  have "lastref HeadRef (remove1 x ns) = lastref HeadRef ns"
    using lastref_remove1 [OF lin rx] xy by simp
  then have "last (remove1 x ns) = last ns"
    using nonempty at(1) by (auto simp: lastref_eq split: if_splits)
  then have "tail_node S q2 = (if remove1 x ns = [] then None else Some (last (remove1 x ns)))"
    using nonempty at(1) queue_inv_tail [OF inv] q1(4) q2(4) by (auto simp: tail_node_def split: if_splits)
  moreover have p2: "prev_of q2 x = Some (ref_ptr rx)" using at(6) q1 q2 ne by simp
  moreover have "chain (cell q2) (prev_of q2) pend HeadRef (remove1 x ns) 0"
    using chain_remove [OF ch rx xy p(2)] q1 q2 by simp
  ultimately obtain q3 where q3: "store_prev x (into_ptr Dequeued) q2 = Inr q3"
    "queue_inv S q3 pend (remove1 x ns)" "cell q3 = cell q2" "prev_of q3 = (prev_of q2)(x \<mapsto> 1)"
    "q_tail q3 = q_tail q2" "frame q2 q3"
    using mark_dequeued [OF p2 _ _ at(9)] by blast
  have "load_next rx q = Inr x" "load_next (NextRef x) q = Inr y"
    using at(7) [OF p(1)] at(8) xy p(2) by (auto intro: load_next_cell)
  then have "remove_with_prev S x new_tail w (ref_ptr rx) q = Inr (False, q3)"
    using q1(1) q2(1) q3(1) at(3) aty(3)
    by (simp add: remove_with_prev_def Let_def at(4) get_next_def)
  moreover have "touches (set ns) q q3"
  proof (rule touchesI [OF _ _ at(2)])
    show "frame q q3" using q1(5) q2(5) q3(6) by (blast intro: frame_trans)
    show "cell q3 = (cell q)(rx \<mapsto> y)" using q1(2) q2(2) q3(3) by simp
    show "prev_of q3 z = prev_of q z" if "z \<notin> set ns" for z
      using that at(1) aty(1) q1(3) q2(3) q3(4) by auto
  qed
  ultimately show ?thesis using q3(2,4) nonempty by (intro that [of q3]) simp_all
qed

text \<open>
  Both cases together, for the general removal: it returns whether the removed node was the last
  one, the node is dequeued, the others keep their order, and the queue state is installed if
  nothing is left.
\<close>

lemma remove_ok:
  assumes inv: "queue_inv S q pend ns" and rx: "succ HeadRef ns rx = Some x" and x: "x \<notin> pend"
    and nxt: "\<And>y. succ HeadRef ns (NextRef x) = Some y \<Longrightarrow> y \<notin> pend"
    and new: "tail_to_enum S new_tail = State st"
  obtains q' where "remove_with_prev S x new_tail w (ref_ptr rx) q = Inr (x = last ns, q')"
    "remove S x new_tail w q = Inr (x = last ns, q')"
    "queue_inv S q' pend (remove1 x ns)" "prev_of q' x = Some 1" "touches (set ns) q q'"
    "remove1 x ns = [] \<longrightarrow> tail_to_enum S (q_tail q') = State st"
proof -
  note at = queue_inv_at [OF inv rx]
  have lin: "linear HeadRef ns" using queue_inv_distinct [OF inv] by simp
  have last_iff: "succ HeadRef ns (NextRef x) = None \<longleftrightarrow> x = last ns"
    using succ_None_iff [OF lin, of "NextRef x"] at(1) by (auto simp: refs_def lastref_eq)
  have rem: "remove S x new_tail w q = remove_with_prev S x new_tail w (ref_ptr rx) q"
    using load_prev_cell [OF at(6)] by (simp add: remove_def)
  show ?thesis
  proof (cases "succ HeadRef ns (NextRef x)")
    case None
    obtain q' where "remove_with_prev S x new_tail w (ref_ptr rx) q = Inr (True, q')"
      "queue_inv S q' pend (remove1 x ns)" "prev_of q' x = Some 1" "touches (set ns) q q'"
      "remove1 x ns = [] \<longrightarrow> tail_to_enum S (q_tail q') = State st"
      by (rule remove_last_ok [OF inv rx None x new, where w = w])
    with None last_iff rem show ?thesis by (intro that) simp_all
  next
    case (Some y)
    obtain q' where "remove_with_prev S x new_tail w (ref_ptr rx) q = Inr (False, q')"
      "queue_inv S q' pend (remove1 x ns)" "prev_of q' x = Some 1" "touches (set ns) q q'"
      "remove1 x ns \<noteq> []"
      by (rule remove_mid_ok [OF inv rx Some x nxt [OF Some], where w = w and new_tail = new_tail])
    with Some last_iff rem show ?thesis by (intro that) simp_all
  qed
qed

text \<open>
  Insertion. \<open>enqueueable S q y\<close>: the memory is that of some queue and \<open>y\<close> is a
  live node outside of it with a null \<open>next\<close>. Interference that keeps this and leaves
  the node itself alone is all the loop has to tolerate.
\<close>

lemma enqueue_phase1:
  assumes inv: "queue_inv S q pend ns" and y: "node_addr y" "y \<notin> set ns" "cell q (NextRef y) = Some 0"
    and py: "prev_of q y = Some (ref_ptr (lastref HeadRef ns))"
    and nt: "enum_to_tail S (Ptr y) = Inr nt"
  shows "queue_inv S (q\<lparr>q_tail := nt\<rparr>) (insert y pend) (ns @ [y])"
proof -
  have "linear HeadRef (ns @ [y])" using queue_inv_distinct [OF inv] y by simp
  then have "chain (cell q) (prev_of q) (insert y pend) HeadRef (ns @ [y]) 0"
    using chain_snoc [OF queue_inv_chain [OF inv]] y py by blast
  with encode_ptr [OF nt y(1)] show ?thesis by (simp add: queue_inv_def tail_node_def)
qed

lemma enqueue_phase2:
  assumes inv: "queue_inv S q pend ns" and ry: "succ HeadRef ns r = Some y"
  obtains q' where "store_next r y q = Inr q'" "queue_inv S q' (pend - {y}) ns"
    "cell q' = (cell q)(r \<mapsto> y)" "prev_of q' = prev_of q" "q_tail q' = q_tail q" "frame q q'"
proof -
  note ch = queue_inv_chain [OF inv]
  have "cell q r \<noteq> None" using chain_cell [OF ch] succ_SomeD [OF ry] by auto
  then obtain u where "cell q r = Some u" by auto
  then obtain q' where q': "store_next r y q = Inr q'" "cell q' = (cell q)(r \<mapsto> y)"
    "prev_of q' = prev_of q" "q_tail q' = q_tail q" "frame q q'"
    by (rule store_next_cell)
  with chain_link [OF ch ry] queue_inv_tail [OF inv] have "queue_inv S q' (pend - {y}) ns"
    by (simp add: queue_inv_def tail_node_def)
  with q' show ?thesis by (intro that)
qed

lemma lastref_tail_node:
  "queue_inv S q pend ns \<Longrightarrow> prev_ptr_of (tail_node S q) = ref_ptr (lastref HeadRef ns)"
  "queue_inv S q pend ns \<Longrightarrow> prev_next_of (tail_node S q) = lastref HeadRef ns"
  using queue_inv_tail [of S q pend ns]
  by (auto simp: prev_ptr_of_def prev_next_of_def lastref_eq)

lemma enqueue_store_prev:
  assumes "queue_inv S q pend ns" and "y \<notin> set ns" and "prev_of q y = Some u"
  obtains q' where "store_prev y v q = Inr q'" "queue_inv S q' pend ns" "cell q' = cell q"
    "prev_of q' = (prev_of q)(y \<mapsto> v)" "q_tail q' = q_tail q" "frame q q'"
proof -
  obtain q' where q': "store_prev y v q = Inr q'" "cell q' = cell q"
    "prev_of q' = (prev_of q)(y \<mapsto> v)" "q_tail q' = q_tail q" "frame q q'"
    using assms(3) by (rule store_prev_cell)
  have "chain (cell q') (prev_of q') pend HeadRef ns 0"
    by (rule chain_cong [OF queue_inv_chain [OF assms(1)]]) (use q' assms(2) in auto)
  with q' queue_inv_tail [OF assms(1)] show ?thesis
    by (intro that) (auto simp: queue_inv_def tail_node_def)
qed

end

definition enqueueable :: "'s state_ops \<Rightarrow> addr \<Rightarrow> 'd queue \<Rightarrow> bool" where
  "enqueueable S y q \<longleftrightarrow> (\<exists>pend ns. queue_inv S q pend ns \<and> y \<notin> set ns \<and> y \<notin> pend)
     \<and> node_addr y \<and> prev_of q y \<noteq> None \<and> cell q (NextRef y) = Some 0"

definition tolerable :: "'s state_ops \<Rightarrow> addr \<Rightarrow> ('d queue \<Rightarrow> 'd queue) \<Rightarrow> bool" where
  "tolerable S y others \<longleftrightarrow>
     (\<forall>q. enqueueable S y q \<longrightarrow> enqueueable S y (others q) \<and> prev_of (others q) y = prev_of q y)"

context queue_state
begin

lemma enqueueable_store:
  assumes "enqueueable S y q"
  obtains q' where "store_prev y v q = Inr q'" "enqueueable S y q'" "prev_of q' y = Some v"
    "q_tail q' = q_tail q"
proof -
  obtain pend ns u where q: "queue_inv S q pend ns" "y \<notin> set ns" "y \<notin> pend" "node_addr y"
    "prev_of q y = Some u" "cell q (NextRef y) = Some 0"
    using assms by (auto simp: enqueueable_def)
  obtain q' where "store_prev y v q = Inr q'" "queue_inv S q' pend ns" "cell q' = cell q"
    "prev_of q' = (prev_of q)(y \<mapsto> v)" "q_tail q' = q_tail q"
    using enqueue_store_prev [OF q(1,2,5)] by metis
  then show ?thesis using q by (intro that [of q']) (auto simp: enqueueable_def)
qed

lemma enqueueable_encode:
  assumes "enqueueable S y q"
  obtains nt where "enum_to_tail S (Ptr y) = Inr nt"
  using assms ptr_encodable [of y] by (auto simp: enqueueable_def)

lemma enqueue_exchange:
  assumes "enqueueable S y q" and "prev_of q y = Some (prev_ptr_of (tail_node S q))"
    and "enum_to_tail S (Ptr y) = Inr nt"
  shows "\<exists>pend ns. prev_next_of (tail_node S q) = lastref HeadRef ns
    \<and> queue_inv S (q\<lparr>q_tail := nt\<rparr>) (insert y pend) (ns @ [y]) \<and> y \<notin> pend"
proof -
  obtain pend ns where q: "queue_inv S q pend ns" "y \<notin> set ns" "y \<notin> pend" "node_addr y"
    "cell q (NextRef y) = Some 0"
    using assms(1) by (auto simp: enqueueable_def)
  with assms lastref_tail_node [OF q(1)] enqueue_phase1 [OF q(1,4,2,5) _ assms(3)]
  show ?thesis by auto
qed

text \<open>
  Phase 1 under interference: the loop ends, and either the tail was refused and the node is
  unqueued again, or the node is the new tail of some queue, half inserted behind the cell the
  loop returns. It does not matter that the queue may have changed under an unchanged tail word
  between the load and the exchange.
\<close>

lemma enqueue_tail_ok:
  assumes "enqueueable S y q" and "\<And>e. e \<in> set env \<Longrightarrow> tolerable S y (fst e)"
  shows "(\<exists>q'. enqueue_tail S y check env q = Inr (None, q') \<and> prev_of q' y = Some 0 \<and> enqueueable S y q')
       \<or> (\<exists>q' pend ns. enqueue_tail S y check env q = Inr (Some (lastref HeadRef ns), q')
            \<and> queue_inv S q' (insert y pend) (ns @ [y]) \<and> y \<notin> pend)"
  using assms
proof (induction env arbitrary: q)
  case Nil
  obtain nt where nt: "enum_to_tail S (Ptr y) = Inr nt"
    by (rule enqueueable_encode [OF Nil.prems(1)])
  obtain q0 where q0: "store_prev y 0 q = Inr q0" "enqueueable S y q0" "prev_of q0 y = Some 0"
    by (rule enqueueable_store [OF Nil.prems(1)])
  obtain q1 where q1: "store_prev y (prev_ptr_of (tail_node S q)) q = Inr q1" "enqueueable S y q1"
    "prev_of q1 y = Some (prev_ptr_of (tail_node S q))" "q_tail q1 = q_tail q"
    by (rule enqueueable_store [OF Nil.prems(1)])
  have tl: "tail_node S q1 = tail_node S q" using q1 by (simp add: tail_node_def)
  show ?case
    using enqueue_exchange [OF q1(2) _ nt] q1 q0 nt tl by (auto simp: Let_def)
next
  case (Cons e env)
  obtain others spurious where e: "e = (others, spurious)" by (cases e)
  obtain nt where nt: "enum_to_tail S (Ptr y) = Inr nt"
    by (rule enqueueable_encode [OF Cons.prems(1)])
  obtain q0 where q0: "store_prev y 0 q = Inr q0" "enqueueable S y q0" "prev_of q0 y = Some 0"
    by (rule enqueueable_store [OF Cons.prems(1)])
  obtain q1 where q1: "store_prev y (prev_ptr_of (tail_node S q)) q = Inr q1" "enqueueable S y q1"
    "prev_of q1 y = Some (prev_ptr_of (tail_node S q))" "q_tail q1 = q_tail q"
    by (rule enqueueable_store [OF Cons.prems(1)])
  have q2: "enqueueable S y (others q1)" "prev_of (others q1) y = prev_of q1 y"
    using Cons.prems(2) [of e] q1(2) e by (auto simp: tolerable_def)
  have step: "enqueue_tail S y check (e # env) q
     = (if \<not> check (q_tail q) then Inr (None, q0)
        else if \<not> spurious \<and> q_tail (others q1) = q_tail q
        then Inr (Some (prev_next_of (tail_node S q)), (others q1)\<lparr>q_tail := nt\<rparr>)
        else enqueue_tail S y check env (others q1))"
    using q0 q1 nt by (simp add: e Let_def)
  have "\<exists>pend ns. prev_next_of (tail_node S q) = lastref HeadRef ns
      \<and> queue_inv S ((others q1)\<lparr>q_tail := nt\<rparr>) (insert y pend) (ns @ [y]) \<and> y \<notin> pend"
    if "q_tail (others q1) = q_tail q"
    using enqueue_exchange [OF q2(1) _ nt] q2(2) q1(3) that by (simp add: tail_node_def)
  with q0 Cons.IH [OF q2(1)] Cons.prems(2) show ?case unfolding step by auto
qed

lemma enqueue_ok:
  assumes inv: "queue_inv S q pend ns" and y: "node_addr y" "y \<notin> set ns" "y \<notin> pend"
    "prev_of q y = Some u" "cell q (NextRef y) = Some 0" and chk: "check (q_tail q)"
  obtains q' where "enqueue S y check [] q = Inr (True, q')" "queue_inv S q' pend (ns @ [y])"
    "touches (set (ns @ [y])) q q'"
proof -
  let ?r = "lastref HeadRef ns"
  obtain nt where nt: "enum_to_tail S (Ptr y) = Inr nt" using ptr_encodable y by blast
  obtain q1 where q1: "store_prev y (ref_ptr ?r) q = Inr q1" "queue_inv S q1 pend ns"
    "cell q1 = cell q" "prev_of q1 = (prev_of q)(y \<mapsto> ref_ptr ?r)" "frame q q1"
    using enqueue_store_prev [OF inv y(2,4)] by metis
  define q2 where "q2 = q1\<lparr>q_tail := nt\<rparr>"
  have inv2: "queue_inv S q2 (insert y pend) (ns @ [y])"
    unfolding q2_def using q1 y nt by (intro enqueue_phase1) auto
  have lin: "linear HeadRef ns" using queue_inv_distinct [OF inv] by simp
  have ry: "succ HeadRef (ns @ [y]) ?r = Some y" using lin by (simp add: succ_snoc)
  obtain q3 where q3: "store_next ?r y q2 = Inr q3" "queue_inv S q3 (insert y pend - {y}) (ns @ [y])"
    "cell q3 = (cell q2)(?r \<mapsto> y)" "prev_of q3 = prev_of q2" "frame q2 q3"
    by (rule enqueue_phase2 [OF inv2 ry])
  have "enqueue S y check [] q = Inr (True, q3)"
    using q1(1) q3(1) nt chk by (simp add: enqueue_def Let_def lastref_tail_node [OF inv] q2_def)
  moreover have "touches (set (ns @ [y])) q q3"
  proof (rule touchesI)
    show "frame q q3" using q1(5) q3(5) by (auto simp: q2_def frame_def)
    show "cell q3 = (cell q)(?r \<mapsto> y)" using q3(3) q1(3) by (simp add: q2_def)
    show "?r \<in> refs HeadRef (ns @ [y])" by simp
  qed (use q1(4) q3(4) in \<open>auto simp: q2_def\<close>)
  ultimately show ?thesis using q3(2) y(3) by (intro that [of q3]) simp_all
qed

lemma enqueue_refused:
  assumes inv: "queue_inv S q pend ns" and "y \<notin> set ns" "prev_of q y = Some u" and "\<not> check (q_tail q)"
  obtains q' where "enqueue S y check [] q = Inr (False, q')" "queue_inv S q' pend ns"
    "prev_of q' = (prev_of q)(y \<mapsto> 0)" "cell q' = cell q" "q_tail q' = q_tail q" "frame q q'"
proof -
  obtain q' where "store_prev y 0 q = Inr q'" "queue_inv S q' pend ns"
    "prev_of q' = (prev_of q)(y \<mapsto> 0)" "cell q' = cell q" "q_tail q' = q_tail q" "frame q q'"
    using enqueue_store_prev [OF assms(1-3)] by metis
  with assms(4) show ?thesis by (intro that) (simp_all add: enqueue_def)
qed

lemma locked_dequeue_eq:
  assumes inv: "queue_inv S q pend ns"
  shows "locked_dequeue S q = (case ns of [] \<Rightarrow> Inr None
    | x # _ \<Rightarrow> if x \<in> pend then Inl WouldBlock else Inr (Some x))"
proof (cases ns)
  case (Cons x xs)
  then have "cell q HeadRef = Some (if x \<in> pend then 0 else x)"
    using chain_cell [OF queue_inv_chain [OF inv], of HeadRef] by (simp add: refs_def)
  then have "load_next HeadRef q = Inr (if x \<in> pend then 0 else x)" by (rule load_next_cell)
  then show ?thesis
    using queue_inv_tail [OF inv] queue_inv_addr [OF inv, of x] Cons
    by (simp add: locked_dequeue_def get_next_def)
qed (use queue_inv_tail [OF inv] in \<open>simp add: locked_dequeue_def\<close>)

lemma locked_pop_eq:
  "queue_inv S q pend ns \<Longrightarrow> locked_pop S q = (if ns = [] then None else Some (last ns))"
  by (simp add: locked_pop_def queue_inv_tail)

text \<open>
  The removals the guards and the nodes perform, in terms of lists. \<open>butlast\<close> and
  \<open>tl\<close> are removals of the last and of the first node.
\<close>

lemma dequeue_remove_ok:
  assumes inv: "queue_inv S q pend (x # xs)" and p: "x \<notin> pend" "xs \<noteq> [] \<Longrightarrow> hd xs \<notin> pend"
    and new: "tail_to_enum S new_tail = State st"
  obtains q' where "remove_with_prev S x new_tail w HEAD_MARKER q = Inr (xs = [], q')"
    "queue_inv S q' pend xs" "prev_of q' x = Some 1" "touches (set (x # xs)) q q'"
    "xs = [] \<longrightarrow> tail_to_enum S (q_tail q') = State st"
proof -
  have "distinct (x # xs)" using inv by (rule queue_inv_distinct)
  then have lst: "x = last (x # xs) \<longleftrightarrow> xs = []" by (cases xs rule: rev_cases) auto
  have nx: "y \<notin> pend" if "succ HeadRef (x # xs) (NextRef x) = Some y" for y
    using that p(2) by (cases xs) auto
  have rx: "succ HeadRef (x # xs) HeadRef = Some x" by simp
  show ?thesis
    by (rule remove_ok [OF inv rx p(1) nx new, where w = w]) (use that lst in auto)
qed

lemma pop_remove_ok:
  assumes inv: "queue_inv S q pend (xs @ [x])" and p: "x \<notin> pend" and new: "tail_to_enum S new_tail = State st"
  obtains q' where "remove S x new_tail w q = Inr (True, q')" "queue_inv S q' pend xs"
    "prev_of q' x = Some 1" "touches (set (xs @ [x])) q q'"
    "xs = [] \<longrightarrow> tail_to_enum S (q_tail q') = State st"
proof -
  have dst: "distinct (xs @ [x])" using inv by (rule queue_inv_distinct)
  then have rem: "remove1 x (xs @ [x]) = xs" by (simp add: remove1_append)
  obtain rx where rx: "succ HeadRef (xs @ [x]) rx = Some x"
    using succ_exists [of HeadRef "xs @ [x]" x] dst by auto
  have "succ HeadRef (xs @ [x]) (NextRef x) = None"
    using dst succ_lastref [of HeadRef "xs @ [x]"] by (simp add: lastref_eq)
  then have nx: "y \<notin> pend" if "succ HeadRef (xs @ [x]) (NextRef x) = Some y" for y using that by simp
  show ?thesis
    by (rule remove_ok [OF inv rx p nx new, where w = w]) (use that rem in auto)
qed

lemma self_remove_ok:
  assumes inv: "queue_inv S q {} ns" and x: "x \<in> set ns" and new: "tail_to_enum S new_tail = State st"
  obtains q' where "remove S x new_tail w q = Inr (x = last ns, q')" "queue_inv S q' {} (remove1 x ns)"
    "prev_of q' x = Some 1" "touches (set ns) q q'"
    "remove1 x ns = [] \<longrightarrow> tail_to_enum S (q_tail q') = State st"
proof -
  obtain rx where rx: "succ HeadRef ns rx = Some x"
    using succ_exists [of HeadRef ns x] queue_inv_distinct [OF inv] x by auto
  show ?thesis
    by (rule remove_ok [OF inv rx _ _ new, where w = w]) (use that in auto)
qed

end

lemma queue_inv_prev:
  assumes inv: "queue_inv S q pend ns" and x: "x \<in> set ns"
  shows "\<exists>v. prev_of q x = Some v \<and> v \<noteq> 0 \<and> v \<noteq> 1"
proof -
  obtain r where "succ HeadRef ns r = Some x"
    using succ_exists [of HeadRef ns x] queue_inv_distinct [OF inv] x by auto
  from queue_inv_at(5,6) [OF inv this] show ?thesis by auto
qed

lemma nodes_ok_update:
  assumes ok: "nodes_ok q X Q" and t: "touches A q q'" and Q: "Q' - A = Q - A"
    and A: "\<And>z v. z \<in> A \<Longrightarrow> z \<notin> X \<Longrightarrow> prev_of q' z = Some v \<Longrightarrow>
       node_addr z \<and> (z \<in> Q' \<longleftrightarrow> v \<noteq> 0 \<and> v \<noteq> 1) \<and> (v = 0 \<longrightarrow> cell q' (NextRef z) = Some 0)"
  shows "nodes_ok q' X Q'"
  unfolding nodes_ok_def
proof (intro allI impI)
  fix z v
  assume z: "z \<notin> X" "prev_of q' z = Some v"
  show "node_addr z \<and> (z \<in> Q' \<longleftrightarrow> v \<noteq> 0 \<and> v \<noteq> 1) \<and> (v = 0 \<longrightarrow> cell q' (NextRef z) = Some 0)"
  proof (cases "z \<in> A")
    case True
    with z show ?thesis by (intro A)
  next
    case False
    then have "z \<in> Q' \<longleftrightarrow> z \<in> Q" using Q by blast
    moreover have "prev_of q z = Some v" "cell q' (NextRef z) = cell q (NextRef z)"
      using False t z by (simp_all add: touches_def)
    ultimately show ?thesis using ok z by (simp add: nodes_ok_def)
  qed
qed

lemma nodes_ok_remove:
  assumes ok: "nodes_ok q X Q" and t: "touches (set ns) q q'" and inv: "queue_inv S q' pend ns'"
    and x: "prev_of q' x = Some 1" "x \<in> set ns" "x \<notin> set ns'" and ns: "set ns = insert x (set ns')"
    and addr: "node_addr x" and Q: "set ns \<subseteq> Q"
  shows "nodes_ok q' X (Q - {x})"
proof (rule nodes_ok_update [OF ok t])
  show "Q - {x} - set ns = Q - set ns" using x by blast
  fix z v
  assume z: "z \<in> set ns" "prev_of q' z = Some v"
  show "node_addr z \<and> (z \<in> Q - {x} \<longleftrightarrow> v \<noteq> 0 \<and> v \<noteq> 1) \<and> (v = 0 \<longrightarrow> cell q' (NextRef z) = Some 0)"
  proof (cases "z = x")
    case True
    with x z addr show ?thesis by simp
  next
    case False
    then have "z \<in> set ns'" using z ns by blast
    with queue_inv_prev [OF inv this] queue_inv_addr [OF inv this] False z Q show ?thesis by auto
  qed
qed

lemma nodes_ok_enqueue:
  assumes ok: "nodes_ok q X Q" and t: "touches (set (ns @ [y])) q q'" and inv: "queue_inv S q' pend (ns @ [y])"
    and Q: "set ns \<subseteq> Q"
  shows "nodes_ok q' X (insert y Q)"
proof (rule nodes_ok_update [OF ok t])
  show "insert y Q - set (ns @ [y]) = Q - set (ns @ [y])" by auto
  fix z v
  assume z: "z \<in> set (ns @ [y])" "prev_of q' z = Some v"
  with queue_inv_prev [OF inv z(1)] queue_inv_addr [OF inv z(1)] Q
  show "node_addr z \<and> (z \<in> insert y Q \<longleftrightarrow> v \<noteq> 0 \<and> v \<noteq> 1) \<and> (v = 0 \<longrightarrow> cell q' (NextRef z) = Some 0)"
    by auto
qed

section \<open>State updates under interference\<close>

definition env_run :: "'d env \<Rightarrow> 'd queue \<Rightarrow> 'd queue" where
  "env_run env q = foldl (\<lambda>q e. fst e q) q env"

definition fetch_update_result ::
  "'s state_ops \<Rightarrow> ('s \<Rightarrow> 's option res) \<Rightarrow> 's option + 's \<Rightarrow> 'd queue \<Rightarrow> 'd queue \<Rightarrow> bool" where
  "fetch_update_result S f r q0 q' \<longleftrightarrow>
     (case r of
        Inr st \<Rightarrow> state_of S q0 = Some st \<and> (\<exists>st' w. f st = Inr (Some st')
          \<and> enum_to_tail S (State st') = Inr w \<and> q' = q0\<lparr>q_tail := w\<rparr>)
      | Inl (Some st) \<Rightarrow> state_of S q0 = Some st \<and> f st = Inr None \<and> q' = q0
      | Inl None \<Rightarrow> tail_node S q0 \<noteq> None \<and> q' = q0)"

lemma fetch_update_once:
  assumes "fetch_update_state S f [] q = Inr (r, q')"
  shows "fetch_update_result S f r q q'"
  using assms
  by (auto simp: fetch_update_result_def state_of_def tail_node_def bind_res_eq_Inr_iff
      split: state_or_ptr.splits option.splits)

lemma fetch_update_cases:
  assumes "fetch_update_state S f ((others, spurious) # env) q = Inr (r, q')"
  obtains (now) "fetch_update_result S f r q q'"
    | (won) "fetch_update_result S f r (others q) q'"
    | (lost) "fetch_update_state S f env (others q) = Inr (r, q')"
proof (cases "tail_to_enum S (q_tail q)")
  case (Ptr p)
  with assms now show ?thesis by (auto simp: fetch_update_result_def tail_node_def Let_def)
next
  case (State st)
  with assms obtain res where res: "f st = Inr res" by (cases "f st") (auto simp: Let_def)
  show ?thesis
  proof (cases res)
    case None
    with assms State res now show ?thesis by (auto simp: fetch_update_result_def state_of_def Let_def)
  next
    case (Some st')
    with assms State res obtain w where w: "enum_to_tail S (State st') = Inr w"
      by (cases "enum_to_tail S (State st')") (auto simp: Let_def)
    with assms State res Some won lost show ?thesis
      by (auto simp: fetch_update_result_def state_of_def Let_def split: if_splits)
  qed
qed

lemma fetch_update_iterated:
  "fetch_update_state S f env q = Inr (r, q') \<Longrightarrow>
   \<exists>k\<le>length env. fetch_update_result S f r (env_run (take k env) q) q'"
proof (induction env arbitrary: q)
  case Nil
  then show ?case using fetch_update_once by (auto simp: env_run_def)
next
  case (Cons e env)
  obtain others spurious where e: "e = (others, spurious)" by (cases e)
  consider (now) "fetch_update_result S f r q q'"
    | (won) "fetch_update_result S f r (others q) q'"
    | (lost) "fetch_update_state S f env (others q) = Inr (r, q')"
    using Cons.prems unfolding e by (rule fetch_update_cases)
  then show ?case
  proof cases
    case now
    then show ?thesis by (intro exI [of _ 0]) (simp add: env_run_def)
  next
    case won
    then show ?thesis by (intro exI [of _ 1]) (simp add: env_run_def e)
  next
    case lost
    from Cons.IH [OF this] obtain k where "k \<le> length env"
      "fetch_update_result S f r (env_run (take k env) (others q)) q'" by blast
    then show ?thesis by (intro exI [of _ "Suc k"]) (simp add: env_run_def e)
  qed
qed

section \<open>Properties\<close>

text \<open>
  C12. \<^verbatim>\<open>fetch_update_state\<close> is atomic whatever other threads do between its
  exchanges and however often an exchange fails spuriously: there is a moment \<open>k\<close> in the
  interference at which the whole call takes place. \<^verbatim>\<open>Ok(st)\<close> means that the
  queue was empty with state \<open>st\<close> at that moment and now holds what the closure computed
  from \<open>st\<close>, nothing else changed; \<^verbatim>\<open>Err(Some(st))\<close> that the closure
  refused \<open>st\<close>, \<^verbatim>\<open>Err(None)\<close> that a node was queued, and then nothing
  changed at all.
\<close>

theorem fetch_update_state_atomic:
  assumes "fetch_update_state S f env q = Inr (r, q')"
  shows "\<exists>k\<le>length env. fetch_update_result S f r (env_run (take k env) q) q'"
  using assms by (rule fetch_update_iterated)

theorem fetch_update_state_atomic_witness:
  "fetch_update_state usize_state (\<lambda>st. Inr (Some (st + 1)))
     [(\<lambda>q. q\<lparr>q_tail := 20\<rparr>, False), (id, True)] (queue_new :: nat queue)
     = Inr (Inr 10, queue_new\<lparr>q_tail := 22\<rparr>)
   \<and> (\<exists>k\<le>2. fetch_update_result usize_state (\<lambda>st. Inr (Some (st + 1))) (Inr 10)
        (env_run (take k [(\<lambda>q. q\<lparr>q_tail := 20\<rparr>, False), (id, True)]) (queue_new :: nat queue))
        (queue_new\<lparr>q_tail := 22\<rparr>))"
proof -
  have run: "fetch_update_state usize_state (\<lambda>st. Inr (Some (st + 1)))
     [(\<lambda>q. q\<lparr>q_tail := 20\<rparr>, False), (id, True)] (queue_new :: nat queue)
     = Inr (Inr 10, queue_new\<lparr>q_tail := 22\<rparr>)"
    by (simp add: usize_state_def state_to_ptr_def TAIL_FLAG_def STATE_SHIFT_def max_state_value
        queue_new_def new_impl_def drop_bit_eq_div)
  show ?thesis using run fetch_update_state_atomic [OF run]
    by (simp add: numeral_2_eq_2 del: fetch_update_state.simps)
qed

text \<open>
  C11. The lock-free half of an insertion survives any interference that respects the node being
  inserted: the loop returns, never faults, and either the node is unqueued again because
  \<open>check_tail\<close> refused the tail, or the node is now the last of a well-formed queue, only
  its link from the cell that the loop returns still to be written. In particular an unchanged
  tail word over a changed queue (ABA) does no harm.
\<close>

theorem enqueue_tail_lock_free:
  assumes "queue_state S valid dflt" and "enqueueable S y q" and "\<forall>e\<in>set env. tolerable S y (fst e)"
  shows "(\<exists>q'. enqueue_tail S y check env q = Inr (None, q') \<and> prev_of q' y = Some 0)
       \<or> (\<exists>q' pend ns. enqueue_tail S y check env q = Inr (Some (lastref HeadRef ns), q')
            \<and> queue_inv S q' (insert y pend) (ns @ [y]) \<and> y \<notin> pend)"
  using queue_state.enqueue_tail_ok [OF assms(1,2), of env check] assms(3) by blast

lemma bump_tolerable:
  "tolerable usize_state y (\<lambda>q. if is_empty usize_state q then q\<lparr>q_tail := 20\<rparr> else q)"
  unfolding tolerable_def
proof (intro allI impI)
  fix q :: "'d queue"
  assume q: "enqueueable usize_state y q"
  have "tail_to_enum usize_state 20 = State 10"
    by (simp add: usize_state_def TAIL_FLAG_def STATE_SHIFT_def drop_bit_eq_div)
  then have "queue_inv usize_state (q\<lparr>q_tail := 20\<rparr>) pend ns"
    if "is_empty usize_state q" "queue_inv usize_state q pend ns" for pend ns
    using that is_empty_iff [OF that(2)] by (simp add: queue_inv_def tail_node_def)
  then have "is_empty usize_state q \<longrightarrow> enqueueable usize_state y (q\<lparr>q_tail := 20\<rparr>)"
    using q by (auto simp: enqueueable_def)
  then show "enqueueable usize_state y (if is_empty usize_state q then q\<lparr>q_tail := 20\<rparr> else q)
      \<and> prev_of (if is_empty usize_state q then q\<lparr>q_tail := 20\<rparr> else q) y = prev_of q y"
    using q by simp
qed

theorem enqueue_tail_lock_free_witness:
  "let q = queue_new\<lparr>q_links := [4096 \<mapsto> node_link_new], q_data := [4096 \<mapsto> 7 :: nat]\<rparr>;
       env = [(\<lambda>q. if is_empty usize_state q then q\<lparr>q_tail := 20\<rparr> else q, False), (id, True)]
   in (\<exists>q'. enqueue_tail usize_state 4096 (\<lambda>_. True) env q = Inr (None, q') \<and> prev_of q' 4096 = Some 0)
    \<or> (\<exists>q' pend ns. enqueue_tail usize_state 4096 (\<lambda>_. True) env q = Inr (Some (lastref HeadRef ns), q')
         \<and> queue_inv usize_state q' (insert 4096 pend) (ns @ [4096]) \<and> 4096 \<notin> pend)"
  unfolding Let_def
proof (rule enqueue_tail_lock_free [OF usize_qs.queue_state_axioms])
  let ?q = "queue_new\<lparr>q_links := [4096 \<mapsto> node_link_new], q_data := [4096 \<mapsto> 7 :: nat]\<rparr>"
  have "queue_inv usize_state ?q {} []"
    using usize_qs.null_is_state
    by (simp add: queue_inv_def chain_def refs_def cell_def tail_node_def queue_new_def new_impl_def)
  then have "\<exists>pend ns. queue_inv usize_state ?q pend ns \<and> 4096 \<notin> set ns \<and> 4096 \<notin> pend"
    by (intro exI [of _ "{}"] exI [of _ "[]"]) simp
  then show "enqueueable usize_state 4096 ?q"
    by (simp add: enqueueable_def node_addr_def prev_of_def cell_def queue_new_def new_impl_def
        node_link_new_def)
qed (simp add: bump_tolerable, simp add: tolerable_def)

end
