(* ===== verification/Node.thy ===== *)
theory Node
  imports Queue
begin

text \<open>
  \<^verbatim>\<open>src/node.rs\<close>: the node type and the three views of its state. A node lives at
  the address it is pinned to; \<open>node_with_data\<close> allocates it there and \<open>node_drop\<close>
  removes it from the queue if it has to and frees it.
\<close>

section \<open>Nodes\<close>

datatype node_view = NodeUnqueued | NodeQueued | NodeDequeued

definition node_with_data :: "addr \<Rightarrow> 'd \<Rightarrow> 'd queue \<Rightarrow> 'd queue" where
  "node_with_data p d q =
     q\<lparr>q_links := (q_links q)(p \<mapsto> node_link_new), q_data := (q_data q)(p \<mapsto> d)\<rparr>"

definition raw_state :: "addr \<Rightarrow> 'd queue \<Rightarrow> raw_node_state res" where
  "raw_state p q = (case q_links q p of None \<Rightarrow> Inl Undefined | Some l \<Rightarrow> Inr (link_state l))"

text \<open>
  In the view \<open>NodeQueued\<close> the caller holds the queue's lock. The state is read again once
  the lock is held, since the node may have been dequeued in between.
\<close>

definition state_from_raw ::
  "addr \<Rightarrow> raw_node_state \<Rightarrow> ('d queue \<Rightarrow> 'd queue) \<Rightarrow> 'd queue \<Rightarrow> (node_view \<times> 'd queue) res" where
  "state_from_raw p raw gap q =
     (case raw of
        Unqueued \<Rightarrow> Inr (NodeUnqueued, q)
      | Queued \<Rightarrow> bind_res (lock gap q) (\<lambda>q. bind_res (raw_state p q) (\<lambda>raw.
          case raw of Unqueued \<Rightarrow> Inl Undefined
          | Queued \<Rightarrow> Inr (NodeQueued, q)
          | Dequeued \<Rightarrow> Inr (NodeDequeued, unlock q)))
      | Dequeued \<Rightarrow> Inr (NodeDequeued, q))"

definition node_state :: "addr \<Rightarrow> ('d queue \<Rightarrow> 'd queue) \<Rightarrow> 'd queue \<Rightarrow> (node_view \<times> 'd queue) res" where
  "node_state p gap q = bind_res (raw_state p q) (\<lambda>raw. state_from_raw p raw gap q)"

definition node_dequeue :: "'s state_ops \<Rightarrow> addr \<Rightarrow> ('d queue \<Rightarrow> 'd queue) \<Rightarrow> 'd queue \<Rightarrow> 'd queue res" where
  "node_dequeue S p gap q =
     bind_res (lock gap q) (\<lambda>q. bind_res (raw_state p q) (\<lambda>raw.
       if raw = Queued then bind_res (remove S p 0 False q) (\<lambda>(_, q). Inr (unlock q))
       else Inr (unlock q)))"

definition node_free :: "addr \<Rightarrow> 'd queue \<Rightarrow> 'd queue" where
  "node_free p q = q\<lparr>q_links := (q_links q)(p := None), q_data := (q_data q)(p := None)\<rparr>"

definition node_drop :: "'s state_ops \<Rightarrow> addr \<Rightarrow> ('d queue \<Rightarrow> 'd queue) \<Rightarrow> 'd queue \<Rightarrow> 'd queue res" where
  "node_drop S p gap q =
     bind_res (raw_state p q) (\<lambda>raw.
     bind_res (if raw = Queued then node_dequeue S p gap q else Inr q) (\<lambda>q.
       Inr (node_free p q)))"

section \<open>Data access\<close>

text \<open>The accessors of \<^verbatim>\<open>node_getters!\<close>, the same for every guard and view.\<close>

definition with_data :: "addr \<Rightarrow> ('d \<Rightarrow> 'r) \<Rightarrow> 'd queue \<Rightarrow> 'r res" where
  "with_data p f q = (case q_data q p of None \<Rightarrow> Inl Undefined | Some d \<Rightarrow> Inr (f d))"

definition with_data_mut :: "addr \<Rightarrow> ('d \<Rightarrow> 'r \<times> 'd) \<Rightarrow> 'd queue \<Rightarrow> ('r \<times> 'd queue) res" where
  "with_data_mut p f q =
     (case q_data q p of None \<Rightarrow> Inl Undefined
      | Some d \<Rightarrow> (let (r, d') = f d in Inr (r, q\<lparr>q_data := (q_data q)(p \<mapsto> d')\<rparr>)))"

section \<open>The operations of the three views\<close>

definition node_unqueued_enqueue :: "'s state_ops \<Rightarrow> addr \<Rightarrow> 'd env \<Rightarrow> 'd queue \<Rightarrow> 'd queue res" where
  "node_unqueued_enqueue S p env q =
     bind_res (enqueue S p (\<lambda>_. True) env q) (\<lambda>(_, q). Inr q)"

definition try_enqueue_with_queue_state ::
  "'s state_ops \<Rightarrow> addr \<Rightarrow> ('s option \<Rightarrow> bool) \<Rightarrow> 'd env \<Rightarrow> 'd queue \<Rightarrow> (bool \<times> 'd queue) res" where
  "try_enqueue_with_queue_state S p match_state env q =
     enqueue S p (\<lambda>tail. match_state (sop_state (tail_to_enum S tail))) env q"

definition node_queued_dequeue :: "'s state_ops \<Rightarrow> addr \<Rightarrow> 'd queue \<Rightarrow> 'd queue res" where
  "node_queued_dequeue S p q = bind_res (remove S p 0 False q) (\<lambda>(_, q). Inr q)"

definition node_queued_dequeue_try_set_queue_state ::
  "'s state_ops \<Rightarrow> addr \<Rightarrow> 's \<Rightarrow> 'd queue \<Rightarrow> (bool \<times> 'd queue) res" where
  "node_queued_dequeue_try_set_queue_state S p st q =
     bind_res (enum_to_tail S (State st)) (\<lambda>new_tail. remove S p new_tail False q)"

definition node_dequeued_reset :: "addr \<Rightarrow> 'd queue \<Rightarrow> 'd queue res" where
  "node_dequeued_reset p q = bind_res (store_prev p 0 q) (store_next (NextRef p) 0)"

section \<open>Clients of the interface\<close>

text \<open>
  One call sequence of a client per operation, made of the interface's own functions: a node is
  enqueued, removed or reset after a match on its state, and the queue is dequeued or popped
  through \<^verbatim>\<open>is_empty_or_lock\<close>; guards are dropped. The result is the node that
  was dequeued or popped.
\<close>

datatype 'd queue_op =
  OpNew addr 'd | OpDrop addr | OpEnqueue addr | OpRemove addr | OpReset addr | OpDequeue | OpPop

fun queue_op_step :: "'s state_ops \<Rightarrow> 'd queue_op \<Rightarrow> 'd queue \<Rightarrow> (addr option \<times> 'd queue) res" where
  "queue_op_step S (OpNew p d) q =
     Inr (None, if node_addr p \<and> q_links q p = None then node_with_data p d q else q)"
| "queue_op_step S (OpDrop p) q =
     (if q_links q p = None then Inr (None, q)
      else bind_res (node_drop S p id q) (\<lambda>q. Inr (None, q)))"
| "queue_op_step S (OpEnqueue p) q =
     (if q_links q p = None then Inr (None, q)
      else bind_res (node_state p id q) (\<lambda>(view, q). case view of
          NodeUnqueued \<Rightarrow> bind_res (node_unqueued_enqueue S p [] q) (\<lambda>q. Inr (None, q))
        | NodeQueued \<Rightarrow> Inr (None, unlock q)
        | NodeDequeued \<Rightarrow> Inr (None, q)))"
| "queue_op_step S (OpRemove p) q =
     (if q_links q p = None then Inr (None, q)
      else bind_res (node_state p id q) (\<lambda>(view, q). case view of
          NodeQueued \<Rightarrow> bind_res (node_queued_dequeue S p q) (\<lambda>q. Inr (None, unlock q))
        | _ \<Rightarrow> Inr (None, q)))"
| "queue_op_step S (OpReset p) q =
     (if q_links q p = None then Inr (None, q)
      else bind_res (node_state p id q) (\<lambda>(view, q). case view of
          NodeDequeued \<Rightarrow> bind_res (node_dequeued_reset p q) (\<lambda>q. Inr (None, q))
        | NodeQueued \<Rightarrow> Inr (None, unlock q)
        | NodeUnqueued \<Rightarrow> Inr (None, q)))"
| "queue_op_step S OpDequeue q =
     bind_res (is_empty_or_lock S id q) (\<lambda>(locked, q).
       if \<not> locked then Inr (None, q)
       else bind_res (locked_dequeue S q) (\<lambda>node. case node of
          None \<Rightarrow> Inr (None, unlock q)
        | Some p \<Rightarrow> bind_res (dequeue_drop S p q) (\<lambda>q. Inr (Some p, unlock q))))"
| "queue_op_step S OpPop q =
     bind_res (is_empty_or_lock S id q) (\<lambda>(locked, q).
       if \<not> locked then Inr (None, q)
       else (case locked_pop S q of
          None \<Rightarrow> Inr (None, unlock q)
        | Some p \<Rightarrow> bind_res (pop_drop S p q) (\<lambda>q. Inr (Some p, unlock q))))"

text \<open>
  The abstract queue: the list of queued nodes, and the state of every live node.
\<close>

fun queue_op_spec ::
  "'d queue_op \<Rightarrow> addr list \<times> (addr \<rightharpoonup> raw_node_state) \<Rightarrow> addr option \<times> addr list \<times> (addr \<rightharpoonup> raw_node_state)" where
  "queue_op_spec (OpNew p d) (ns, st) =
     (None, ns, if node_addr p \<and> st p = None then st(p \<mapsto> Unqueued) else st)"
| "queue_op_spec (OpDrop p) (ns, st) = (None, remove1 p ns, st(p := None))"
| "queue_op_spec (OpEnqueue p) (ns, st) =
     (None, if st p = Some Unqueued then (ns @ [p], st(p \<mapsto> Queued)) else (ns, st))"
| "queue_op_spec (OpRemove p) (ns, st) =
     (None, if st p = Some Queued then (remove1 p ns, st(p \<mapsto> Dequeued)) else (ns, st))"
| "queue_op_spec (OpReset p) (ns, st) =
     (None, ns, if st p = Some Dequeued then st(p \<mapsto> Unqueued) else st)"
| "queue_op_spec OpDequeue (ns, st) =
     (case ns of [] \<Rightarrow> (None, ns, st) | x # xs \<Rightarrow> (Some x, xs, st(x \<mapsto> Dequeued)))"
| "queue_op_spec OpPop (ns, st) =
     (if ns = [] then (None, ns, st) else (Some (last ns), butlast ns, st(last ns \<mapsto> Dequeued)))"

definition node_states :: "'d queue \<Rightarrow> addr \<rightharpoonup> raw_node_state" where
  "node_states q p = map_option link_state (q_links q p)"

definition queue_rel :: "'s state_ops \<Rightarrow> 'd queue \<Rightarrow> addr list \<times> (addr \<rightharpoonup> raw_node_state) \<Rightarrow> bool" where
  "queue_rel S q a \<longleftrightarrow> queue_wf S q (fst a) \<and> \<not> q_locked q \<and> node_states q = snd a"

section \<open>Lemmas\<close>

lemma node_states_iff:
  "node_states q p = Some Unqueued \<longleftrightarrow> prev_of q p = Some 0"
  "node_states q p = Some Dequeued \<longleftrightarrow> prev_of q p = Some 1"
  "node_states q p = Some Queued \<longleftrightarrow> (\<exists>v. prev_of q p = Some v \<and> v \<noteq> 0 \<and> v \<noteq> 1)"
  "node_states q p = None \<longleftrightarrow> q_links q p = None"
  by (auto simp: node_states_def prev_of_def link_state_iff)

lemma raw_state_eq: "node_states q p = Some st \<Longrightarrow> raw_state p q = Inr st"
  by (auto simp: node_states_def raw_state_def)

lemma node_states_locked [simp]: "node_states (q\<lparr>q_locked := b\<rparr>) = node_states q"
  by (auto simp: node_states_def fun_eq_iff)

lemma queue_wf_locked [simp]: "queue_wf S (q\<lparr>q_locked := b\<rparr>) ns = queue_wf S q ns"
  by (simp add: queue_wf_def)

lemma queue_wf_queued_iff:
  assumes wf: "queue_wf S q ns"
  shows "node_states q p = Some Queued \<longleftrightarrow> p \<in> set ns"
proof
  assume "node_states q p = Some Queued"
  then obtain v where "prev_of q p = Some v" "v \<noteq> 0" "v \<noteq> 1" by (auto simp: node_states_iff)
  with wf show "p \<in> set ns" by (simp add: queue_wf_def nodes_ok_def)
next
  assume "p \<in> set ns"
  with wf show "node_states q p = Some Queued"
    unfolding queue_wf_def node_states_iff using queue_inv_prev by metis
qed

lemma node_states_cong:
  "prev_of q' p = prev_of q p \<Longrightarrow> node_states q' p = node_states q p"
  by (cases "q_links q p"; cases "q_links q' p") (auto simp: prev_of_def node_states_def link_state_def)

lemma node_states_touches:
  assumes wf: "queue_wf S q ns" and wf': "queue_wf S q' ns'" and t: "touches (insert x (set ns)) q q'"
    and x: "node_states q' x = Some st" and ns: "insert x (set ns) = insert x (set ns')"
  shows "node_states q' = (node_states q)(x \<mapsto> st)"
proof
  fix z
  show "node_states q' z = ((node_states q)(x \<mapsto> st)) z"
  proof (cases "z \<in> insert x (set ns)")
    case True
    then consider "z = x" | "z \<noteq> x" "z \<in> set ns" "z \<in> set ns'" using ns by blast
    then show ?thesis
      by cases (simp add: x, simp add: queue_wf_queued_iff [OF wf, THEN iffD2]
          queue_wf_queued_iff [OF wf', THEN iffD2])
  next
    case False
    with t have "prev_of q' z = prev_of q z" by (simp add: touches_def)
    then have "node_states q' z = node_states q z" by (rule node_states_cong)
    with False show ?thesis by simp
  qed
qed

lemma queue_wf_inv: "queue_wf S q ns \<Longrightarrow> queue_inv S q {} ns"
  and queue_wf_nodes: "queue_wf S q ns \<Longrightarrow> nodes_ok q {} (set ns)"
  by (simp_all add: queue_wf_def)

lemma lock_id: "\<not> q_locked q \<Longrightarrow> lock id q = Inr (q\<lparr>q_locked := True\<rparr>)"
  by (simp add: lock_def)

lemma unlock_simps [simp]:
  "node_states (unlock q) = node_states q" "queue_wf S (unlock q) ns = queue_wf S q ns"
  "q_locked (unlock q) = False" "unlock (q\<lparr>q_locked := True\<rparr>) = q\<lparr>q_locked := False\<rparr>"
  by (simp_all add: unlock_def)

lemma node_state_eq:
  assumes "\<not> q_locked q" and "node_states q p = Some st"
  shows "node_state p id q = Inr (case st of Unqueued \<Rightarrow> (NodeUnqueued, q)
    | Queued \<Rightarrow> (NodeQueued, q\<lparr>q_locked := True\<rparr>) | Dequeued \<Rightarrow> (NodeDequeued, q))"
proof -
  have "raw_state p (q\<lparr>q_locked := True\<rparr>) = Inr st" using assms by (intro raw_state_eq) simp
  then show ?thesis
    using assms raw_state_eq [OF assms(2)]
    by (cases st) (simp_all add: node_state_def state_from_raw_def lock_id)
qed

context queue_state
begin

text \<open>The four ways a queue changes its list, with the states of all nodes.\<close>

lemma wf_enqueue:
  assumes wf: "queue_wf S q ns" and y: "node_states q y = Some Unqueued" and chk: "check (q_tail q)"
  obtains q' where "enqueue S y check [] q = Inr (True, q')" "queue_wf S q' (ns @ [y])"
    "node_states q' = (node_states q)(y \<mapsto> Queued)" "frame q q'"
proof -
  have py: "prev_of q y = Some 0" using y by (simp add: node_states_iff)
  then have new: "node_addr y" "y \<notin> set ns" "cell q (NextRef y) = Some 0"
    using queue_wf_nodes [OF wf] by (auto simp: nodes_ok_def)
  obtain q' where q': "enqueue S y check [] q = Inr (True, q')" "queue_inv S q' {} (ns @ [y])"
    "touches (set (ns @ [y])) q q'"
    by (rule enqueue_ok [OF queue_wf_inv [OF wf] new(1,2) _ py new(3), where check = check])
      (use chk in auto)
  have wf': "queue_wf S q' (ns @ [y])"
    using q' nodes_ok_enqueue [OF queue_wf_nodes [OF wf] q'(3,2)] by (simp add: queue_wf_def)
  moreover have "node_states q' = (node_states q)(y \<mapsto> Queued)"
    using q'(3) queue_wf_queued_iff [OF wf', of y]
    by (intro node_states_touches [OF wf wf']) simp_all
  ultimately show ?thesis using q' by (intro that) (auto simp: touches_def)
qed

lemma wf_after_remove:
  assumes wf: "queue_wf S q ns" and x: "x \<in> set ns" and inv: "queue_inv S q' {} ns'"
    and p: "prev_of q' x = Some 1" and t: "touches (set ns) q q'"
    and ns: "set ns = insert x (set ns')" "x \<notin> set ns'"
  shows "queue_wf S q' ns'" and "node_states q' = (node_states q)(x \<mapsto> Dequeued)" and "frame q q'"
proof -
  have "nodes_ok q' {} (set ns - {x})"
    using queue_wf_nodes [OF wf] t inv p x ns(2,1) queue_inv_addr [OF queue_wf_inv [OF wf] x]
    by (rule nodes_ok_remove) simp
  then show wf': "queue_wf S q' ns'" using inv ns by (simp add: queue_wf_def insert_Diff_if)
  show "node_states q' = (node_states q)(x \<mapsto> Dequeued)"
    using x t p ns by (intro node_states_touches [OF wf wf']) (auto simp: node_states_iff insert_absorb)
  show "frame q q'" using t by (simp add: touches_def)
qed

lemma wf_remove:
  assumes wf: "queue_wf S q ns" and x: "x \<in> set ns" and new: "tail_to_enum S new_tail = State st"
  obtains q' where "remove S x new_tail w q = Inr (x = last ns, q')" "queue_wf S q' (remove1 x ns)"
    "node_states q' = (node_states q)(x \<mapsto> Dequeued)" "frame q q'"
    "remove1 x ns = [] \<longrightarrow> state_of S q' = Some st"
proof -
  obtain q' where q': "remove S x new_tail w q = Inr (x = last ns, q')" "queue_inv S q' {} (remove1 x ns)"
    "prev_of q' x = Some 1" "touches (set ns) q q'"
    "remove1 x ns = [] \<longrightarrow> tail_to_enum S (q_tail q') = State st"
    by (rule self_remove_ok [OF queue_wf_inv [OF wf] x new])
  have "set ns = insert x (set (remove1 x ns))" "x \<notin> set (remove1 x ns)"
    using x queue_inv_distinct [OF queue_wf_inv [OF wf]] by auto
  from wf_after_remove [OF wf x q'(2-4) this] q' show ?thesis
    by (intro that) (auto simp: state_of_def)
qed

lemma wf_dequeue:
  assumes wf: "queue_wf S q (x # xs)" and new: "tail_to_enum S new_tail = State st"
  obtains q' where "remove_with_prev S x new_tail False HEAD_MARKER q = Inr (xs = [], q')"
    "queue_wf S q' xs" "node_states q' = (node_states q)(x \<mapsto> Dequeued)" "frame q q'"
    "xs = [] \<longrightarrow> state_of S q' = Some st"
proof -
  obtain q' where q': "remove_with_prev S x new_tail False HEAD_MARKER q = Inr (xs = [], q')"
    "queue_inv S q' {} xs" "prev_of q' x = Some 1" "touches (set (x # xs)) q q'"
    "xs = [] \<longrightarrow> tail_to_enum S (q_tail q') = State st"
    by (rule dequeue_remove_ok [OF queue_wf_inv [OF wf] _ _ new, where w = False]) auto
  have "x \<in> set (x # xs)" "set (x # xs) = insert x (set xs)" "x \<notin> set xs"
    using queue_inv_distinct [OF queue_wf_inv [OF wf]] by auto
  from wf_after_remove [OF wf this(1) q'(2-4) this(2,3)] q' show ?thesis
    by (intro that) (auto simp: state_of_def)
qed

lemma wf_pop:
  assumes wf: "queue_wf S q (xs @ [x])" and new: "tail_to_enum S new_tail = State st"
  obtains q' where "remove S x new_tail w q = Inr (True, q')" "queue_wf S q' xs"
    "node_states q' = (node_states q)(x \<mapsto> Dequeued)" "frame q q'"
    "xs = [] \<longrightarrow> state_of S q' = Some st"
proof -
  have "distinct (xs @ [x])" using queue_inv_distinct [OF queue_wf_inv [OF wf]] .
  then have rem: "remove1 x (xs @ [x]) = xs" by (simp add: remove1_append)
  obtain q' where "remove S x new_tail w q = Inr (x = last (xs @ [x]), q')"
    "queue_wf S q' (remove1 x (xs @ [x]))" "node_states q' = (node_states q)(x \<mapsto> Dequeued)"
    "frame q q'" "remove1 x (xs @ [x]) = [] \<longrightarrow> state_of S q' = Some st"
    by (rule wf_remove [OF wf _ new, where w = w]) auto
  then show ?thesis unfolding rem by (intro that) auto
qed

lemma wf_reset:
  assumes wf: "queue_wf S q ns" and x: "node_states q x = Some Dequeued"
  obtains q' where "node_dequeued_reset x q = Inr q'" "queue_wf S q' ns"
    "node_states q' = (node_states q)(x \<mapsto> Unqueued)" "frame q q'" "q_tail q' = q_tail q"
proof -
  have px: "prev_of q x = Some 1" "x \<notin> set ns"
    using x queue_wf_queued_iff [OF wf, of x] by (auto simp: node_states_iff)
  have ax: "node_addr x" using queue_wf_nodes [OF wf] px by (auto simp: nodes_ok_def)
  obtain q1 where q1: "store_prev x 0 q = Inr q1" "cell q1 = cell q"
    "prev_of q1 = (prev_of q)(x \<mapsto> 0)" "q_tail q1 = q_tail q" "frame q q1"
    using px(1) by (rule store_prev_cell)
  have "cell q1 (NextRef x) \<noteq> None" using px(1) q1(2) by (auto simp: prev_of_def cell_def)
  then obtain u where "cell q1 (NextRef x) = Some u" by auto
  then obtain q2 where q2: "store_next (NextRef x) 0 q1 = Inr q2" "cell q2 = (cell q1)(NextRef x \<mapsto> 0)"
    "prev_of q2 = prev_of q1" "q_tail q2 = q_tail q1" "frame q1 q2"
    by (rule store_next_cell)
  have t: "touches {x} q q2"
    using q1 q2 by (auto simp: touches_def intro: frame_trans)
  have "chain (cell q2) (prev_of q2) {} HeadRef ns 0"
    by (rule chain_cong [OF queue_inv_chain [OF queue_wf_inv [OF wf]]])
      (use px(2) q1 q2 in \<open>auto simp: refs_def\<close>)
  then have "queue_inv S q2 {} ns"
    using queue_inv_tail [OF queue_wf_inv [OF wf]] q1 q2 by (simp add: queue_inv_def tail_node_def)
  moreover have "nodes_ok q2 {} (set ns)"
    by (rule nodes_ok_update [OF queue_wf_nodes [OF wf] t]) (use px(2) ax q1 q2 in auto)
  ultimately have wf2: "queue_wf S q2 ns" by (simp add: queue_wf_def)
  have "node_states q2 = (node_states q)(x \<mapsto> Unqueued)"
    using q1 q2 t by (intro node_states_touches [OF wf wf2]) (auto simp: node_states_iff touches_def)
  with wf2 q1 q2 t show ?thesis
    by (intro that [of q2]) (auto simp: node_dequeued_reset_def touches_def)
qed

lemma wf_alloc:
  assumes wf: "queue_wf S q ns" and p: "node_addr p" "q_links q p = None"
  shows "queue_wf S (node_with_data p d q) ns"
    and "node_states (node_with_data p d q) = (node_states q)(p \<mapsto> Unqueued)"
proof -
  let ?q = "node_with_data p d q"
  have pv: "prev_of ?q = (prev_of q)(p \<mapsto> 0)"
    and c: "cell ?q = (cell q)(NextRef p \<mapsto> 0)"
    by (auto simp: node_with_data_def prev_of_def cell_def node_link_new_def fun_eq_iff split: next_ref.splits)
  have notin: "p \<notin> set ns"
    using queue_wf_queued_iff [OF wf, of p] p(2) by (auto simp: node_states_def)
  have "chain (cell ?q) (prev_of ?q) {} HeadRef ns 0"
    by (rule chain_cong [OF queue_inv_chain [OF queue_wf_inv [OF wf]]])
      (use notin pv c in \<open>auto simp: refs_def\<close>)
  then have "queue_inv S ?q {} ns"
    using queue_inv_tail [OF queue_wf_inv [OF wf]]
    by (simp add: queue_inv_def tail_node_def node_with_data_def)
  moreover have "nodes_ok ?q {} (set ns)"
    using queue_wf_nodes [OF wf] p(1) notin by (auto simp: nodes_ok_def pv c)
  ultimately show "queue_wf S ?q ns" by (simp add: queue_wf_def)
  show "node_states ?q = (node_states q)(p \<mapsto> Unqueued)"
    by (auto simp: node_states_def node_with_data_def node_link_new_def link_state_def fun_eq_iff)
qed

lemma wf_free:
  assumes wf: "queue_wf S q ns" and p: "p \<notin> set ns"
  shows "queue_wf S (node_free p q) ns" and "node_states (node_free p q) = (node_states q)(p := None)"
proof -
  let ?q = "node_free p q"
  have pv: "prev_of ?q = (prev_of q)(p := None)"
    and c: "cell ?q = (cell q)(NextRef p := None)"
    by (auto simp: node_free_def prev_of_def cell_def fun_eq_iff split: next_ref.splits)
  have "chain (cell ?q) (prev_of ?q) {} HeadRef ns 0"
    by (rule chain_cong [OF queue_inv_chain [OF queue_wf_inv [OF wf]]])
      (use p pv c in \<open>auto simp: refs_def\<close>)
  then have "queue_inv S ?q {} ns"
    using queue_inv_tail [OF queue_wf_inv [OF wf]]
    by (simp add: queue_inv_def tail_node_def node_free_def)
  moreover have "nodes_ok ?q {} (set ns)"
    using queue_wf_nodes [OF wf] by (auto simp: nodes_ok_def pv c)
  ultimately show "queue_wf S ?q ns" by (simp add: queue_wf_def)
  show "node_states ?q = (node_states q)(p := None)"
    by (auto simp: node_states_def node_free_def fun_eq_iff)
qed

text \<open>Each client operation simulates the abstract one.\<close>

lemma frame_locked: "frame q q' \<Longrightarrow> q_locked q' = q_locked q"
  by (simp add: frame_def)

lemma sim_enqueue:
  assumes wf: "queue_wf S q ns" and free: "\<not> q_locked q"
  shows "\<exists>q'. queue_op_step S (OpEnqueue p) q = Inr (None, q')
    \<and> queue_rel S q' (snd (queue_op_spec (OpEnqueue p) (ns, node_states q)))"
proof (cases "node_states q p")
  case None
  moreover from None have "q_links q p = None" by (simp add: node_states_iff)
  ultimately show ?thesis using wf free by (simp add: queue_rel_def)
next
  case (Some st)
  then obtain l where live: "q_links q p = Some l" by (auto simp: node_states_def)
  show ?thesis
  proof (cases "st = Unqueued")
    case True
    then obtain q' where "enqueue S p (\<lambda>_. True) [] q = Inr (True, q')" "queue_wf S q' (ns @ [p])"
      "node_states q' = (node_states q)(p \<mapsto> Queued)" "frame q q'"
      using wf_enqueue [OF wf, of p "\<lambda>_. True"] Some by blast
    then show ?thesis
      using True Some live free node_state_eq [OF free Some]
      by (auto simp: queue_rel_def node_unqueued_enqueue_def frame_locked)
  next
    case False
    then show ?thesis
      using Some live wf free node_state_eq [OF free Some]
      by (cases st) (auto simp: queue_rel_def)
  qed
qed

lemma sim_remove:
  assumes wf: "queue_wf S q ns" and free: "\<not> q_locked q"
  shows "\<exists>q'. queue_op_step S (OpRemove p) q = Inr (None, q')
    \<and> queue_rel S q' (snd (queue_op_spec (OpRemove p) (ns, node_states q)))"
proof (cases "node_states q p")
  case None
  moreover from None have "q_links q p = None" by (simp add: node_states_iff)
  ultimately show ?thesis using wf free by (simp add: queue_rel_def)
next
  case (Some st)
  then obtain l where live: "q_links q p = Some l" by (auto simp: node_states_def)
  show ?thesis
  proof (cases "st = Queued")
    case True
    then have "p \<in> set ns" using queue_wf_queued_iff [OF wf, of p] Some by simp
    moreover have "queue_wf S (q\<lparr>q_locked := True\<rparr>) ns" using wf by simp
    ultimately obtain q' where "remove S p 0 False (q\<lparr>q_locked := True\<rparr>) = Inr (p = last ns, q')"
      "queue_wf S q' (remove1 p ns)" "node_states q' = (node_states q)(p \<mapsto> Dequeued)"
      using wf_remove [OF _ _ null_is_state, of "q\<lparr>q_locked := True\<rparr>" ns p False] by auto
    then show ?thesis
      using True Some live node_state_eq [OF free Some]
      by (auto simp: queue_rel_def node_queued_dequeue_def)
  next
    case False
    then show ?thesis
      using Some live wf free node_state_eq [OF free Some]
      by (cases st) (auto simp: queue_rel_def)
  qed
qed

lemma sim_reset:
  assumes wf: "queue_wf S q ns" and free: "\<not> q_locked q"
  shows "\<exists>q'. queue_op_step S (OpReset p) q = Inr (None, q')
    \<and> queue_rel S q' (snd (queue_op_spec (OpReset p) (ns, node_states q)))"
proof (cases "node_states q p")
  case None
  moreover from None have "q_links q p = None" by (simp add: node_states_iff)
  ultimately show ?thesis using wf free by (simp add: queue_rel_def)
next
  case (Some st)
  then obtain l where live: "q_links q p = Some l" by (auto simp: node_states_def)
  show ?thesis
  proof (cases "st = Dequeued")
    case True
    then obtain q' where "node_dequeued_reset p q = Inr q'" "queue_wf S q' ns"
      "node_states q' = (node_states q)(p \<mapsto> Unqueued)" "frame q q'"
      using wf_reset [OF wf, of p] Some by blast
    then show ?thesis
      using True Some live free node_state_eq [OF free Some]
      by (auto simp: queue_rel_def frame_locked)
  next
    case False
    then show ?thesis
      using Some live wf free node_state_eq [OF free Some]
      by (cases st) (auto simp: queue_rel_def)
  qed
qed

lemma sim_drop:
  assumes wf: "queue_wf S q ns" and free: "\<not> q_locked q"
  shows "\<exists>q'. queue_op_step S (OpDrop p) q = Inr (None, q')
    \<and> queue_rel S q' (snd (queue_op_spec (OpDrop p) (ns, node_states q)))"
proof (cases "node_states q p")
  case None
  then have "p \<notin> set ns" "(node_states q)(p := None) = node_states q" "q_links q p = None"
    using queue_wf_queued_iff [OF wf, of p] by (auto simp: node_states_iff(4) [symmetric])
  then show ?thesis using wf free by (simp add: queue_rel_def remove1_idem)
next
  case (Some st)
  then obtain l where live: "q_links q p = Some l" by (auto simp: node_states_def)
  show ?thesis
  proof (cases "st = Queued")
    case True
    then have p: "p \<in> set ns" using queue_wf_queued_iff [OF wf, of p] Some by simp
    moreover have "queue_wf S (q\<lparr>q_locked := True\<rparr>) ns" using wf by simp
    ultimately obtain q' where q': "remove S p 0 False (q\<lparr>q_locked := True\<rparr>) = Inr (p = last ns, q')"
      "queue_wf S q' (remove1 p ns)" "node_states q' = (node_states q)(p \<mapsto> Dequeued)"
      using wf_remove [OF _ _ null_is_state, of "q\<lparr>q_locked := True\<rparr>" ns p False] by auto
    have "raw_state p (q\<lparr>q_locked := True\<rparr>) = Inr Queued" "raw_state p q = Inr Queued"
      using Some True by (auto intro!: raw_state_eq)
    with q' live free have "queue_op_step S (OpDrop p) q = Inr (None, node_free p (unlock q'))"
      by (simp add: node_drop_def node_dequeue_def lock_id)
    moreover have "p \<notin> set (remove1 p ns)" using queue_inv_distinct [OF queue_wf_inv [OF wf]] by simp
    ultimately show ?thesis
      using q' wf_free [of "unlock q'" "remove1 p ns" p] by (auto simp: queue_rel_def node_free_def)
  next
    case False
    then have p: "p \<notin> set ns" using queue_wf_queued_iff [OF wf, of p] Some by simp
    have "queue_op_step S (OpDrop p) q = Inr (None, node_free p q)"
      using live raw_state_eq [OF Some] False by (simp add: node_drop_def)
    then show ?thesis
      using p free wf_free [OF wf p] by (auto simp: queue_rel_def node_free_def remove1_idem)
  qed
qed

lemma is_empty_or_lock_eq:
  assumes wf: "queue_wf S q ns" and free: "\<not> q_locked q"
  shows "is_empty_or_lock S id q = (if ns = [] then Inr (False, q) else Inr (True, q\<lparr>q_locked := True\<rparr>))"
proof -
  have "queue_inv S (q\<lparr>q_locked := True\<rparr>) {} ns" using queue_wf_inv [OF wf] by simp
  then show ?thesis
    using free is_empty_iff [OF queue_wf_inv [OF wf]] is_empty_iff [of S "q\<lparr>q_locked := True\<rparr>" "{}" ns]
    by (simp add: is_empty_or_lock_def lock_id)
qed

lemma sim_dequeue:
  assumes wf: "queue_wf S q ns" and free: "\<not> q_locked q"
  shows "\<exists>q'. queue_op_step S OpDequeue q = Inr (fst (queue_op_spec OpDequeue (ns, node_states q)), q')
    \<and> queue_rel S q' (snd (queue_op_spec OpDequeue (ns, node_states q)))"
proof (cases ns)
  case Nil
  with wf free show ?thesis by (simp add: is_empty_or_lock_eq [OF wf free] queue_rel_def)
next
  case (Cons x xs)
  let ?q = "q\<lparr>q_locked := True\<rparr>"
  have wfl: "queue_wf S ?q (x # xs)" using wf Cons by simp
  obtain q' where q': "remove_with_prev S x 0 False HEAD_MARKER ?q = Inr (xs = [], q')"
    "queue_wf S q' xs" "node_states q' = (node_states ?q)(x \<mapsto> Dequeued)"
    by (rule wf_dequeue [OF wfl null_is_state])
  have "locked_dequeue S ?q = Inr (Some x)" using locked_dequeue_eq [OF queue_wf_inv [OF wfl]] by simp
  with q' Cons show ?thesis
    by (simp add: is_empty_or_lock_eq [OF wf free] dequeue_drop_def queue_rel_def)
qed

lemma sim_pop:
  assumes wf: "queue_wf S q ns" and free: "\<not> q_locked q"
  shows "\<exists>q'. queue_op_step S OpPop q = Inr (fst (queue_op_spec OpPop (ns, node_states q)), q')
    \<and> queue_rel S q' (snd (queue_op_spec OpPop (ns, node_states q)))"
proof (cases ns rule: rev_cases)
  case Nil
  with wf free show ?thesis by (simp add: is_empty_or_lock_eq [OF wf free] queue_rel_def)
next
  case (snoc xs x)
  let ?q = "q\<lparr>q_locked := True\<rparr>"
  have wfl: "queue_wf S ?q (xs @ [x])" using wf snoc by simp
  obtain q' where q': "remove S x 0 True ?q = Inr (True, q')"
    "queue_wf S q' xs" "node_states q' = (node_states ?q)(x \<mapsto> Dequeued)"
    by (rule wf_pop [OF wfl null_is_state])
  have "locked_pop S ?q = Some x" using locked_pop_eq [OF queue_wf_inv [OF wfl]] by simp
  with q' snoc show ?thesis
    by (simp add: is_empty_or_lock_eq [OF wf free] pop_drop_def queue_rel_def)
qed

lemma sim_op:
  assumes "queue_rel S q a"
  shows "\<exists>q'. queue_op_step S op q = Inr (fst (queue_op_spec op a), q')
    \<and> queue_rel S q' (snd (queue_op_spec op a))"
proof -
  obtain ns where a: "a = (ns, node_states q)" and wf: "queue_wf S q ns" and free: "\<not> q_locked q"
    using assms by (cases a) (auto simp: queue_rel_def)
  show ?thesis
  proof (cases op)
    case (OpNew p d)
    then show ?thesis
      using wf free wf_alloc [OF wf, of p d] unfolding a
      by (auto simp: queue_rel_def node_states_iff) (simp add: node_with_data_def)
  next
    case OpDequeue
    with sim_dequeue [OF wf free] show ?thesis unfolding a by simp
  next
    case OpPop
    with sim_pop [OF wf free] show ?thesis unfolding a by simp
  qed (use sim_enqueue [OF wf free] sim_remove [OF wf free] sim_reset [OF wf free]
      sim_drop [OF wf free] in \<open>auto simp: a\<close>)
qed

end

lemma queue_wf_addr: "queue_wf S q ns \<Longrightarrow> node_states q p \<noteq> None \<Longrightarrow> node_addr p"
  using queue_wf_nodes [of S q ns] by (auto simp: nodes_ok_def node_states_def prev_of_def)

lemma node_dequeue_ok:
  assumes S: "queue_state S valid dflt" and wf: "queue_wf S (gap q) ns" and free: "\<not> q_locked (gap q)"
    and live: "node_states (gap q) p \<noteq> None"
  shows "\<exists>q'. node_dequeue S p gap q = Inr q' \<and> queue_wf S q' (remove1 p ns)"
proof -
  let ?q = "(gap q)\<lparr>q_locked := True\<rparr>"
  have l: "lock gap q = Inr ?q" using free by (simp add: lock_def)
  have wfl: "queue_wf S ?q ns" using wf by simp
  obtain st where st: "node_states (gap q) p = Some st" using live by auto
  then have raw: "raw_state p ?q = Inr st" by (intro raw_state_eq) simp
  show ?thesis
  proof (cases "st = Queued")
    case True
    then have p: "p \<in> set ns" using st queue_wf_queued_iff [OF wf] by simp
    obtain q' where "remove S p 0 False ?q = Inr (p = last ns, q')" "queue_wf S q' (remove1 p ns)"
      using queue_state.wf_remove [OF S wfl p queue_state.null_is_state [OF S]] by metis
    with l raw True show ?thesis by (simp add: node_dequeue_def)
  next
    case False
    then have "p \<notin> set ns" using st queue_wf_queued_iff [OF wf, of p] by simp
    with l raw False wfl show ?thesis by (simp add: node_dequeue_def remove1_idem)
  qed
qed

sublocale queue_state \<subseteq> api: simulation "queue_rel S" "queue_op_step S" queue_op_spec
  by unfold_locales (rule sim_op)

lemma queue_simulation:
  "queue_state S valid dflt \<Longrightarrow> simulation (queue_rel S) (queue_op_step S) queue_op_spec"
  by (rule simulation.intro) (rule queue_state.sim_op)

lemma queue_new_rel: "queue_state S valid dflt \<Longrightarrow> queue_rel S queue_new ([], Map.empty)"
  using queue_state.null_is_state [of S valid dflt]
  by (auto simp: queue_rel_def queue_wf_def queue_inv_def nodes_ok_def chain_def queue_new_def new_impl_def
      tail_node_def prev_of_def cell_def node_states_def refs_def)

lemma queue_wf_no_pointer:
  assumes wf: "queue_wf S q ns" and p: "p \<notin> set ns" and ne: "p \<noteq> 0" "p \<noteq> HEAD_MARKER"
  shows "tail_node S q \<noteq> Some p" and "r \<in> refs HeadRef ns \<Longrightarrow> cell q r \<noteq> Some p"
    and "x \<in> set ns \<Longrightarrow> prev_of q x \<noteq> Some p"
proof -
  note inv = queue_wf_inv [OF wf]
  show "tail_node S q \<noteq> Some p" using queue_inv_tail [OF inv] p last_in_set [of ns] by auto
  show "cell q r \<noteq> Some p" if "r \<in> refs HeadRef ns"
    using chain_cell [OF queue_inv_chain [OF inv] that] p ne succ_SomeD [of HeadRef ns r]
    by (auto split: option.splits)
  show "prev_of q x \<noteq> Some p" if x: "x \<in> set ns"
  proof -
    obtain r where r: "succ HeadRef ns r = Some x"
      using succ_exists [of HeadRef ns x] queue_inv_distinct [OF inv] x by auto
    then have "r \<in> refs HeadRef ns" by (auto dest: succ_SomeD)
    with queue_inv_at(6) [OF inv r] p ne show ?thesis by (auto simp: refs_def)
  qed
qed

lemma alloc_rel:
  assumes "queue_state S valid dflt" and "queue_rel S q (ns, st)" and "node_addr p" and "st p = None"
  shows "queue_rel S (node_with_data p d q) (ns, st(p \<mapsto> Unqueued))"
  using queue_state.sim_op [OF assms(1,2), of "OpNew p d"] assms by (auto simp: queue_rel_def node_states_iff)

lemma spec_enqueue_all:
  "(\<And>p. p \<in> set ps \<Longrightarrow> st p = Some Unqueued) \<Longrightarrow> distinct ps \<Longrightarrow>
   run_spec queue_op_spec (map OpEnqueue ps :: 'd queue_op list) (ns, st)
   = (map (\<lambda>_. None) ps, ns @ ps, \<lambda>p. if p \<in> set ps then Some Queued else st p)"
proof (induction ps arbitrary: ns st)
  case (Cons p ps)
  then have "run_spec queue_op_spec (map OpEnqueue ps :: 'd queue_op list) (ns @ [p], st(p \<mapsto> Queued))
    = (map (\<lambda>_. None) ps, (ns @ [p]) @ ps, \<lambda>z. if z \<in> set ps then Some Queued else (st(p \<mapsto> Queued)) z)"
    by (intro Cons.IH) auto
  with Cons.prems show ?case by (auto simp: Let_def fun_eq_iff)
qed simp

lemma spec_dequeue_all:
  "length ns = n \<Longrightarrow> \<exists>st'. run_spec queue_op_spec (replicate n (OpDequeue :: 'd queue_op)) (ns, st) = (map Some ns, [], st')"
proof (induction ns arbitrary: n st)
  case (Cons x xs)
  then obtain st' where "run_spec queue_op_spec (replicate (length xs) (OpDequeue :: 'd queue_op)) (xs, st(x \<mapsto> Dequeued))
    = (map Some xs, [], st')" by blast
  with Cons.prems show ?case by (auto simp: Let_def)
qed simp

lemma run_spec_append:
  "run_spec step (xs @ ys) a = (let (os, a) = run_spec step xs a; (os', a) = run_spec step ys a in (os @ os', a))"
  by (induction xs arbitrary: a) (simp_all add: Let_def split_beta)

lemma spec_fifo:
  assumes "\<And>p. p \<in> set ps \<Longrightarrow> st p = Some Unqueued" and "distinct ps"
  shows "\<exists>st'. run_spec queue_op_spec (map OpEnqueue ps @ replicate (length ps) (OpDequeue :: 'd queue_op)) ([], st)
    = (map (\<lambda>_. None) ps @ map Some ps, [], st')"
proof -
  let ?st = "\<lambda>p. if p \<in> set ps then Some Queued else st p"
  obtain st' where "run_spec queue_op_spec (replicate (length ps) (OpDequeue :: 'd queue_op)) (ps, ?st)
    = (map Some ps, [], st')"
    using spec_dequeue_all [OF refl] by blast
  then show ?thesis by (simp add: run_spec_append spec_enqueue_all [OF assms])
qed

section \<open>Properties\<close>

text \<open>
  C1. The queue refines the list it stands for. From related states, every sequence of client
  operations (allocating and dropping nodes, enqueueing, removing and resetting them, dequeueing
  and popping) runs to its end without panic, deadlock or undefined behaviour, returns exactly
  the nodes that the abstract list returns, and ends in a well-formed queue whose list and node
  states are the abstract ones.
\<close>

theorem queue_refines_list:
  assumes "queue_state S valid dflt" and "queue_rel S q a"
  shows "\<exists>q'. run_impl (queue_op_step S) ops q = Inr (fst (run_spec queue_op_spec ops a), q')
    \<and> queue_rel S q' (snd (run_spec queue_op_spec ops a))"
  using simulation.run_refines [OF queue_simulation [OF assms(1)] assms(2)] .

theorem queue_refines_list_witness:
  "\<exists>q'. run_impl (queue_op_step usize_state)
       [OpNew 4096 (7::nat), OpNew 8192 8, OpNew 12288 9, OpEnqueue 4096, OpEnqueue 8192,
        OpEnqueue 12288, OpRemove 8192, OpPop, OpDrop 8192, OpDequeue, OpDequeue] queue_new
     = Inr ([None, None, None, None, None, None, None, Some 12288, None, Some 4096, None], q')
     \<and> queue_rel usize_state q' ([], [4096 \<mapsto> Dequeued, 12288 \<mapsto> Dequeued])"
proof -
  have new: "queue_rel usize_state (queue_new :: nat queue) ([], Map.empty)"
    by (rule queue_new_rel [OF usize_qs.queue_state_axioms])
  have "[4096 \<mapsto> Dequeued, 12288 \<mapsto> Dequeued] = (Map.empty(8192 \<mapsto> Queued,
      8192 \<mapsto> Dequeued, 12288 \<mapsto> Dequeued, 8192 := None, 4096 \<mapsto> Dequeued) :: addr \<rightharpoonup> raw_node_state)"
    by (auto simp: fun_eq_iff)
  then show ?thesis
    using queue_refines_list [OF usize_qs.queue_state_axioms new,
        of "[OpNew 4096 7, OpNew 8192 8, OpNew 12288 9, OpEnqueue 4096, OpEnqueue 8192,
        OpEnqueue 12288, OpRemove 8192, OpPop, OpDrop 8192, OpDequeue, OpDequeue]"]
    by (simp add: node_addr_def fun_upd_twist)
qed

text \<open>
  First in, first out: nodes enqueued on an empty queue in some order are dequeued in that
  order, and the queue is empty again.
\<close>

theorem enqueue_dequeue_fifo:
  fixes q :: "'d queue"
  assumes "queue_state S valid dflt" and "queue_rel S q ([], st)" and "distinct ps"
    and "\<forall>p\<in>set ps. st p = Some Unqueued"
  shows "\<exists>q'. run_impl (queue_op_step S) (map OpEnqueue ps @ replicate (length ps) OpDequeue) q
    = Inr (map (\<lambda>_. None) ps @ map Some ps, q') \<and> is_empty S q'"
proof -
  let ?ops = "map OpEnqueue ps @ replicate (length ps) OpDequeue :: 'd queue_op list"
  obtain st' where spec: "run_spec queue_op_spec ?ops ([], st) = (map (\<lambda>_. None) ps @ map Some ps, [], st')"
    using spec_fifo [of ps st] assms(3,4) by blast
  obtain q' where "run_impl (queue_op_step S) ?ops q = Inr (map (\<lambda>_. None) ps @ map Some ps, q')"
    "queue_rel S q' ([], st')"
    using simulation.run_refines [OF queue_simulation [OF assms(1)] assms(2), of ?ops] spec by auto
  then show ?thesis using is_empty_iff [OF queue_wf_inv, of S q' "[]"] by (auto simp: queue_rel_def)
qed

theorem enqueue_dequeue_fifo_witness:
  "\<exists>q'. run_impl (queue_op_step unit_state)
       [OpEnqueue 8192, OpEnqueue 4096, OpDequeue, OpDequeue]
       (node_with_data 4096 (1::nat) (node_with_data 8192 2 queue_new))
     = Inr ([None, None, Some 8192, Some 4096], q') \<and> is_empty unit_state q'"
proof -
  let ?q = "node_with_data 4096 (1::nat) (node_with_data 8192 2 queue_new)"
  have "queue_rel unit_state ?q ([], Map.empty(8192 \<mapsto> Unqueued, 4096 \<mapsto> Unqueued))"
    by (intro alloc_rel [OF unit_qs.queue_state_axioms] queue_new_rel [OF unit_qs.queue_state_axioms])
      (simp_all add: node_addr_def)
  from enqueue_dequeue_fifo [OF unit_qs.queue_state_axioms this, of "[8192, 4096]"]
  show ?thesis by (simp del: run_impl.simps)
qed

text \<open>
  C13. Dropping a node leaves no pointer to it behind. The drop reads the state without the lock and
  takes the lock only for a queued node, so other threads (\<open>gap\<close>) may have dequeued the
  node or anything else before the lock is granted; in every case the drop returns, the node's
  memory is gone, and neither the tail, nor the head, nor any link of a queued node holds its
  address.
\<close>

theorem node_drop_no_dangling:
  assumes S: "queue_state S valid dflt" and wf: "queue_wf S q ns" and live: "node_states q p \<noteq> None"
    and wf': "queue_wf S (gap q) ns'" and live': "node_states (gap q) p \<noteq> None"
    and free: "\<not> q_locked (gap q)"
  shows "\<exists>q' ms. node_drop S p gap q = Inr q' \<and> q_links q' p = None \<and> queue_wf S q' ms
    \<and> ms = (if p \<in> set ns then remove1 p ns' else ns)
    \<and> tail_node S q' \<noteq> Some p \<and> (\<forall>r\<in>refs HeadRef ms. cell q' r \<noteq> Some p)
    \<and> (\<forall>x\<in>set ms. prev_of q' x \<noteq> Some p)"
proof -
  let ?ms = "if p \<in> set ns then remove1 p ns' else ns"
  obtain st where st: "node_states q p = Some st" using live by auto
  have queued: "st = Queued \<longleftrightarrow> p \<in> set ns" using st queue_wf_queued_iff [OF wf, of p] by simp
  obtain q1 where q1: "(if st = Queued then node_dequeue S p gap q else Inr q) = Inr q1" "queue_wf S q1 ?ms"
    using node_dequeue_ok [of S valid dflt gap q ns' p] S wf' free live' wf queued by auto
  have notin: "p \<notin> set ?ms" using queue_inv_distinct [OF queue_wf_inv [OF wf']] by auto
  have run: "node_drop S p gap q = Inr (node_free p q1)"
    using q1(1) raw_state_eq [OF st] by (simp add: node_drop_def split: if_splits)
  have wf2: "queue_wf S (node_free p q1) ?ms" by (rule queue_state.wf_free [OF S q1(2) notin])
  have "p \<noteq> 0" "p \<noteq> HEAD_MARKER" using queue_wf_addr [OF wf live] by auto
  with queue_wf_no_pointer [OF wf2 notin] run wf2 show ?thesis
    by (intro exI [of _ "node_free p q1"] exI [of _ ?ms]) (simp add: node_free_def)
qed

text \<open>A concrete queue with the nodes 4096 and 8192, in this order.\<close>

definition two_nodes :: "nat queue" where
  "two_nodes = \<lparr>q_tail = 8193, q_head = 4096, q_locked = False,
     q_links = [4096 \<mapsto> \<lparr>link_prev = 2, link_next = 8192\<rparr>, 8192 \<mapsto> \<lparr>link_prev = 4096, link_next = 0\<rparr>],
     q_data = [4096 \<mapsto> 1, 8192 \<mapsto> 2]\<rparr>"

lemma example_addrs: "node_addr 4096" "node_addr 8192"
  by (simp_all add: node_addr_def)

lemma two_nodes_wf: "queue_wf usize_state two_nodes [4096, 8192]"
proof -
  have "chain (cell two_nodes) (prev_of two_nodes) {} HeadRef [4096, 8192] 0"
  proof (rule chainI)
    show "cell two_nodes r = Some (case succ HeadRef [4096, 8192] r of None \<Rightarrow> 0
        | Some y \<Rightarrow> if y \<in> {} then 0 else y)" if "r \<in> refs HeadRef [4096, 8192]" for r
      using that by (auto simp: refs_def cell_def two_nodes_def)
    show "prev_of two_nodes y = Some (ref_ptr r)" if "succ HeadRef [4096, 8192] r = Some y" for r y
      using that by (auto simp: prev_of_def two_nodes_def HEAD_MARKER_def into_ptr_def split: if_splits)
  qed (simp, auto simp: example_addrs)
  moreover have "tail_node usize_state two_nodes = Some 8192"
    by (simp add: tail_node_def usize_state_def TAIL_FLAG_def two_nodes_def)
  ultimately have "queue_inv usize_state two_nodes {} [4096, 8192]"
    by (simp add: queue_inv_def)
  moreover have "nodes_ok two_nodes {} {4096, 8192}"
    by (auto simp: nodes_ok_def two_nodes_def prev_of_def cell_def example_addrs split: if_splits)
  ultimately show ?thesis by (simp add: queue_wf_def)
qed

theorem node_drop_no_dangling_witness:
  "\<exists>q' ms. node_drop usize_state 4096 id two_nodes = Inr q' \<and> q_links q' 4096 = None
    \<and> queue_wf usize_state q' ms \<and> ms = [8192]
    \<and> tail_node usize_state q' \<noteq> Some 4096 \<and> (\<forall>r\<in>refs HeadRef ms. cell q' r \<noteq> Some 4096)
    \<and> (\<forall>x\<in>set ms. prev_of q' x \<noteq> Some 4096)"
  using node_drop_no_dangling [OF usize_qs.queue_state_axioms two_nodes_wf, of 4096 id "[4096, 8192]"] two_nodes_wf
  by (simp add: node_states_def two_nodes_def)

text \<open>
  C16. \<^verbatim>\<open>Dequeue::try_set_queue_state\<close> is exact: it removes the head, returns whether
  the queue is empty now, and installs the given state in that case and only then.
\<close>

theorem dequeue_try_set_state_exact:
  assumes S: "queue_state S valid dflt" and wf: "queue_wf S q (x # xs)" and st: "valid st"
  shows "\<exists>q'. dequeue_try_set_queue_state S x st q = Inr (xs = [], q') \<and> queue_wf S q' xs
    \<and> node_states q' = (node_states q)(x \<mapsto> Dequeued)
    \<and> state_of S q' = (if xs = [] then Some st else None)"
proof -
  obtain w where w: "enum_to_tail S (State st) = Inr w" "tail_to_enum S w = State st"
    using queue_state.state_encodable [OF S st] by blast
  obtain q' where q': "remove_with_prev S x w False HEAD_MARKER q = Inr (xs = [], q')"
    "queue_wf S q' xs" "node_states q' = (node_states q)(x \<mapsto> Dequeued)"
    "xs = [] \<longrightarrow> state_of S q' = Some st"
    using queue_state.wf_dequeue [OF S wf w(2)] by metis
  moreover have "xs \<noteq> [] \<Longrightarrow> state_of S q' = None"
    using is_empty_iff [OF queue_wf_inv [OF q'(2)]] by (simp add: is_empty_def)
  ultimately show ?thesis using w by (auto simp: dequeue_try_set_queue_state_def)
qed

theorem dequeue_try_set_state_exact_witness:
  "\<exists>q'. dequeue_try_set_queue_state usize_state 4096 5 two_nodes = Inr (False, q')
    \<and> queue_wf usize_state q' [8192] \<and> node_states q' = (node_states two_nodes)(4096 \<mapsto> Dequeued)
    \<and> state_of usize_state q' = None"
  using dequeue_try_set_state_exact [OF usize_qs.queue_state_axioms two_nodes_wf, of 5]
  by (simp add: max_state_value)

text \<open>
  C17. The flag that \<^verbatim>\<open>remove\<close> returns, and with it
  \<^verbatim>\<open>Pop::try_set_queue_state\<close> and
  \<^verbatim>\<open>NodeQueued::dequeue_try_set_queue_state\<close>, says that the removed node was the
  tail, not that the queue became empty. Removing the tail of a queue of two or more nodes reports
  success although the queue still has nodes and the state was not stored.
\<close>

theorem pop_try_set_state_overreports:
  assumes S: "queue_state S valid dflt" and wf: "queue_wf S q (xs @ [x])" and st: "valid st"
    and two: "xs \<noteq> []"
  shows "(\<exists>q'. pop_try_set_queue_state S x st q = Inr (True, q') \<and> queue_wf S q' xs
      \<and> \<not> is_empty S q' \<and> state_of S q' = None)
    \<and> (\<exists>q'. node_queued_dequeue_try_set_queue_state S x st q = Inr (True, q') \<and> queue_wf S q' xs
      \<and> \<not> is_empty S q' \<and> state_of S q' = None)"
proof -
  obtain w where w: "enum_to_tail S (State st) = Inr w" "tail_to_enum S w = State st"
    using queue_state.state_encodable [OF S st] by blast
  have "\<exists>q'. remove S x w b q = Inr (True, q') \<and> queue_wf S q' xs \<and> \<not> is_empty S q' \<and> state_of S q' = None"
    for b
  proof -
    obtain q' where q': "remove S x w b q = Inr (True, q')" "queue_wf S q' xs"
      using queue_state.wf_pop [OF S wf w(2)] by metis
    with two is_empty_iff [OF queue_wf_inv [OF q'(2)]] show ?thesis by (simp add: is_empty_def)
  qed
  with w show ?thesis
    by (simp add: pop_try_set_queue_state_def node_queued_dequeue_try_set_queue_state_def)
qed

theorem pop_try_set_state_overreports_witness:
  "\<exists>q'. pop_try_set_queue_state usize_state 8192 5 two_nodes = Inr (True, q')
     \<and> queue_wf usize_state q' [4096] \<and> \<not> is_empty usize_state q' \<and> state_of usize_state q' = None"
proof -
  have "queue_wf usize_state two_nodes ([4096] @ [8192])" using two_nodes_wf by simp
  from pop_try_set_state_overreports [OF usize_qs.queue_state_axioms this, of 5]
  show ?thesis by (simp add: max_state_value)
qed

end
