(* ===== verification/Concurrent.thy ===== *)
theory Concurrent
  imports Node
begin

text \<open>
  The queue as a concurrent machine. Threads insert nodes at any time without the lock, while the
  holder of the lock dequeues, pops and removes nodes; each action is one atomic access to shared
  memory, in an arbitrary interleaving and sequentially consistent. The sequential theories
  \<open>Queue\<close> and \<open>Node\<close> run each operation as a whole; here the operations of
  \<^verbatim>\<open>src/queue.rs\<close> are cut at every access:

  \<^item> \<open>cq_enq y\<close> is the program counter of \<^verbatim>\<open>Queue::enqueue\<close> on the node
    \<open>y\<close> (its owner runs it): \<open>ELoaded t\<close> before the store to the node's \<open>prev\<close>,
    \<open>EStored t\<close> before the exchange of the tail \<open>t\<close>, \<open>ELink r\<close> before the
    store of the link \<open>r\<close>.
  \<^item> \<open>cq_hold\<close> is the program counter of the lock holder in \<^verbatim>\<open>dequeue\<close>,
    \<^verbatim>\<open>pop\<close> and \<^verbatim>\<open>remove_with_prev\<close>.

  A load in \<^verbatim>\<open>get_next\<close> that finds null is the fault \<open>WouldBlock\<close>: the holder
  waits and tries again later.
\<close>

section \<open>The machine\<close>

datatype enqueue_pc = EIdle | ELoaded usize | EStored usize | ELink next_ref

datatype holder_pc =
    HNone | HHeld | HHead | HDequeue addr
  | HWaitPrev addr usize addr | HRemove addr usize addr | HNull addr usize addr | HCas addr usize addr
  | HWaitNext addr addr | HUnlink addr addr addr | HRelink addr addr addr | HMark addr

record 'd cqueue =
  cq_mem :: "'d queue"
  cq_enq :: "addr \<Rightarrow> enqueue_pc"
  cq_hold :: holder_pc

text \<open>
  \<^verbatim>\<open>enqueue\<close>: \<open>spurious\<close> says that the weak exchange fails although the tail
  is the expected one.
\<close>

definition enq_step ::
  "'s state_ops \<Rightarrow> (usize \<Rightarrow> bool) \<Rightarrow> bool \<Rightarrow> addr \<Rightarrow> 'd cqueue \<Rightarrow> 'd cqueue res" where
  "enq_step S check_tail spurious y s =
     (let q = cq_mem s; pc = (\<lambda>c. (cq_enq s)(y := c)) in
      case cq_enq s y of
        EIdle \<Rightarrow> Inr (s\<lparr>cq_enq := pc (ELoaded (q_tail q))\<rparr>)
      | ELoaded tail \<Rightarrow>
          if \<not> check_tail tail
          then bind_res (store_prev y 0 q) (\<lambda>q. Inr (s\<lparr>cq_mem := q, cq_enq := pc EIdle\<rparr>))
          else bind_res (store_prev y (prev_ptr_of (sop_tail (tail_to_enum S tail))) q) (\<lambda>q.
                 Inr (s\<lparr>cq_mem := q, cq_enq := pc (EStored tail)\<rparr>))
      | EStored tail \<Rightarrow>
          bind_res (enum_to_tail S (Ptr y)) (\<lambda>new_tail.
            if \<not> spurious \<and> q_tail q = tail
            then Inr (s\<lparr>cq_mem := q\<lparr>q_tail := new_tail\<rparr>,
                        cq_enq := pc (ELink (prev_next_of (sop_tail (tail_to_enum S tail))))\<rparr>)
            else Inr (s\<lparr>cq_enq := pc (ELoaded (q_tail q))\<rparr>))
      | ELink prev_next \<Rightarrow>
          bind_res (store_next prev_next y q) (\<lambda>q. Inr (s\<lparr>cq_mem := q, cq_enq := pc EIdle\<rparr>)))"

definition hold_step :: "'s state_ops \<Rightarrow> 'd cqueue \<Rightarrow> 'd cqueue res" where
  "hold_step S s =
     (let q = cq_mem s in
      case cq_hold s of
        HHead \<Rightarrow> bind_res (get_next HeadRef q) (\<lambda>x. Inr (s\<lparr>cq_hold := HDequeue x\<rparr>))
      | HWaitPrev x nt p \<Rightarrow>
          bind_res (get_next (ptr_ref p) q) (\<lambda>z.
            if z = x then Inr (s\<lparr>cq_hold := HRemove x nt p\<rparr>) else Inl (Panic ''assertion failed''))
      | HRemove x nt p \<Rightarrow>
          bind_res (load_next (NextRef x) q) (\<lambda>n.
            Inr (s\<lparr>cq_hold := if n = 0 then HNull x nt p else HUnlink x n p\<rparr>))
      | HNull x nt p \<Rightarrow>
          bind_res (store_next (ptr_ref p) 0 q) (\<lambda>q. Inr (s\<lparr>cq_mem := q, cq_hold := HCas x nt p\<rparr>))
      | HCas x nt p \<Rightarrow>
          bind_res (if p = HEAD_MARKER then Inr nt else enum_to_tail S (Ptr p)) (\<lambda>nt.
          bind_res (enum_to_tail S (Ptr x)) (\<lambda>node_ptr.
            if q_tail q = node_ptr then Inr (s\<lparr>cq_mem := q\<lparr>q_tail := nt\<rparr>, cq_hold := HMark x\<rparr>)
            else Inr (s\<lparr>cq_hold := HWaitNext x p\<rparr>)))
      | HWaitNext x p \<Rightarrow> bind_res (get_next (NextRef x) q) (\<lambda>n. Inr (s\<lparr>cq_hold := HUnlink x n p\<rparr>))
      | HUnlink x n p \<Rightarrow>
          bind_res (store_prev n p q) (\<lambda>q. Inr (s\<lparr>cq_mem := q, cq_hold := HRelink x n p\<rparr>))
      | HRelink x n p \<Rightarrow>
          bind_res (store_next (ptr_ref p) n q) (\<lambda>q. Inr (s\<lparr>cq_mem := q, cq_hold := HMark x\<rparr>))
      | HMark x \<Rightarrow>
          bind_res (store_prev x (into_ptr Dequeued) q) (\<lambda>q. Inr (s\<lparr>cq_mem := q, cq_hold := HHeld\<rparr>))
      | _ \<Rightarrow> Inr s)"

text \<open>
  The actions of the clients. The owner of a node allocates, frees, resets and enqueues it; the lock
  holder starts operations; a state can be exchanged for another while the queue is empty.
\<close>

datatype 'd action =
    AAlloc addr 'd | AFree addr | AReset addr | AEnqueue addr bool
  | ALock | AUnlock | ADequeue | ARequeue | AFinish usize | APop usize | ARemove addr usize | AHold
  | ASetState usize

fun act :: "'s state_ops \<Rightarrow> (usize \<Rightarrow> bool) \<Rightarrow> 'd action \<Rightarrow> 'd cqueue \<Rightarrow> 'd cqueue res" where
  "act S chk (AAlloc p d) s = Inr (s\<lparr>cq_mem := node_with_data p d (cq_mem s)\<rparr>)"
| "act S chk (AFree p) s = Inr (s\<lparr>cq_mem := node_free p (cq_mem s)\<rparr>)"
| "act S chk (AReset p) s = bind_res (node_dequeued_reset p (cq_mem s)) (\<lambda>q. Inr (s\<lparr>cq_mem := q\<rparr>))"
| "act S chk (AEnqueue y spurious) s = enq_step S chk spurious y s"
| "act S chk ALock s = bind_res (lock id (cq_mem s)) (\<lambda>q. Inr (s\<lparr>cq_mem := q, cq_hold := HHeld\<rparr>))"
| "act S chk AUnlock s = Inr (s\<lparr>cq_mem := unlock (cq_mem s), cq_hold := HNone\<rparr>)"
| "act S chk ADequeue s =
     (case tail_node S (cq_mem s) of None \<Rightarrow> Inr s | Some _ \<Rightarrow> Inr (s\<lparr>cq_hold := HHead\<rparr>))"
| "act S chk ARequeue s = Inr (s\<lparr>cq_hold := HHeld\<rparr>)"
| "act S chk (AFinish nt) s =
     (case cq_hold s of HDequeue x \<Rightarrow> Inr (s\<lparr>cq_hold := HRemove x nt HEAD_MARKER\<rparr>) | _ \<Rightarrow> Inr s)"
| "act S chk (APop nt) s =
     (case tail_node S (cq_mem s) of None \<Rightarrow> Inr s
      | Some x \<Rightarrow> bind_res (load_prev x (cq_mem s)) (\<lambda>p. Inr (s\<lparr>cq_hold := HWaitPrev x nt p\<rparr>)))"
| "act S chk (ARemove x nt) s =
     bind_res (load_prev x (cq_mem s)) (\<lambda>p. Inr (s\<lparr>cq_hold := HRemove x nt p\<rparr>))"
| "act S chk AHold s = hold_step S s"
| "act S chk (ASetState w) s = Inr (s\<lparr>cq_mem := (cq_mem s)\<lparr>q_tail := w\<rparr>\<rparr>)"

text \<open>
  When a client may act: what the types and the safety contracts of the interface enforce. A node
  is freed, reset or enqueued only in the right state and while no \<^verbatim>\<open>enqueue\<close> of it is
  running; only the lock holder removes; a node removes itself after its \<^verbatim>\<open>enqueue\<close>
  has returned.
\<close>

definition is_state :: "'s state_ops \<Rightarrow> usize \<Rightarrow> bool" where
  "is_state S w \<longleftrightarrow> sop_state (tail_to_enum S w) \<noteq> None"

fun enabled :: "'s state_ops \<Rightarrow> 'd action \<Rightarrow> 'd cqueue \<Rightarrow> bool" where
  "enabled S (AAlloc p d) s \<longleftrightarrow> node_addr p \<and> q_links (cq_mem s) p = None"
| "enabled S (AFree p) s \<longleftrightarrow> cq_enq s p = EIdle \<and> (prev_of (cq_mem s) p = Some 0 \<or> prev_of (cq_mem s) p = Some 1)"
| "enabled S (AReset p) s \<longleftrightarrow> cq_enq s p = EIdle \<and> prev_of (cq_mem s) p = Some 1"
| "enabled S (AEnqueue y spurious) s \<longleftrightarrow> cq_enq s y \<noteq> EIdle \<or> prev_of (cq_mem s) y = Some 0"
| "enabled S ALock s \<longleftrightarrow> cq_hold s = HNone"
| "enabled S AUnlock s \<longleftrightarrow> cq_hold s = HHeld"
| "enabled S ADequeue s \<longleftrightarrow> cq_hold s = HHeld"
| "enabled S ARequeue s \<longleftrightarrow> (case cq_hold s of HDequeue _ \<Rightarrow> True | _ \<Rightarrow> False)"
| "enabled S (AFinish nt) s \<longleftrightarrow> (case cq_hold s of HDequeue _ \<Rightarrow> True | _ \<Rightarrow> False) \<and> is_state S nt"
| "enabled S (APop nt) s \<longleftrightarrow> cq_hold s = HHeld \<and> is_state S nt"
| "enabled S (ARemove x nt) s \<longleftrightarrow> cq_hold s = HHeld \<and> cq_enq s x = EIdle \<and> is_state S nt
     \<and> (case prev_of (cq_mem s) x of Some v \<Rightarrow> v \<noteq> 0 \<and> v \<noteq> 1 | None \<Rightarrow> False)"
| "enabled S AHold s \<longleftrightarrow> cq_hold s \<noteq> HNone"
| "enabled S (ASetState w) s \<longleftrightarrow> is_state S (q_tail (cq_mem s)) \<and> is_state S w"

inductive cstep :: "'s state_ops \<Rightarrow> (usize \<Rightarrow> bool) \<Rightarrow> 'd cqueue \<Rightarrow> 'd cqueue \<Rightarrow> bool" for S chk where
  cstepI: "enabled S a s \<Longrightarrow> act S chk a s = Inr s' \<Longrightarrow> cstep S chk s s'"

definition cinit :: "'s state_ops \<Rightarrow> 'd cqueue \<Rightarrow> bool" where
  "cinit S s \<longleftrightarrow> (\<exists>w. is_state S w \<and> cq_mem s = new_impl w) \<and> cq_enq s = (\<lambda>_. EIdle) \<and> cq_hold s = HNone"

section \<open>Invariant\<close>

text \<open>
  The nodes whose link is still to be written, and the cells as the lock holder will leave them: in
  the middle of a removal the cell in front of the removed node is in transition, it may already be
  null or still name the removed node.
\<close>

definition pending :: "'d cqueue \<Rightarrow> addr set" where
  "pending s = {y. \<exists>r. cq_enq s y = ELink r}"

definition vcell :: "'d cqueue \<Rightarrow> next_ref \<Rightarrow> addr option" where
  "vcell s =
     (case cq_hold s of
        HCas x _ p \<Rightarrow> (cell (cq_mem s))(ptr_ref p \<mapsto> x)
      | HWaitNext x p \<Rightarrow> (cell (cq_mem s))(ptr_ref p \<mapsto> x)
      | HUnlink x _ p \<Rightarrow> (cell (cq_mem s))(ptr_ref p \<mapsto> x)
      | HRelink _ n p \<Rightarrow> (cell (cq_mem s))(ptr_ref p \<mapsto> n)
      | _ \<Rightarrow> cell (cq_mem s))"

definition before :: "addr list \<Rightarrow> addr \<Rightarrow> addr \<Rightarrow> bool" where
  "before ns p x \<longleftrightarrow> succ HeadRef ns (ptr_ref p) = Some x \<and> ref_ptr (ptr_ref p) = p"

definition unmarked :: "'d cqueue \<Rightarrow> addr list \<Rightarrow> addr \<Rightarrow> bool" where
  "unmarked s ns x \<longleftrightarrow> x \<notin> set ns \<and> cq_enq s x = EIdle \<and> node_addr x
     \<and> (\<exists>v. prev_of (cq_mem s) x = Some v \<and> v \<noteq> 0 \<and> v \<noteq> 1)"

definition hold_ok :: "'s state_ops \<Rightarrow> 'd cqueue \<Rightarrow> addr list \<Rightarrow> bool" where
  "hold_ok S s ns \<longleftrightarrow>
     (case cq_hold s of
        HHead \<Rightarrow> ns \<noteq> []
      | HDequeue x \<Rightarrow> ns \<noteq> [] \<and> x = hd ns \<and> x \<notin> pending s
      | HWaitPrev x nt p \<Rightarrow> before ns p x \<and> is_state S nt
      | HRemove x nt p \<Rightarrow> before ns p x \<and> x \<notin> pending s \<and> is_state S nt
      | HNull x nt p \<Rightarrow> before ns p x \<and> x \<notin> pending s \<and> is_state S nt
      | HCas x nt p \<Rightarrow> before ns p x \<and> x \<notin> pending s \<and> is_state S nt \<and> cell (cq_mem s) (ptr_ref p) = Some 0
      | HWaitNext x p \<Rightarrow> before ns p x \<and> x \<notin> pending s \<and> succ HeadRef ns (NextRef x) \<noteq> None
          \<and> cell (cq_mem s) (ptr_ref p) \<noteq> None
      | HUnlink x n p \<Rightarrow> before ns p x \<and> x \<notin> pending s \<and> succ HeadRef ns (NextRef x) = Some n \<and> n \<notin> pending s
          \<and> cell (cq_mem s) (ptr_ref p) \<noteq> None
      | HRelink x n p \<Rightarrow> before ns p n \<and> n \<notin> pending s \<and> unmarked s ns x \<and> cell (cq_mem s) (ptr_ref p) \<noteq> None
      | HMark x \<Rightarrow> unmarked s ns x
      | _ \<Rightarrow> True)"

definition fresh :: "'d cqueue \<Rightarrow> addr list \<Rightarrow> addr \<Rightarrow> bool" where
  "fresh s ns y \<longleftrightarrow> y \<notin> set ns \<and> node_addr y \<and> prev_of (cq_mem s) y \<noteq> None \<and> cell (cq_mem s) (NextRef y) = Some 0"

definition enq_ok :: "'s state_ops \<Rightarrow> 'd cqueue \<Rightarrow> addr list \<Rightarrow> addr \<Rightarrow> bool" where
  "enq_ok S s ns y \<longleftrightarrow>
     (case cq_enq s y of
        EIdle \<Rightarrow> True
      | ELoaded _ \<Rightarrow> fresh s ns y
      | EStored t \<Rightarrow> fresh s ns y \<and> prev_of (cq_mem s) y = Some (prev_ptr_of (sop_tail (tail_to_enum S t)))
      | ELink r \<Rightarrow> succ HeadRef ns r = Some y)"

definition removed :: "'d cqueue \<Rightarrow> addr set" where
  "removed s = (case cq_hold s of HRelink x _ _ \<Rightarrow> {x} | HMark x \<Rightarrow> {x} | _ \<Rightarrow> {})"

definition live_ok :: "'d cqueue \<Rightarrow> addr list \<Rightarrow> addr \<Rightarrow> bool" where
  "live_ok s ns x \<longleftrightarrow> (\<forall>v. prev_of (cq_mem s) x = Some v \<longrightarrow> node_addr x
     \<and> (v = 0 \<longrightarrow> cell (cq_mem s) (NextRef x) = Some 0)
     \<and> (v \<noteq> 0 \<longrightarrow> v \<noteq> 1 \<longrightarrow> x \<in> set ns \<or> x \<in> removed s \<or> cq_enq s x \<noteq> EIdle))"

definition cinv :: "'s state_ops \<Rightarrow> 'd cqueue \<Rightarrow> addr list \<Rightarrow> bool" where
  "cinv S s ns \<longleftrightarrow>
     chain (vcell s) (prev_of (cq_mem s)) (pending s) HeadRef ns 0
     \<and> tail_node S (cq_mem s) = (if ns = [] then None else Some (last ns))
     \<and> hold_ok S s ns \<and> (\<forall>y. enq_ok S s ns y) \<and> (\<forall>x. live_ok s ns x)
     \<and> (q_locked (cq_mem s) \<longleftrightarrow> cq_hold s \<noteq> HNone)"

text \<open>The moment an operation takes effect on the abstract list.\<close>

fun lin :: "'s state_ops \<Rightarrow> 'd action \<Rightarrow> 'd cqueue \<Rightarrow> addr list \<Rightarrow> addr list" where
  "lin S (AEnqueue y spurious) s ns =
     (case cq_enq s y of
        EStored t \<Rightarrow> if \<not> spurious \<and> q_tail (cq_mem s) = t then ns @ [y] else ns
      | _ \<Rightarrow> ns)"
| "lin S AHold s ns =
     (case cq_hold s of
        HCas x _ _ \<Rightarrow> if tail_node S (cq_mem s) = Some x then remove1 x ns else ns
      | HUnlink x _ _ \<Rightarrow> remove1 x ns
      | _ \<Rightarrow> ns)"
| "lin S _ s ns = ns"

section \<open>Preservation\<close>

lemma cinvD:
  assumes "cinv S s ns"
  shows "chain (vcell s) (prev_of (cq_mem s)) (pending s) HeadRef ns 0"
    and "tail_node S (cq_mem s) = (if ns = [] then None else Some (last ns))"
    and "hold_ok S s ns" and "enq_ok S s ns y" and "live_ok s ns x"
    and "q_locked (cq_mem s) \<longleftrightarrow> cq_hold s \<noteq> HNone" and "distinct ns"
  using assms chain_linear [of "vcell s" "prev_of (cq_mem s)" "pending s" HeadRef ns 0]
  by (simp_all add: cinv_def)

lemma cinvI:
  assumes "chain (vcell s) (prev_of (cq_mem s)) (pending s) HeadRef ns 0"
    and "tail_node S (cq_mem s) = (if ns = [] then None else Some (last ns))"
    and "hold_ok S s ns" and "\<And>y. enq_ok S s ns y" and "\<And>x. live_ok s ns x"
    and "q_locked (cq_mem s) \<longleftrightarrow> cq_hold s \<noteq> HNone"
  shows "cinv S s ns"
  using assms by (simp add: cinv_def)

lemma before_refs: "before ns p x \<Longrightarrow> ptr_ref p \<in> refs HeadRef ns \<and> x \<in> set ns"
  by (auto simp: before_def dest: succ_SomeD)

lemma vcell_outside: "hold_ok S s ns \<Longrightarrow> r \<notin> refs HeadRef ns \<Longrightarrow> vcell s r = cell (cq_mem s) r"
  by (cases "cq_hold s") (auto simp: vcell_def hold_ok_def dest!: before_refs)

lemma cinv_pending_in: "cinv S s ns \<Longrightarrow> y \<in> pending s \<Longrightarrow> y \<in> set ns"
  using cinvD(4) [of S s ns y] by (auto simp: pending_def enq_ok_def dest: succ_SomeD)

lemma cinv_prev:
  assumes inv: "cinv S s ns" and x: "x \<in> set ns"
  obtains r where "succ HeadRef ns r = Some x" "prev_of (cq_mem s) x = Some (ref_ptr r)" "ptr_ref (ref_ptr r) = r"
    "ref_ptr r \<noteq> 0" "ref_ptr r \<noteq> 1"
proof -
  note ch = cinvD(1) [OF inv]
  obtain r where r: "succ HeadRef ns r = Some x"
    using succ_exists [of HeadRef ns x] cinvD(7) [OF inv] x by auto
  have "r = HeadRef \<or> (\<exists>p. r = NextRef p \<and> node_addr p)"
    using succ_SomeD [OF r] chain_node_addr [OF ch] by (auto simp: refs_def)
  then show ?thesis using that [OF r chain_prev [OF ch r]] by auto
qed

lemma cinv_idle_or_link: "cinv S s ns \<Longrightarrow> x \<in> set ns \<Longrightarrow> cq_enq s x = EIdle \<or> x \<in> pending s"
  using cinvD(4) [of S s ns x] by (cases "cq_enq s x") (auto simp: enq_ok_def fresh_def pending_def)

lemma cinv_removed: "cinv S s ns \<Longrightarrow> x \<in> removed s \<Longrightarrow> unmarked s ns x"
  using cinvD(3) [of S s ns] by (auto simp: removed_def hold_ok_def split: holder_pc.splits)

text \<open>An owner works on its node, which is neither queued nor being removed.\<close>

lemma cinv_local:
  assumes inv: "cinv S s ns" and p: "p \<notin> set ns" "p \<notin> removed s" "p \<notin> pending s" "\<And>r. c \<noteq> ELink r"
    and m: "\<And>z. z \<noteq> p \<Longrightarrow> prev_of m z = prev_of (cq_mem s) z"
      "\<And>z. z \<noteq> p \<Longrightarrow> cell m (NextRef z) = cell (cq_mem s) (NextRef z)" "cell m HeadRef = cell (cq_mem s) HeadRef"
      "q_tail m = q_tail (cq_mem s)" "q_locked m = q_locked (cq_mem s)"
    and s': "s' = s\<lparr>cq_mem := m, cq_enq := (cq_enq s)(p := c)\<rparr>"
    and ok: "enq_ok S s' ns p" "live_ok s' ns p"
  shows "cinv S s' ns"
proof (rule cinvI)
  have pend: "pending s' = pending s" using p(3,4) by (auto simp: pending_def s')
  have hold: "cq_hold s' = cq_hold s" "removed s' = removed s" by (simp_all add: s' removed_def)
  have cells: "cell m r = cell (cq_mem s) r" if "r \<in> refs HeadRef ns" for r
  proof (cases r)
    case (NextRef z)
    then have "z \<noteq> p" using that p(1) by (auto simp: refs_def)
    with NextRef m(2) show ?thesis by simp
  qed (use m(3) in simp)
  have pn: "x \<in> set ns \<Longrightarrow> prev_of m x = prev_of (cq_mem s) x" for x using m(1) p(1) by metis
  have v: "vcell s' r = vcell s r" if "r \<in> refs HeadRef ns" for r
    using cells [OF that] by (simp add: vcell_def s' split: holder_pc.splits)
  show "chain (vcell s') (prev_of (cq_mem s')) (pending s') HeadRef ns 0"
    unfolding pend by (rule chain_cong [OF cinvD(1) [OF inv]]) (use v pn in \<open>simp_all add: s'\<close>)
  show "tail_node S (cq_mem s') = (if ns = [] then None else Some (last ns))"
    using cinvD(2) [OF inv] m(4) by (simp add: s' tail_node_def)
  have bc: "before ns q x \<Longrightarrow> cell m (ptr_ref q) = cell (cq_mem s) (ptr_ref q)" for q x
    using before_refs cells by blast
  have un: "x \<in> removed s \<Longrightarrow> unmarked s' ns x" for x
  proof -
    assume x: "x \<in> removed s"
    then have "x \<noteq> p" using p(2) by auto
    with cinv_removed [OF inv x] show ?thesis by (simp add: unmarked_def s' m(1))
  qed
  show "hold_ok S s' ns"
    using cinvD(3) [OF inv] bc un unfolding hold_ok_def hold(1) pend
    by (auto simp: s' removed_def split: holder_pc.splits)
  show "enq_ok S s' ns y" for y
  proof (cases "y = p")
    case False
    then have "cq_enq s' y = cq_enq s y" "fresh s' ns y = fresh s ns y"
      using m(1,2) by (simp_all add: s' fresh_def)
    with cinvD(4) [OF inv, of y] False m(1) show ?thesis by (simp add: enq_ok_def s' split: enqueue_pc.splits)
  qed (use ok in simp)
  show "live_ok s' ns x" for x
  proof (cases "x = p")
    case False
    then show ?thesis using cinvD(5) [OF inv, of x] m(1,2) by (simp add: live_ok_def s' removed_def)
  qed (use ok in simp)
  show "q_locked (cq_mem s') \<longleftrightarrow> cq_hold s' \<noteq> HNone"
    using cinvD(6) [OF inv] m(5) by (simp add: s')
qed

text \<open>The lock holder moves on; it may write to the links in front of and behind queued nodes.\<close>

lemma cinv_hold:
  assumes inv: "cinv S s ns" and s': "s' = s\<lparr>cq_mem := m, cq_hold := h\<rparr>"
    and m: "\<And>r. r \<notin> refs HeadRef ns \<Longrightarrow> cell m r = cell (cq_mem s) r" "prev_of m = prev_of (cq_mem s)"
      "q_tail m = q_tail (cq_mem s)" "q_locked m \<longleftrightarrow> h \<noteq> HNone"
    and v: "vcell s' = vcell s" "removed s' = removed s" and h: "hold_ok S s' ns"
  shows "cinv S s' ns"
proof (rule cinvI)
  have pend: "pending s' = pending s" by (simp add: pending_def s')
  have out: "z \<notin> set ns \<Longrightarrow> cell m (NextRef z) = cell (cq_mem s) (NextRef z)" for z
    using m(1) by (auto simp: refs_def)
  show "chain (vcell s') (prev_of (cq_mem s')) (pending s') HeadRef ns 0"
    using cinvD(1) [OF inv] m(2) v(1) pend by (simp add: s')
  show "tail_node S (cq_mem s') = (if ns = [] then None else Some (last ns))"
    using cinvD(2) [OF inv] m(3) by (simp add: s' tail_node_def)
  show "enq_ok S s' ns y" for y
    using cinvD(4) [OF inv, of y] m out by (auto simp: enq_ok_def fresh_def s' split: enqueue_pc.splits)
  show "live_ok s' ns x" for x
  proof (cases "x \<in> set ns")
    case True
    then obtain r where "prev_of (cq_mem s) x = Some (ref_ptr r)" "ref_ptr r \<noteq> 0"
      using cinv_prev [OF inv] by metis
    with True cinvD(5) [OF inv, of x] m(2) show ?thesis by (simp add: live_ok_def s')
  next
    case False
    with cinvD(5) [OF inv, of x] m(2) v(2) out show ?thesis by (simp add: live_ok_def s')
  qed
qed (use h m(4) in \<open>simp_all add: s'\<close>)

subsection \<open>Owners of nodes\<close>

lemma owner_outside:
  assumes inv: "cinv S s ns" and p: "\<And>v. prev_of (cq_mem s) p = Some v \<Longrightarrow> v = 0 \<or> v = 1" "\<And>r. cq_enq s p \<noteq> ELink r"
  shows "p \<notin> set ns" and "p \<notin> removed s" and "p \<notin> pending s"
proof -
  show "p \<notin> set ns"
  proof
    assume "p \<in> set ns"
    then obtain r where "prev_of (cq_mem s) p = Some (ref_ptr r)" "ref_ptr r \<noteq> 0" "ref_ptr r \<noteq> 1"
      using cinv_prev [OF inv] by metis
    with p(1) show False by blast
  qed
  show "p \<notin> removed s"
    using cinv_removed [OF inv, of p] p(1) by (auto simp: unmarked_def)
  show "p \<notin> pending s" using p(2) by (simp add: pending_def)
qed

lemma fresh_outside:
  assumes inv: "cinv S s ns" and p: "fresh s ns p" "cq_enq s p \<noteq> EIdle" "\<And>r. cq_enq s p \<noteq> ELink r"
  shows "p \<notin> set ns" and "p \<notin> removed s" and "p \<notin> pending s"
  using p cinv_removed [OF inv, of p] by (auto simp: fresh_def unmarked_def pending_def)

lemma act_alloc:
  assumes inv: "cinv S s ns" and en: "enabled S (AAlloc p d) s"
  shows "\<exists>s'. act S chk (AAlloc p d) s = Inr s' \<and> cinv S s' ns"
proof -
  let ?m = "node_with_data p d (cq_mem s)"
  have dead: "prev_of (cq_mem s) p = None" "node_addr p" using en by (simp_all add: prev_of_def)
  have idle: "cq_enq s p = EIdle"
    using cinvD(4) [OF inv, of p] dead cinv_prev [OF inv] succ_SomeD
    by (cases "cq_enq s p") (fastforce simp: enq_ok_def fresh_def)+
  have m: "prev_of ?m = (prev_of (cq_mem s))(p \<mapsto> 0)" "cell ?m = (cell (cq_mem s))(NextRef p \<mapsto> 0)"
    "q_tail ?m = q_tail (cq_mem s)" "q_locked ?m = q_locked (cq_mem s)"
    by (auto simp: node_with_data_def prev_of_def cell_def node_link_new_def fun_eq_iff split: next_ref.splits)
  have "cinv S (s\<lparr>cq_mem := ?m, cq_enq := (cq_enq s)(p := EIdle)\<rparr>) ns"
    by (rule cinv_local [OF inv owner_outside [OF inv] _ _ _ _ _ _ refl])
      (use dead idle m in \<open>auto simp: enq_ok_def live_ok_def\<close>)
  then show ?thesis using idle by (simp add: fun_upd_idem)
qed

lemma act_free:
  assumes inv: "cinv S s ns" and en: "enabled S (AFree p) s"
  shows "\<exists>s'. act S chk (AFree p) s = Inr s' \<and> cinv S s' ns"
proof -
  let ?m = "node_free p (cq_mem s)"
  have m: "prev_of ?m = (prev_of (cq_mem s))(p := None)" "cell ?m = (cell (cq_mem s))(NextRef p := None)"
    "q_tail ?m = q_tail (cq_mem s)" "q_locked ?m = q_locked (cq_mem s)"
    by (auto simp: node_free_def prev_of_def cell_def fun_eq_iff split: next_ref.splits)
  have "cinv S (s\<lparr>cq_mem := ?m, cq_enq := (cq_enq s)(p := EIdle)\<rparr>) ns"
    by (rule cinv_local [OF inv owner_outside [OF inv] _ _ _ _ _ _ refl])
      (use en m in \<open>auto simp: enq_ok_def live_ok_def\<close>)
  then show ?thesis using en by (simp add: fun_upd_idem)
qed

lemma act_reset:
  assumes inv: "cinv S s ns" and en: "enabled S (AReset p) s"
  shows "\<exists>s'. act S chk (AReset p) s = Inr s' \<and> cinv S s' ns"
proof -
  have p: "prev_of (cq_mem s) p = Some 1" "cq_enq s p = EIdle" using en by auto
  obtain q1 where q1: "store_prev p 0 (cq_mem s) = Inr q1" "cell q1 = cell (cq_mem s)"
    "prev_of q1 = (prev_of (cq_mem s))(p \<mapsto> 0)" "q_tail q1 = q_tail (cq_mem s)" "frame (cq_mem s) q1"
    using p(1) by (rule store_prev_cell)
  have "cell q1 (NextRef p) \<noteq> None" using p(1) q1(2) live_iff(2) [of "cq_mem s" p] by simp
  then obtain u where "cell q1 (NextRef p) = Some u" by auto
  then obtain q2 where q2: "store_next (NextRef p) 0 q1 = Inr q2" "cell q2 = (cell q1)(NextRef p \<mapsto> 0)"
    "prev_of q2 = prev_of q1" "q_tail q2 = q_tail q1" "frame q1 q2"
    by (rule store_next_cell)
  have addr: "node_addr p" using cinvD(5) [OF inv, of p] p(1) by (simp add: live_ok_def)
  have "cinv S (s\<lparr>cq_mem := q2, cq_enq := (cq_enq s)(p := EIdle)\<rparr>) ns"
    by (rule cinv_local [OF inv owner_outside [OF inv] _ _ _ _ _ _ refl])
      (use p q1 q2 addr in \<open>auto simp: enq_ok_def live_ok_def frame_def\<close>)
  then show ?thesis using p q1(1) q2(1) by (simp add: fun_upd_idem node_dequeued_reset_def)
qed

subsection \<open>Enqueueing\<close>

lemma enq_idle:
  assumes inv: "cinv S s ns" and en: "enabled S (AEnqueue y sp) s" and pc: "cq_enq s y = EIdle"
  shows "\<exists>s'. act S chk (AEnqueue y sp) s = Inr s' \<and> cinv S s' ns"
proof -
  have y: "prev_of (cq_mem s) y = Some 0" using en pc by simp
  then have f: "node_addr y" "cell (cq_mem s) (NextRef y) = Some 0"
    using cinvD(5) [OF inv, of y] by (simp_all add: live_ok_def)
  have "cinv S (s\<lparr>cq_mem := cq_mem s, cq_enq := (cq_enq s)(y := ELoaded (q_tail (cq_mem s)))\<rparr>) ns"
    by (rule cinv_local [OF inv owner_outside [OF inv] _ _ _ _ _ _ refl])
      (use y f pc owner_outside(1) [OF inv, of y] in \<open>auto simp: enq_ok_def live_ok_def fresh_def\<close>)
  then show ?thesis using pc by (simp add: enq_step_def Let_def)
qed

lemma enq_loaded:
  assumes inv: "cinv S s ns" and pc: "cq_enq s y = ELoaded t"
  shows "\<exists>s'. act S chk (AEnqueue y sp) s = Inr s' \<and> cinv S s' ns"
proof -
  have f: "fresh s ns y" using cinvD(4) [OF inv, of y] pc by (simp add: enq_ok_def)
  then obtain u where u: "prev_of (cq_mem s) y = Some u" by (auto simp: fresh_def)
  let ?v = "if chk t then prev_ptr_of (sop_tail (tail_to_enum S t)) else 0"
  let ?c = "if chk t then EStored t else EIdle"
  obtain q1 where q1: "store_prev y ?v (cq_mem s) = Inr q1" "cell q1 = cell (cq_mem s)"
    "prev_of q1 = (prev_of (cq_mem s))(y \<mapsto> ?v)" "q_tail q1 = q_tail (cq_mem s)" "frame (cq_mem s) q1"
    using u by (rule store_prev_cell)
  have "cinv S (s\<lparr>cq_mem := q1, cq_enq := (cq_enq s)(y := ?c)\<rparr>) ns"
    by (rule cinv_local [OF inv fresh_outside [OF inv f] _ _ _ _ _ _ refl])
      (use f q1 pc in \<open>auto simp: enq_ok_def live_ok_def fresh_def frame_def\<close>)
  then show ?thesis using pc q1(1) by (auto simp: enq_step_def Let_def)
qed

lemma succ_snoc_old: "succ r0 ns r = Some x \<Longrightarrow> succ r0 (ns @ [y]) r = Some x"
  by (simp add: succ_snoc)

lemma before_snoc: "before ns p x \<Longrightarrow> before (ns @ [y]) p x"
  by (simp add: before_def succ_snoc_old)

context queue_state
begin

lemma enq_stored:
  assumes inv: "cinv S s ns" and pc: "cq_enq s y = EStored t"
  shows "\<exists>s'. act S chk (AEnqueue y sp) s = Inr s' \<and> cinv S s' (lin S (AEnqueue y sp) s ns)"
proof -
  have f: "fresh s ns y" and py: "prev_of (cq_mem s) y = Some (prev_ptr_of (sop_tail (tail_to_enum S t)))"
    using cinvD(4) [OF inv, of y] pc by (simp_all add: enq_ok_def)
  then have y: "y \<notin> set ns" "node_addr y" "cell (cq_mem s) (NextRef y) = Some 0" by (simp_all add: fresh_def)
  obtain nt where nt: "enum_to_tail S (Ptr y) = Inr nt" using ptr_encodable y by blast
  show ?thesis
  proof (cases "\<not> sp \<and> q_tail (cq_mem s) = t")
    case False
    have "cinv S (s\<lparr>cq_mem := cq_mem s, cq_enq := (cq_enq s)(y := ELoaded (q_tail (cq_mem s)))\<rparr>) ns"
      by (rule cinv_local [OF inv fresh_outside [OF inv f] _ _ _ _ _ _ refl])
        (use f py pc cinvD(5) [OF inv, of y] in \<open>auto simp: enq_ok_def live_ok_def fresh_def\<close>)
    with False pc nt show ?thesis by (auto simp: enq_step_def Let_def)
  next
    case True
    let ?r = "lastref HeadRef ns"
    have tl: "sop_tail (tail_to_enum S t) = (if ns = [] then None else Some (last ns))"
      using cinvD(2) [OF inv] True by (simp add: tail_node_def)
    then have r: "prev_next_of (sop_tail (tail_to_enum S t)) = ?r" "prev_ptr_of (sop_tail (tail_to_enum S t)) = ref_ptr ?r"
      by (simp_all add: prev_next_of_def prev_ptr_of_def lastref_eq)
    define s' where "s' = s\<lparr>cq_mem := (cq_mem s)\<lparr>q_tail := nt\<rparr>, cq_enq := (cq_enq s)(y := ELink ?r)\<rparr>"
    have run: "act S chk (AEnqueue y sp) s = Inr s'" "lin S (AEnqueue y sp) s ns = ns @ [y]"
      using True pc nt r by (simp_all add: enq_step_def Let_def s'_def)
    have out: "y \<notin> removed s" "y \<notin> pending s" using fresh_outside [OF inv f] pc by auto
    have pend: "pending s' = insert y (pending s)" by (auto simp: pending_def s'_def)
    have same: "cq_hold s' = cq_hold s" "removed s' = removed s" "vcell s' = vcell s"
      "cell (cq_mem s') = cell (cq_mem s)" "prev_of (cq_mem s') = prev_of (cq_mem s)"
      by (simp_all add: s'_def removed_def vcell_def split: holder_pc.split)
    have ce: "cq_enq s' = (cq_enq s)(y := ELink ?r)" by (simp add: s'_def)
    have dst: "linear HeadRef (ns @ [y])" using cinvD(7) [OF inv] y by simp
    have ry: "succ HeadRef (ns @ [y]) ?r = Some y" using cinvD(7) [OF inv] by (simp add: succ_snoc)
    have hok: "hold_ok S s ns" using cinvD(3) [OF inv] .
    have vy: "vcell s (NextRef y) = Some 0"
      using vcell_outside [OF hok, of "NextRef y"] y by (auto simp: refs_def)
    have "cinv S s' (ns @ [y])"
    proof (rule cinvI)
      show "chain (vcell s') (prev_of (cq_mem s')) (pending s') HeadRef (ns @ [y]) 0"
        unfolding pend same using chain_snoc [OF cinvD(1) [OF inv] dst y(2) vy] py r by simp
      show "tail_node S (cq_mem s') = (if ns @ [y] = [] then None else Some (last (ns @ [y])))"
        using encode_ptr [OF nt y(2)] by (simp add: s'_def tail_node_def)
      show "hold_ok S s' (ns @ [y])"
      proof -
        have ne: "before ns p x \<Longrightarrow> x \<noteq> y" "succ HeadRef ns r = Some x \<Longrightarrow> x \<noteq> y" "ns \<noteq> [] \<Longrightarrow> hd ns \<noteq> y" for p x r
          using y(1) before_refs [of ns p x] succ_SomeD [of HeadRef ns r x] by auto
        have un: "unmarked s ns x \<Longrightarrow> x \<in> removed s \<Longrightarrow> unmarked s' (ns @ [y]) x" for x
          using out(1) by (auto simp: unmarked_def same s'_def)
        show ?thesis
          using hok un unfolding hold_ok_def same pend
          by (cases "cq_hold s") (auto simp: removed_def succ_snoc dest: ne intro: before_snoc)
      qed
      show "enq_ok S s' (ns @ [y]) z" for z
      proof (cases "z = y")
        case False
        then show ?thesis using cinvD(4) [OF inv, of z] succ_snoc_old
          by (auto simp: enq_ok_def fresh_def s'_def split: enqueue_pc.splits)
      qed (use ry in \<open>simp add: enq_ok_def s'_def\<close>)
      show "live_ok s' (ns @ [y]) x" for x
        using cinvD(5) [OF inv, of x] by (auto simp: live_ok_def same ce)
      show "q_locked (cq_mem s') \<longleftrightarrow> cq_hold s' \<noteq> HNone" using cinvD(6) [OF inv] by (simp add: s'_def)
    qed
    with run show ?thesis by simp
  qed
qed

lemma enq_link:
  assumes inv: "cinv S s ns" and pc: "cq_enq s y = ELink r"
  shows "\<exists>s'. act S chk (AEnqueue y sp) s = Inr s' \<and> cinv S s' ns"
proof -
  note ch = cinvD(1) [OF inv] and hok = cinvD(3) [OF inv]
  have ry: "succ HeadRef ns r = Some y" using cinvD(4) [OF inv, of y] pc by (simp add: enq_ok_def)
  have rin: "r \<in> refs HeadRef ns" "y \<in> set ns" using succ_SomeD [OF ry] by auto
  have py: "y \<in> pending s" using pc by (simp add: pending_def)
  have ov: "ptr_ref p \<noteq> r" if "before ns p x" "x \<notin> pending s" for p x
    using that ry py by (auto simp: before_def)
  have vc: "vcell s r = cell (cq_mem s) r"
    using hok ov by (cases "cq_hold s") (auto simp: vcell_def hold_ok_def)
  then obtain u where u: "cell (cq_mem s) r = Some u" using chain_cell [OF ch rin(1)] by (metis (no_types))
  obtain q1 where q1: "store_next r y (cq_mem s) = Inr q1" "cell q1 = (cell (cq_mem s))(r \<mapsto> y)"
    "prev_of q1 = prev_of (cq_mem s)" "q_tail q1 = q_tail (cq_mem s)" "frame (cq_mem s) q1"
    using u by (rule store_next_cell)
  define s' where "s' = s\<lparr>cq_mem := q1, cq_enq := (cq_enq s)(y := EIdle)\<rparr>"
  have run: "act S chk (AEnqueue y sp) s = Inr s'" using pc q1(1) by (simp add: enq_step_def Let_def s'_def)
  have pend: "pending s' = pending s - {y}" by (auto simp: pending_def s'_def)
  have same: "cq_hold s' = cq_hold s" "removed s' = removed s" "prev_of (cq_mem s') = prev_of (cq_mem s)"
    by (simp_all add: s'_def removed_def q1)
  have ce: "cq_enq s' = (cq_enq s)(y := EIdle)" and cl: "cell (cq_mem s') = (cell (cq_mem s))(r \<mapsto> y)"
    by (simp_all add: s'_def q1)
  have v: "vcell s' = (vcell s)(r \<mapsto> y)"
    using hok ov by (cases "cq_hold s") (auto simp: vcell_def hold_ok_def same cl fun_upd_twist)
  have "cinv S s' ns"
  proof (rule cinvI)
    show "chain (vcell s') (prev_of (cq_mem s')) (pending s') HeadRef ns 0"
      unfolding v pend same using ch ry by (rule chain_link)
    show "tail_node S (cq_mem s') = (if ns = [] then None else Some (last ns))"
      using cinvD(2) [OF inv] q1(4) by (simp add: s'_def tail_node_def)
    have un: "unmarked s ns x \<Longrightarrow> unmarked s' ns x" for x
      using rin(2) by (auto simp: unmarked_def same ce)
    show "hold_ok S s' ns"
      using hok un ov unfolding hold_ok_def same pend by (cases "cq_hold s") (auto simp: cl)
    show "enq_ok S s' ns z" for z
    proof (cases "z = y")
      case False
      have "fresh s ns z \<Longrightarrow> NextRef z \<noteq> r" using rin by (auto simp: fresh_def refs_def)
      with False show ?thesis using cinvD(4) [OF inv, of z]
        by (auto simp: enq_ok_def fresh_def same ce cl split: enqueue_pc.splits)
    qed (simp add: enq_ok_def ce)
    show "live_ok s' ns x" for x
    proof -
      have "prev_of (cq_mem s) x = Some 0 \<Longrightarrow> NextRef x \<noteq> r"
      proof
        assume x: "prev_of (cq_mem s) x = Some 0" "NextRef x = r"
        then have "x \<in> set ns" using rin by (auto simp: refs_def)
        with x cinv_prev [OF inv this] show False by auto
      qed
      then show ?thesis using cinvD(5) [OF inv, of x] rin(2) by (auto simp: live_ok_def same ce cl)
    qed
    show "q_locked (cq_mem s') \<longleftrightarrow> cq_hold s' \<noteq> HNone"
      using cinvD(6) [OF inv] q1(5) by (simp add: s'_def frame_def)
  qed
  with run show ?thesis by simp
qed

lemma act_enqueue:
  assumes inv: "cinv S s ns" and en: "enabled S (AEnqueue y sp) s"
  shows "\<exists>s'. act S chk (AEnqueue y sp) s = Inr s' \<and> cinv S s' (lin S (AEnqueue y sp) s ns)"
proof (cases "cq_enq s y")
  case EIdle
  with enq_idle [OF inv en] show ?thesis by simp
next
  case (ELoaded t)
  with enq_loaded [OF inv this] show ?thesis by simp
next
  case (EStored t)
  then show ?thesis by (rule enq_stored [OF inv])
next
  case (ELink r)
  with enq_link [OF inv this] show ?thesis by simp
qed

end

subsection \<open>The lock holder\<close>

lemma cinv_hold_pc:
  assumes inv: "cinv S s ns" and h: "cq_hold s \<noteq> HNone" "h \<noteq> HNone" and s': "s' = s\<lparr>cq_hold := h\<rparr>"
    and v: "vcell s' = vcell s" "removed s' = removed s" and ok: "hold_ok S s' ns"
  shows "cinv S s' ns"
  by (rule cinv_hold [OF inv, where m = "cq_mem s" and h = h]) (use assms cinvD(6) [OF inv] in auto)

lemma held_vcell [simp]: "cq_hold s = HHeld \<Longrightarrow> vcell s = cell (cq_mem s)" "cq_hold s = HHeld \<Longrightarrow> removed s = {}"
  by (simp_all add: vcell_def removed_def)

lemma act_lock:
  assumes inv: "cinv S s ns" and en: "enabled S ALock s"
  shows "\<exists>s'. act S chk ALock s = Inr s' \<and> cinv S s' ns"
proof -
  have "\<not> q_locked (cq_mem s)" using cinvD(6) [OF inv] en by simp
  moreover have "cinv S (s\<lparr>cq_mem := (cq_mem s)\<lparr>q_locked := True\<rparr>, cq_hold := HHeld\<rparr>) ns"
    by (rule cinv_hold [OF inv refl]) (use en in \<open>simp_all add: vcell_def removed_def hold_ok_def\<close>)
  ultimately show ?thesis by (simp add: lock_def)
qed

lemma act_unlock:
  assumes inv: "cinv S s ns" and en: "enabled S AUnlock s"
  shows "\<exists>s'. act S chk AUnlock s = Inr s' \<and> cinv S s' ns"
proof -
  have "cinv S (s\<lparr>cq_mem := unlock (cq_mem s), cq_hold := HNone\<rparr>) ns"
    by (rule cinv_hold [OF inv refl]) (use en in \<open>simp_all add: vcell_def removed_def hold_ok_def unlock_def\<close>)
  then show ?thesis by simp
qed

lemma act_dequeue:
  assumes inv: "cinv S s ns" and en: "enabled S ADequeue s"
  shows "\<exists>s'. act S chk ADequeue s = Inr s' \<and> cinv S s' ns"
proof (cases "ns = []")
  case True
  with cinvD(2) [OF inv] inv show ?thesis by simp
next
  case False
  then have "cinv S (s\<lparr>cq_hold := HHead\<rparr>) ns"
    by (intro cinv_hold_pc [OF inv _ _ refl]) (use en in \<open>simp_all add: vcell_def removed_def hold_ok_def\<close>)
  with False cinvD(2) [OF inv] show ?thesis by simp
qed

lemma act_requeue:
  assumes inv: "cinv S s ns" and en: "enabled S ARequeue s"
  shows "\<exists>s'. act S chk ARequeue s = Inr s' \<and> cinv S s' ns"
proof -
  have "cinv S (s\<lparr>cq_hold := HHeld\<rparr>) ns"
    by (rule cinv_hold_pc [OF inv _ _ refl]) (use en in \<open>auto simp: vcell_def removed_def hold_ok_def split: holder_pc.splits\<close>)
  then show ?thesis by simp
qed

lemma before_head: "ns \<noteq> [] \<Longrightarrow> before ns HEAD_MARKER (hd ns)"
  by (cases ns) (simp_all add: before_def)

lemma act_finish:
  assumes inv: "cinv S s ns" and en: "enabled S (AFinish nt) s"
  shows "\<exists>s'. act S chk (AFinish nt) s = Inr s' \<and> cinv S s' ns"
proof -
  obtain x where x: "cq_hold s = HDequeue x" "is_state S nt" using en by (auto split: holder_pc.splits)
  then have "ns \<noteq> []" "x = hd ns" "x \<notin> pending s" using cinvD(3) [OF inv] by (auto simp: hold_ok_def)
  then have "cinv S (s\<lparr>cq_hold := HRemove x nt HEAD_MARKER\<rparr>) ns"
    by (intro cinv_hold_pc [OF inv _ _ refl])
      (use x before_head in \<open>auto simp: vcell_def removed_def hold_ok_def pending_def\<close>)
  with x show ?thesis by simp
qed

lemma act_pop:
  assumes inv: "cinv S s ns" and en: "enabled S (APop nt) s"
  shows "\<exists>s'. act S chk (APop nt) s = Inr s' \<and> cinv S s' ns"
proof (cases "ns = []")
  case True
  with cinvD(2) [OF inv] inv show ?thesis by simp
next
  case False
  then have "last ns \<in> set ns" by simp
  then obtain r where r: "succ HeadRef ns r = Some (last ns)" "prev_of (cq_mem s) (last ns) = Some (ref_ptr r)"
    "ptr_ref (ref_ptr r) = r" using cinv_prev [OF inv] by metis
  have "cinv S (s\<lparr>cq_hold := HWaitPrev (last ns) nt (ref_ptr r)\<rparr>) ns"
    by (rule cinv_hold_pc [OF inv _ _ refl])
      (use en r in \<open>simp_all add: vcell_def removed_def hold_ok_def before_def\<close>)
  with False r(2) cinvD(2) [OF inv] show ?thesis by (simp add: load_prev_cell)
qed

lemma act_remove:
  assumes inv: "cinv S s ns" and en: "enabled S (ARemove x nt) s"
  shows "\<exists>s'. act S chk (ARemove x nt) s = Inr s' \<and> cinv S s' ns"
proof -
  have h: "cq_hold s = HHeld" "cq_enq s x = EIdle" "is_state S nt" using en by simp_all
  then have "x \<in> set ns" using en cinvD(5) [OF inv, of x] by (auto simp: live_ok_def split: option.splits)
  then obtain r where r: "succ HeadRef ns r = Some x" "prev_of (cq_mem s) x = Some (ref_ptr r)"
    "ptr_ref (ref_ptr r) = r" using cinv_prev [OF inv] by metis
  have "cinv S (s\<lparr>cq_hold := HRemove x nt (ref_ptr r)\<rparr>) ns"
    by (rule cinv_hold_pc [OF inv _ _ refl])
      (use h r in \<open>simp_all add: vcell_def removed_def hold_ok_def before_def pending_def\<close>)
  with r(2) show ?thesis by (simp add: load_prev_cell)
qed

lemma act_set_state:
  assumes inv: "cinv S s ns" and en: "enabled S (ASetState w) s"
  shows "\<exists>s'. act S chk (ASetState w) s = Inr s' \<and> cinv S s' ns"
proof -
  have st: "tail_node S (cq_mem s) = None" "sop_tail (tail_to_enum S w) = None"
    using en by (auto simp: is_state_def tail_node_def sop_state_def sop_tail_def split: state_or_ptr.splits)
  then have ns: "ns = []" using cinvD(2) [OF inv] by (auto split: if_splits)
  let ?s = "s\<lparr>cq_mem := (cq_mem s)\<lparr>q_tail := w\<rparr>\<rparr>"
  have same: "vcell ?s = vcell s" "pending ?s = pending s" "removed ?s = removed s"
    by (simp_all add: vcell_def pending_def removed_def split: holder_pc.split)
  have "cinv S ?s ns"
  proof (rule cinvI)
    show "chain (vcell ?s) (prev_of (cq_mem ?s)) (pending ?s) HeadRef ns 0"
      unfolding same using cinvD(1) [OF inv] by simp
    show "tail_node S (cq_mem ?s) = (if ns = [] then None else Some (last ns))"
      using st ns by (simp add: tail_node_def)
    show "hold_ok S ?s ns" using cinvD(3) [OF inv] by (simp add: hold_ok_def unmarked_def same split: holder_pc.splits)
    show "enq_ok S ?s ns y" for y using cinvD(4) [OF inv, of y] by (simp add: enq_ok_def fresh_def split: enqueue_pc.splits)
    show "live_ok ?s ns x" for x using cinvD(5) [OF inv, of x] by (simp add: live_ok_def same)
    show "q_locked (cq_mem ?s) \<longleftrightarrow> cq_hold ?s \<noteq> HNone" using cinvD(6) [OF inv] by simp
  qed
  then show ?thesis by simp
qed

text \<open>
  What the lock holder finds when it looks for a successor: the node behind the cell, or null while
  that node's \<^verbatim>\<open>enqueue\<close> has not written the link yet.
\<close>

definition awaits :: "'d cqueue \<Rightarrow> addr list \<Rightarrow> bool" where
  "awaits s ns \<longleftrightarrow> (\<exists>y r. cq_enq s y = ELink r \<and> succ HeadRef ns r = Some y)"

lemma get_next_cell:
  assumes inv: "cinv S s ns" and ry: "succ HeadRef ns r = Some y" and v: "vcell s r = cell (cq_mem s) r"
  shows "get_next r (cq_mem s) = (if y \<in> pending s then Inl WouldBlock else Inr y)"
    and "y \<in> pending s \<Longrightarrow> awaits s ns"
proof -
  have "cell (cq_mem s) r = Some (if y \<in> pending s then 0 else y)"
    using chain_cell [OF cinvD(1) [OF inv], of r] succ_SomeD [OF ry] ry v by simp
  then show "get_next r (cq_mem s) = (if y \<in> pending s then Inl WouldBlock else Inr y)"
    using chain_node_addr [OF cinvD(1) [OF inv]] succ_SomeD [OF ry]
    by (auto simp: get_next_def load_next_cell)
  assume "y \<in> pending s"
  then obtain r' where "cq_enq s y = ELink r'" by (auto simp: pending_def)
  then show "awaits s ns" using cinvD(4) [OF inv, of y] by (auto simp: enq_ok_def awaits_def)
qed

lemma hold_wait:
  assumes inv: "cinv S s ns" and h: "cq_hold s = HHead \<or> (\<exists>x nt p. cq_hold s = HWaitPrev x nt p)"
  shows "(\<exists>s'. act S chk AHold s = Inr s' \<and> cinv S s' ns)
    \<or> act S chk AHold s = Inl WouldBlock \<and> awaits s ns"
  using h
proof (elim disjE exE)
  assume h: "cq_hold s = HHead"
  then have ne: "ns \<noteq> []" using cinvD(3) [OF inv] by (simp add: hold_ok_def)
  then have "succ HeadRef ns HeadRef = Some (hd ns)" by (cases ns) auto
  note g = get_next_cell [OF inv this]
  have "cinv S (s\<lparr>cq_hold := HDequeue (hd ns)\<rparr>) ns" if "hd ns \<notin> pending s"
    by (rule cinv_hold_pc [OF inv _ _ refl])
      (use h ne that in \<open>simp_all add: vcell_def removed_def hold_ok_def pending_def\<close>)
  with g h show ?thesis by (cases "hd ns \<in> pending s") (simp_all add: hold_step_def vcell_def)
next
  fix x nt p
  assume h: "cq_hold s = HWaitPrev x nt p"
  then have b: "before ns p x" "is_state S nt" using cinvD(3) [OF inv] by (simp_all add: hold_ok_def)
  then have "succ HeadRef ns (ptr_ref p) = Some x" by (simp add: before_def)
  note g = get_next_cell [OF inv this]
  have "cinv S (s\<lparr>cq_hold := HRemove x nt p\<rparr>) ns" if "x \<notin> pending s"
    by (rule cinv_hold_pc [OF inv _ _ refl])
      (use h b that in \<open>simp_all add: vcell_def removed_def hold_ok_def pending_def\<close>)
  with g h show ?thesis by (cases "x \<in> pending s") (simp_all add: hold_step_def vcell_def)
qed

lemma before_facts:
  assumes inv: "cinv S s ns" and b: "before ns p x"
  shows "prev_of (cq_mem s) x = Some p" "p \<noteq> 0" "p \<noteq> 1" "node_addr x" "x \<in> set ns" "ptr_ref p \<noteq> NextRef x"
    "ptr_ref p \<in> refs HeadRef ns" "linear HeadRef ns"
proof -
  note ch = cinvD(1) [OF inv]
  have s: "succ HeadRef ns (ptr_ref p) = Some x" "ref_ptr (ptr_ref p) = p" using b by (simp_all add: before_def)
  show px: "prev_of (cq_mem s) x = Some p" using chain_prev [OF ch s(1)] s(2) by simp
  show x: "x \<in> set ns" and "ptr_ref p \<in> refs HeadRef ns" using before_refs [OF b] by auto
  show "node_addr x" using chain_node_addr [OF ch x] .
  show lin: "linear HeadRef ns" using cinvD(7) [OF inv] by simp
  show "ptr_ref p \<noteq> NextRef x" using succ_irrefl [OF lin, of x] s(1) by auto
  show "p \<noteq> 0" "p \<noteq> 1" using cinv_prev [OF inv x] px by (metis option.inject)+
qed

lemma hold_remove:
  assumes inv: "cinv S s ns" and h: "cq_hold s = HRemove x nt p"
  shows "\<exists>s'. act S chk AHold s = Inr s' \<and> cinv S s' ns"
proof -
  have b: "before ns p x" "x \<notin> pending s" "is_state S nt" using cinvD(3) [OF inv] h by (simp_all add: hold_ok_def)
  note f = before_facts [OF inv b(1)]
  have v: "vcell s = cell (cq_mem s)" using h by (simp add: vcell_def)
  have cp: "cell (cq_mem s) (ptr_ref p) = Some x"
    using chain_cell [OF cinvD(1) [OF inv] f(7)] b v by (simp add: before_def)
  let ?n = "case succ HeadRef ns (NextRef x) of None \<Rightarrow> 0 | Some y \<Rightarrow> if y \<in> pending s then 0 else y"
  have cx: "cell (cq_mem s) (NextRef x) = Some ?n"
    using chain_cell [OF cinvD(1) [OF inv], of "NextRef x"] f(5) v by (simp add: refs_def)
  let ?h = "if ?n = 0 then HNull x nt p else HUnlink x ?n p"
  have "hold_ok S (s\<lparr>cq_hold := ?h\<rparr>) ns"
    using b cp by (auto simp: hold_ok_def pending_def split: option.splits if_splits)
  moreover have "vcell (s\<lparr>cq_hold := ?h\<rparr>) = vcell s"
    using v cp by (auto simp: vcell_def fun_eq_iff split: if_splits)
  moreover have "removed (s\<lparr>cq_hold := ?h\<rparr>) = removed s" using h by (simp add: removed_def)
  ultimately have "cinv S (s\<lparr>cq_hold := ?h\<rparr>) ns"
    by (intro cinv_hold_pc [OF inv _ _ refl]) (use h in auto)
  then show ?thesis using h load_next_cell [OF cx] by (simp add: hold_step_def del: if_split)
qed

lemma hold_null:
  assumes inv: "cinv S s ns" and h: "cq_hold s = HNull x nt p"
  shows "\<exists>s'. act S chk AHold s = Inr s' \<and> cinv S s' ns"
proof -
  have b: "before ns p x" "x \<notin> pending s" "is_state S nt" using cinvD(3) [OF inv] h by (simp_all add: hold_ok_def)
  note f = before_facts [OF inv b(1)]
  have v: "vcell s = cell (cq_mem s)" using h by (simp add: vcell_def)
  have cp: "cell (cq_mem s) (ptr_ref p) = Some x"
    using chain_cell [OF cinvD(1) [OF inv] f(7)] b v by (simp add: before_def)
  obtain q1 where q1: "store_next (ptr_ref p) 0 (cq_mem s) = Inr q1" "cell q1 = (cell (cq_mem s))(ptr_ref p \<mapsto> 0)"
    "prev_of q1 = prev_of (cq_mem s)" "q_tail q1 = q_tail (cq_mem s)" "frame (cq_mem s) q1"
    using cp by (rule store_next_cell)
  have "cinv S (s\<lparr>cq_mem := q1, cq_hold := HCas x nt p\<rparr>) ns"
  proof (rule cinv_hold [OF inv refl])
    show "vcell (s\<lparr>cq_mem := q1, cq_hold := HCas x nt p\<rparr>) = vcell s"
      using v cp q1(2) by (simp add: vcell_def fun_upd_idem)
    show "hold_ok S (s\<lparr>cq_mem := q1, cq_hold := HCas x nt p\<rparr>) ns"
      using b q1(2) by (simp add: hold_ok_def pending_def)
  qed (use q1 h f(7) cinvD(6) [OF inv] in \<open>auto simp: removed_def frame_def\<close>)
  then show ?thesis using h q1(1) by (simp add: hold_step_def)
qed

lemma hold_wait_next:
  assumes inv: "cinv S s ns" and h: "cq_hold s = HWaitNext x p"
  shows "(\<exists>s'. act S chk AHold s = Inr s' \<and> cinv S s' ns)
    \<or> act S chk AHold s = Inl WouldBlock \<and> awaits s ns"
proof -
  have b: "before ns p x" "x \<notin> pending s" "succ HeadRef ns (NextRef x) \<noteq> None" "cell (cq_mem s) (ptr_ref p) \<noteq> None"
    using cinvD(3) [OF inv] h by (auto simp: hold_ok_def)
  note f = before_facts [OF inv b(1)]
  obtain y where y: "succ HeadRef ns (NextRef x) = Some y" using b(3) by auto
  have v: "vcell s (NextRef x) = cell (cq_mem s) (NextRef x)" using h f(6) by (simp add: vcell_def)
  note g = get_next_cell [OF inv y v]
  have "cinv S (s\<lparr>cq_hold := HUnlink x y p\<rparr>) ns" if "y \<notin> pending s"
    by (rule cinv_hold_pc [OF inv _ _ refl])
      (use h b y that in \<open>auto simp: vcell_def removed_def hold_ok_def pending_def\<close>)
  with g h show ?thesis by (cases "y \<in> pending s") (simp_all add: hold_step_def)
qed

lemma hold_relink:
  assumes inv: "cinv S s ns" and h: "cq_hold s = HRelink x n p"
  shows "\<exists>s'. act S chk AHold s = Inr s' \<and> cinv S s' ns"
proof -
  have b: "before ns p n" "n \<notin> pending s" "unmarked s ns x" "cell (cq_mem s) (ptr_ref p) \<noteq> None"
    using cinvD(3) [OF inv] h by (auto simp: hold_ok_def)
  note f = before_facts [OF inv b(1)]
  obtain u where u: "cell (cq_mem s) (ptr_ref p) = Some u" using b(4) by auto
  obtain q1 where q1: "store_next (ptr_ref p) n (cq_mem s) = Inr q1" "cell q1 = (cell (cq_mem s))(ptr_ref p \<mapsto> n)"
    "prev_of q1 = prev_of (cq_mem s)" "q_tail q1 = q_tail (cq_mem s)" "frame (cq_mem s) q1"
    using u by (rule store_next_cell)
  have "cinv S (s\<lparr>cq_mem := q1, cq_hold := HMark x\<rparr>) ns"
  proof (rule cinv_hold [OF inv refl])
    show "hold_ok S (s\<lparr>cq_mem := q1, cq_hold := HMark x\<rparr>) ns"
      using b(3) q1(3) by (simp add: hold_ok_def unmarked_def)
  qed (use q1 h f(7) cinvD(6) [OF inv] in \<open>auto simp: removed_def frame_def vcell_def\<close>)
  then show ?thesis using h q1(1) by (simp add: hold_step_def)
qed

lemma hold_mark:
  assumes inv: "cinv S s ns" and h: "cq_hold s = HMark x"
  shows "\<exists>s'. act S chk AHold s = Inr s' \<and> cinv S s' ns"
proof -
  have u: "unmarked s ns x" using cinvD(3) [OF inv] h by (simp add: hold_ok_def)
  then obtain w where x: "x \<notin> set ns" "cq_enq s x = EIdle" "node_addr x" "prev_of (cq_mem s) x = Some w"
    by (auto simp: unmarked_def)
  obtain q1 where q1: "store_prev x (into_ptr Dequeued) (cq_mem s) = Inr q1" "cell q1 = cell (cq_mem s)"
    "prev_of q1 = (prev_of (cq_mem s))(x \<mapsto> into_ptr Dequeued)" "q_tail q1 = q_tail (cq_mem s)" "frame (cq_mem s) q1"
    using x(4) by (rule store_prev_cell)
  define s' where "s' = s\<lparr>cq_mem := q1, cq_hold := HHeld\<rparr>"
  have same: "vcell s' = vcell s" "pending s' = pending s" "removed s' = {}" "removed s = {x}"
    using h q1(2) by (simp_all add: s'_def vcell_def pending_def removed_def)
  have "cinv S s' ns"
  proof (rule cinvI)
    show "chain (vcell s') (prev_of (cq_mem s')) (pending s') HeadRef ns 0"
      unfolding same by (rule chain_cong [OF cinvD(1) [OF inv]]) (use x q1 in \<open>auto simp: s'_def\<close>)
    show "tail_node S (cq_mem s') = (if ns = [] then None else Some (last ns))"
      using cinvD(2) [OF inv] q1(4) by (simp add: s'_def tail_node_def)
    show "hold_ok S s' ns" by (simp add: hold_ok_def s'_def)
    show "enq_ok S s' ns y" for y
      using cinvD(4) [OF inv, of y] q1(2,3) x(2) by (auto simp: enq_ok_def fresh_def s'_def split: enqueue_pc.splits)
    show "live_ok s' ns z" for z
      using cinvD(5) [OF inv, of z] q1(2,3) x(3) by (auto simp: live_ok_def same s'_def into_ptr_def)
    show "q_locked (cq_mem s') \<longleftrightarrow> cq_hold s' \<noteq> HNone"
      using cinvD(6) [OF inv] q1(5) h by (simp add: s'_def frame_def)
  qed
  then show ?thesis using h q1(1) by (simp add: hold_step_def s'_def)
qed

text \<open>The two actions that take a node out: the exchange of the tail, and the store that skips it.\<close>

lemma cinv_take:
  assumes inv: "cinv S s ns" and b: "before ns p x" "x \<notin> pending s"
    and s': "s' = s\<lparr>cq_mem := m, cq_hold := h\<rparr>" "removed s = {}" "removed s' = {x}" "h \<noteq> HNone" "cq_hold s \<noteq> HNone"
    and ch: "chain (vcell s') (prev_of m) (pending s) HeadRef (remove1 x ns) 0"
    and tl: "tail_node S m = (if remove1 x ns = [] then None else Some (last (remove1 x ns)))"
    and h: "hold_ok S s' (remove1 x ns)" and lk: "q_locked m = q_locked (cq_mem s)"
    and m: "cell m = cell (cq_mem s)" "\<And>z. z \<notin> set ns \<Longrightarrow> prev_of m z = prev_of (cq_mem s) z"
      "prev_of m x = prev_of (cq_mem s) x"
    and n: "\<And>y. succ HeadRef ns (NextRef x) = Some y \<Longrightarrow> y \<notin> pending s"
  shows "cinv S s' (remove1 x ns)"
proof (rule cinvI)
  note f = before_facts [OF inv b(1)]
  have sx: "succ HeadRef ns (ptr_ref p) = Some x" using b(1) by (simp add: before_def)
  have pend: "pending s' = pending s" by (simp add: pending_def s'(1))
  have mem: "set (remove1 x ns) = set ns - {x}" using cinvD(7) [OF inv] by simp
  show "chain (vcell s') (prev_of (cq_mem s')) (pending s') HeadRef (remove1 x ns) 0"
    using ch pend by (simp add: s'(1))
  show "tail_node S (cq_mem s') = (if remove1 x ns = [] then None else Some (last (remove1 x ns)))"
    using tl by (simp add: s'(1))
  show "hold_ok S s' (remove1 x ns)" by (rule h)
  show "q_locked (cq_mem s') \<longleftrightarrow> cq_hold s' \<noteq> HNone"
    using cinvD(6) [OF inv] s'(4,5) lk by (simp add: s'(1))
  show "enq_ok S s' (remove1 x ns) y" for y
  proof (cases "cq_enq s y")
    case (ELink r)
    then have y: "y \<in> pending s" "succ HeadRef ns r = Some y"
      using cinvD(4) [OF inv, of y] by (auto simp: pending_def enq_ok_def)
    then have "r \<noteq> ptr_ref p" "r \<noteq> NextRef x" using sx b(2) n by auto
    with y succ_remove [OF f(8) sx, of r] ELink show ?thesis by (simp add: enq_ok_def s'(1))
  qed (use cinvD(4) [OF inv, of y] m in \<open>auto simp: enq_ok_def fresh_def s'(1) mem\<close>)
  show "live_ok s' (remove1 x ns) z" for z
  proof (cases "z \<in> set ns")
    case True
    then have "z \<in> set (remove1 x ns) \<or> z = x" by (auto simp: mem)
    moreover have "prev_of m z \<noteq> Some 0"
    proof (cases "z = x")
      case False
      with True obtain r where r: "succ HeadRef (remove1 x ns) r = Some z"
        using succ_exists [of HeadRef "remove1 x ns" z] linear_remove1 [OF f(8)] by (auto simp: mem)
      then have "r = HeadRef \<or> (\<exists>p. r = NextRef p \<and> node_addr p)"
        using succ_SomeD [OF r] chain_node_addr [OF ch] by (auto simp: refs_def)
      with chain_prev [OF ch r] show ?thesis by auto
    qed (use f m(3) in simp)
    ultimately show ?thesis using chain_node_addr [OF cinvD(1) [OF inv] True] s'(3)
      by (auto simp: live_ok_def s'(1))
  next
    case False
    then show ?thesis using cinvD(5) [OF inv, of z] m s'(2) by (auto simp: live_ok_def s'(1))
  qed
qed

lemma before_addr: "cinv S s ns \<Longrightarrow> before ns p x \<Longrightarrow> ptr_ref p = HeadRef \<or> (\<exists>z. ptr_ref p = NextRef z \<and> node_addr z)"
  using before_facts(7) [of S s ns p x] chain_node_addr [OF cinvD(1), of S s ns]
  by (auto simp: refs_def)

lemma cinv_idle: "cinv S s ns \<Longrightarrow> x \<in> set ns \<Longrightarrow> x \<notin> pending s \<Longrightarrow> cq_enq s x = EIdle"
  using cinv_idle_or_link by blast

lemma tail_iff_last:
  assumes inv: "cinv S s ns" and x: "x \<in> set ns"
  shows "tail_node S (cq_mem s) = Some x \<longleftrightarrow> succ HeadRef ns (NextRef x) = None"
proof -
  have lin: "linear HeadRef ns" using cinvD(7) [OF inv] by simp
  have ne: "ns \<noteq> []" using x by auto
  have "NextRef x \<in> refs HeadRef ns" using x by (auto simp: refs_def)
  then show ?thesis
    using succ_None_iff [OF lin, of "NextRef x"] cinvD(2) [OF inv] ne by (auto simp: lastref_eq)
qed

context queue_state
begin

lemma hold_cas:
  assumes inv: "cinv S s ns" and h: "cq_hold s = HCas x nt p"
  shows "\<exists>s'. act S chk AHold s = Inr s' \<and> cinv S s' (lin S AHold s ns)"
proof -
  have b: "before ns p x" "x \<notin> pending s" "is_state S nt" "cell (cq_mem s) (ptr_ref p) = Some 0"
    using cinvD(3) [OF inv] h by (simp_all add: hold_ok_def)
  note f = before_facts [OF inv b(1)] and ad = before_addr [OF inv b(1)]
  have sx: "succ HeadRef ns (ptr_ref p) = Some x" "ref_ptr (ptr_ref p) = p" using b(1) by (simp_all add: before_def)
  obtain st where st: "tail_to_enum S nt = State st" using b(3) by (auto simp: is_state_def)
  obtain w where w: "(if p = HEAD_MARKER then Inr nt else enum_to_tail S (Ptr p)) = Inr w"
    "tail_to_enum S w = (case ptr_ref p of HeadRef \<Rightarrow> State st | NextRef p \<Rightarrow> Ptr p)"
    using encode_prev [OF ad st] sx(2) by metis
  obtain xw where xw: "enum_to_tail S (Ptr x) = Inr xw" using ptr_encodable [OF f(4)] by blast
  have eq: "q_tail (cq_mem s) = xw \<longleftrightarrow> tail_node S (cq_mem s) = Some x"
    using decode_eq_iff [OF f(4) xw] by (simp add: tail_node_def)
  show ?thesis
  proof (cases "tail_node S (cq_mem s) = Some x")
    case False
    then have "succ HeadRef ns (NextRef x) \<noteq> None" using tail_iff_last [OF inv f(5)] by simp
    then have "cinv S (s\<lparr>cq_hold := HWaitNext x p\<rparr>) ns"
      by (intro cinv_hold_pc [OF inv _ _ refl])
        (use h b in \<open>auto simp: vcell_def removed_def hold_ok_def pending_def\<close>)
    then show ?thesis using False h w(1) xw eq by (simp add: hold_step_def)
  next
    case True
    then have none: "succ HeadRef ns (NextRef x) = None" using tail_iff_last [OF inv f(5)] by simp
    define m where "m = (cq_mem s)\<lparr>q_tail := w\<rparr>"
    have v: "vcell (s\<lparr>cq_mem := m, cq_hold := HMark x\<rparr>) = (vcell s)(ptr_ref p \<mapsto> 0)"
      using h b(4) by (auto simp: vcell_def m_def fun_eq_iff)
    have lr: "lastref HeadRef (remove1 x ns) = ptr_ref p" using lastref_remove1 [OF f(8) sx(1)] none by simp
    have "cinv S (s\<lparr>cq_mem := m, cq_hold := HMark x\<rparr>) (remove1 x ns)"
    proof (rule cinv_take [OF inv b(1,2) refl])
      show "chain (vcell (s\<lparr>cq_mem := m, cq_hold := HMark x\<rparr>)) (prev_of m) (pending s) HeadRef (remove1 x ns) 0"
        unfolding v using chain_remove_last [OF cinvD(1) [OF inv] sx(1) none] by (simp add: m_def)
      show "tail_node S m = (if remove1 x ns = [] then None else Some (last (remove1 x ns)))"
        using lr w(2) by (cases "ptr_ref p") (auto simp: tail_node_def m_def lastref_eq split: if_splits)
      show "hold_ok S (s\<lparr>cq_mem := m, cq_hold := HMark x\<rparr>) (remove1 x ns)"
        using f cinv_idle [OF inv f(5) b(2)] cinvD(7) [OF inv] by (simp add: hold_ok_def unmarked_def m_def)
    qed (use h none in \<open>simp_all add: removed_def m_def\<close>)
    then show ?thesis using True h w(1) xw eq by (simp add: hold_step_def m_def)
  qed
qed

end

lemma hold_unlink:
  assumes inv: "cinv S s ns" and h: "cq_hold s = HUnlink x n p"
  shows "\<exists>s'. act S chk AHold s = Inr s' \<and> cinv S s' (remove1 x ns)"
proof -
  have b: "before ns p x" "x \<notin> pending s" "succ HeadRef ns (NextRef x) = Some n" "n \<notin> pending s"
    "cell (cq_mem s) (ptr_ref p) \<noteq> None" using cinvD(3) [OF inv] h by (auto simp: hold_ok_def)
  note f = before_facts [OF inv b(1)]
  have sx: "succ HeadRef ns (ptr_ref p) = Some x" "ref_ptr (ptr_ref p) = p" using b(1) by (simp_all add: before_def)
  have ne: "x \<noteq> n" and nn: "n \<in> set ns" using succ_irrefl [OF f(8), of x] b(3) succ_SomeD [OF b(3)] by auto
  have pn: "prev_of (cq_mem s) n = Some x" using chain_prev [OF cinvD(1) [OF inv] b(3)] by simp
  obtain q1 where q1: "store_prev n p (cq_mem s) = Inr q1" "cell q1 = cell (cq_mem s)"
    "prev_of q1 = (prev_of (cq_mem s))(n \<mapsto> p)" "q_tail q1 = q_tail (cq_mem s)" "frame (cq_mem s) q1"
    using pn by (rule store_prev_cell)
  let ?s = "s\<lparr>cq_mem := q1, cq_hold := HRelink x n p\<rparr>"
  have v: "vcell ?s = (vcell s)(ptr_ref p \<mapsto> n)" using h q1(2) by (simp add: vcell_def)
  have bn: "before (remove1 x ns) p n" using succ_remove [OF f(8) sx(1)] b(3) sx(2) by (simp add: before_def)
  have "cinv S ?s (remove1 x ns)"
  proof (rule cinv_take [OF inv b(1,2) refl])
    show "chain (vcell ?s) (prev_of q1) (pending s) HeadRef (remove1 x ns) 0"
      unfolding v q1(3) using chain_remove [OF cinvD(1) [OF inv] sx(1) b(3,4)] sx(2) by simp
    have "lastref HeadRef (remove1 x ns) = lastref HeadRef ns" using lastref_remove1 [OF f(8) sx(1)] b(3) by simp
    moreover have "remove1 x ns \<noteq> []" using before_refs [OF bn] by auto
    ultimately show "tail_node S q1 = (if remove1 x ns = [] then None else Some (last (remove1 x ns)))"
      using cinvD(2) [OF inv] q1(4) f(5) by (auto simp: tail_node_def lastref_eq split: if_splits)
    show "hold_ok S ?s (remove1 x ns)"
      using f bn b ne cinv_idle [OF inv f(5) b(2)] cinvD(7) [OF inv] q1(2,3)
      by (simp add: hold_ok_def unmarked_def pending_def)
  qed (use h b(3,4) nn ne q1(2,3,5) in \<open>auto simp: removed_def frame_def\<close>)
  then show ?thesis using h q1(1) by (simp add: hold_step_def)
qed

subsection \<open>Every action\<close>

context queue_state
begin

lemma hold_any:
  assumes inv: "cinv S s ns" and en: "enabled S AHold s"
  shows "(\<exists>s'. act S chk AHold s = Inr s' \<and> cinv S s' (lin S AHold s ns))
    \<or> act S chk AHold s = Inl WouldBlock \<and> awaits s ns"
proof (cases "cq_hold s")
  case HNone
  with en show ?thesis by simp
next
  case HHeld
  with inv show ?thesis by (simp add: hold_step_def)
next
  case HHead
  with hold_wait [OF inv, of chk] show ?thesis by simp
next
  case (HDequeue x)
  with inv show ?thesis by (simp add: hold_step_def)
next
  case (HWaitPrev x nt p)
  with hold_wait [OF inv, of chk] show ?thesis by simp
next
  case (HRemove x nt p)
  with hold_remove [OF inv this, of chk] show ?thesis by simp
next
  case (HNull x nt p)
  with hold_null [OF inv this, of chk] show ?thesis by simp
next
  case (HCas x nt p)
  with hold_cas [OF inv this, of chk] show ?thesis by blast
next
  case (HWaitNext x p)
  with hold_wait_next [OF inv this, of chk] show ?thesis by simp
next
  case (HUnlink x n p)
  with hold_unlink [OF inv this, of chk] show ?thesis by simp
next
  case (HRelink x n p)
  with hold_relink [OF inv this, of chk] show ?thesis by simp
next
  case (HMark x)
  with hold_mark [OF inv this, of chk] show ?thesis by simp
qed

lemmas act_rules = act_alloc act_free act_reset act_lock act_unlock act_dequeue act_requeue act_finish
  act_pop act_remove act_set_state

lemma act_any:
  assumes inv: "cinv S s ns" and en: "enabled S a s"
  shows "(\<exists>s'. act S chk a s = Inr s' \<and> cinv S s' (lin S a s ns))
    \<or> a = AHold \<and> act S chk a s = Inl WouldBlock \<and> awaits s ns"
proof (cases a)
  case (AEnqueue y sp)
  with act_enqueue [OF inv, of y sp chk] en show ?thesis by blast
next
  case AHold
  with hold_any [OF inv, of chk] en show ?thesis by blast
qed (use en act_rules [OF inv, where chk = chk] in \<open>simp_all del: act.simps enabled.simps\<close>)

lemma init_cinv: "cinit S s \<Longrightarrow> cinv S s []"
  by (rule cinvI)
    (auto simp: cinit_def is_state_def new_impl_def chain_def vcell_def pending_def hold_ok_def enq_ok_def live_ok_def
      tail_node_def refs_def cell_def prev_of_def)

lemma cstep_inv:
  assumes inv: "cinv S s ns" and step: "cstep S chk s s'"
  shows "\<exists>ns'. cinv S s' ns'"
proof -
  obtain a where a: "enabled S a s" "act S chk a s = Inr s'" using step by (auto elim: cstep.cases)
  show ?thesis using act_any [OF inv a(1), of chk] a(2) by auto
qed

end

sublocale queue_state \<subseteq> cq: invariant_of "cinit S" "cstep S chk" "\<lambda>s. \<exists>ns. cinv S s ns" for chk
  by unfold_locales (use init_cinv cstep_inv in blast)+

context queue_state
begin

lemma cq_reach: "reach (cinit S) (cstep S chk) s \<Longrightarrow> \<exists>ns. cinv S s ns"
  by (rule cq.reach_inv)

end

section \<open>Linearizability\<close>

text \<open>
  The abstract machine: a list of nodes and the state the queue has while it is empty. An event is
  what an action does to it. \<open>Taken x is_head (Some nt)\<close> is a removal by the exchange of the
  tail, which needs \<open>x\<close> to be the last node and leaves the state \<open>nt\<close> if nothing is
  left; \<open>Taken x is_head None\<close> unlinks a node with a successor. A \<^verbatim>\<open>dequeue\<close> has
  \<open>is_head\<close> set, so it takes the oldest node.
\<close>

datatype event = Enqueued addr | Taken addr bool "usize option" | StateSet usize

fun event_of :: "'s state_ops \<Rightarrow> 'd action \<Rightarrow> 'd cqueue \<Rightarrow> event list" where
  "event_of S (AEnqueue y spurious) s =
     (case cq_enq s y of
        EStored t \<Rightarrow> if \<not> spurious \<and> q_tail (cq_mem s) = t then [Enqueued y] else []
      | _ \<Rightarrow> [])"
| "event_of S AHold s =
     (case cq_hold s of
        HCas x nt p \<Rightarrow> if tail_node S (cq_mem s) = Some x then [Taken x (p = HEAD_MARKER) (Some nt)] else []
      | HUnlink x _ p \<Rightarrow> [Taken x (p = HEAD_MARKER) None]
      | _ \<Rightarrow> [])"
| "event_of S (ASetState w) s = [StateSet w]"
| "event_of S _ s = []"

fun replay :: "event list \<Rightarrow> addr list \<times> usize \<Rightarrow> (addr list \<times> usize) option" where
  "replay [] (ns, w) = Some (ns, w)"
| "replay (Enqueued y # es) (ns, w) = (if y \<in> set ns then None else replay es (ns @ [y], w))"
| "replay (Taken x is_head nt # es) (ns, w) =
     (if x \<in> set ns \<and> (is_head \<longleftrightarrow> x = hd ns) \<and> (nt \<noteq> None \<longleftrightarrow> x = last ns)
      then replay es (remove1 x ns, if remove1 x ns = [] then the nt else w) else None)"
| "replay (StateSet v # es) (ns, w) = (if ns = [] then replay es ([], v) else None)"

text \<open>A run is a list of actions; one that would block is retried by the scheduler later.\<close>

fun crun :: "'s state_ops \<Rightarrow> (usize \<Rightarrow> bool) \<Rightarrow> 'd action list \<Rightarrow> 'd cqueue \<Rightarrow> (event list \<times> 'd cqueue) option" where
  "crun S chk [] s = Some ([], s)"
| "crun S chk (a # as) s =
     (if \<not> enabled S a s then None
      else case act S chk a s of
        Inr s' \<Rightarrow> (case crun S chk as s' of None \<Rightarrow> None | Some (es, t) \<Rightarrow> Some (event_of S a s @ es, t))
      | Inl WouldBlock \<Rightarrow> crun S chk as s
      | Inl _ \<Rightarrow> None)"

definition quiescent :: "'d cqueue \<Rightarrow> bool" where
  "quiescent s \<longleftrightarrow> cq_enq s = (\<lambda>_. EIdle) \<and> (cq_hold s = HNone \<or> cq_hold s = HHeld)"

definition crel :: "'s state_ops \<Rightarrow> 'd cqueue \<Rightarrow> addr list \<times> usize \<Rightarrow> bool" where
  "crel S s a \<longleftrightarrow> cinv S s (fst a) \<and> (fst a = [] \<longrightarrow> q_tail (cq_mem s) = snd a)"

lemma quiescent_wf:
  assumes inv: "cinv S s ns" and q: "quiescent s"
  shows "queue_wf S (cq_mem s) ns"
proof -
  have h: "vcell s = cell (cq_mem s)" "removed s = {}" "pending s = {}"
    using q by (auto simp: quiescent_def vcell_def removed_def pending_def)
  have "queue_inv S (cq_mem s) {} ns" using cinvD(1,2) [OF inv] h by (simp add: queue_inv_def)
  moreover have "nodes_ok (cq_mem s) {} (set ns)"
    unfolding nodes_ok_def
  proof (intro allI impI conjI)
    fix x v
    assume v: "prev_of (cq_mem s) x = Some v"
    have l: "live_ok s ns x" "cq_enq s x = EIdle" using cinvD(5) [OF inv] q by (simp_all add: quiescent_def)
    with v h show "node_addr x" "v = 0 \<Longrightarrow> cell (cq_mem s) (NextRef x) = Some 0" by (simp_all add: live_ok_def)
    show "x \<in> set ns \<longleftrightarrow> v \<noteq> 0 \<and> v \<noteq> 1"
      using l v h cinv_prev [OF inv, of x] by (auto simp: live_ok_def)
  qed
  ultimately show ?thesis by (simp add: queue_wf_def)
qed

lemma store_tail:
  "store_prev p v q = Inr q' \<Longrightarrow> q_tail q' = q_tail q"
  "store_next r v q = Inr q' \<Longrightarrow> q_tail q' = q_tail q"
  "lock id q = Inr q' \<Longrightarrow> q_tail q' = q_tail q"
  "node_dequeued_reset p q = Inr q' \<Longrightarrow> q_tail q' = q_tail q"
  "q_tail (unlock q) = q_tail q" "q_tail (node_free p q) = q_tail q" "q_tail (node_with_data p d q) = q_tail q"
  by (auto simp: store_prev_def store_next_def lock_def node_dequeued_reset_def bind_res_eq_Inr_iff unlock_def
      node_free_def node_with_data_def split: option.splits next_ref.splits if_splits)

lemma enq_tail:
  assumes "enq_step S chk sp y s = Inr s'" and "event_of S (AEnqueue y sp) s = []"
  shows "q_tail (cq_mem s') = q_tail (cq_mem s)"
  using assms
  by (cases "cq_enq s y")
    (auto simp: enq_step_def bind_res_eq_Inr_iff Let_def store_tail split: if_splits)

lemma hold_tail:
  assumes "hold_step S s = Inr s'" and "\<And>x nt p. cq_hold s \<noteq> HCas x nt p"
  shows "q_tail (cq_mem s') = q_tail (cq_mem s)"
  using assms by (cases "cq_hold s") (auto simp: hold_step_def bind_res_eq_Inr_iff store_tail split: if_splits)

lemma act_tail:
  assumes "act S chk a s = Inr s'" and "event_of S a s = []" and "\<And>x nt p. a = AHold \<Longrightarrow> cq_hold s \<noteq> HCas x nt p"
  shows "q_tail (cq_mem s') = q_tail (cq_mem s)"
proof (cases a)
  case (AEnqueue y sp)
  with assms show ?thesis using enq_tail by (metis act.simps(4))
next
  case AHold
  with assms show ?thesis using hold_tail by (metis act.simps(12))
qed (use assms in \<open>auto simp: bind_res_eq_Inr_iff store_tail split: option.splits holder_pc.splits\<close>)

lemma lin_silent: "event_of S a s = [] \<Longrightarrow> lin S a s ns = ns"
  by (cases a) (auto split: enqueue_pc.splits holder_pc.splits if_splits)

lemma before_is_head:
  assumes inv: "cinv S s ns" and b: "before ns p x"
  shows "p = HEAD_MARKER \<longleftrightarrow> x = hd ns"
proof -
  have sx: "succ HeadRef ns (ptr_ref p) = Some x" "ref_ptr (ptr_ref p) = p" using b by (simp_all add: before_def)
  then have ne: "ns \<noteq> []" by (cases ns) auto
  then have hd: "succ HeadRef ns HeadRef = Some (hd ns)" by (cases ns) simp_all
  have "x = hd ns \<Longrightarrow> ptr_ref p = HeadRef"
    using succ_inj [OF cinvD(7) [OF inv] sx(1), of HeadRef] hd by simp
  moreover have "ptr_ref p = HeadRef \<Longrightarrow> x = hd ns" using sx(1) hd by simp
  moreover have "ptr_ref p = HeadRef \<longleftrightarrow> p = HEAD_MARKER" by (simp add: ptr_ref_def)
  ultimately show ?thesis by blast
qed

context queue_state
begin

lemma crel_silent:
  assumes rel: "crel S s (ns, w)" and en: "enabled S a s" and run: "act S chk a s = Inr s'"
    and ev: "event_of S a s = []"
  shows "crel S s' (ns, w)"
proof -
  have inv: "cinv S s ns" using rel by (simp add: crel_def)
  have inv': "cinv S s' ns" using act_any [OF inv en, of chk] run lin_silent [OF ev] by auto
  have "q_tail (cq_mem s') = q_tail (cq_mem s)"
  proof (cases "a = AHold \<and> (\<exists>x nt p. cq_hold s = HCas x nt p)")
    case True
    then obtain x nt p where h: "a = AHold" "cq_hold s = HCas x nt p" by blast
    then have "before ns p x" using cinvD(3) [OF inv] by (simp add: hold_ok_def)
    from before_facts(4) [OF inv this] decode_eq_iff [of x] ev run h show ?thesis
      by (auto simp: hold_step_def Let_def bind_res_eq_Inr_iff tail_node_def split: if_splits)
  next
    case False
    then show ?thesis using act_tail [OF run ev] by blast
  qed
  with rel inv' show ?thesis by (simp add: crel_def)
qed

lemma crel_cas:
  assumes rel: "crel S s (ns, w)" and run: "act S chk AHold s = Inr s'"
    and h: "cq_hold s = HCas x nt p" "tail_node S (cq_mem s) = Some x"
  shows "crel S s' (remove1 x ns, nt)"
    and "replay (event_of S AHold s @ es) (ns, w) = replay es (remove1 x ns, if remove1 x ns = [] then nt else w)"
proof -
  have inv: "cinv S s ns" using rel by (simp add: crel_def)
  have inv': "cinv S s' (remove1 x ns)" using hold_cas [OF inv h(1), of chk] run h by simp
  have b: "before ns p x" using cinvD(3) [OF inv] h by (simp add: hold_ok_def)
  note f = before_facts [OF inv b]
  have sx: "succ HeadRef ns (ptr_ref p) = Some x" using b by (simp add: before_def)
  have none: "succ HeadRef ns (NextRef x) = None" using tail_iff_last [OF inv f(5)] h(2) by simp
  have "q_tail (cq_mem s') = nt" if "remove1 x ns = []"
  proof -
    have "ptr_ref p = HeadRef" using lastref_remove1 [OF f(8) sx] none that by simp
    then have "p = HEAD_MARKER" by (simp add: ptr_ref_def split: if_splits)
    moreover have "enum_to_tail S (Ptr x) = Inr (q_tail (cq_mem s))"
      using h(2) by (intro encode_of_decode) (simp add: tail_node_def)
    ultimately show ?thesis using run h(1) by (auto simp: hold_step_def)
  qed
  with inv' show "crel S s' (remove1 x ns, nt)" by (simp add: crel_def)
  have "x = last ns" using cinvD(2) [OF inv] h(2) by (simp split: if_splits)
  with h f(5) before_is_head [OF inv b]
  show "replay (event_of S AHold s @ es) (ns, w) = replay es (remove1 x ns, if remove1 x ns = [] then nt else w)"
    by simp
qed

lemma crel_unlink:
  assumes rel: "crel S s (ns, w)" and run: "act S chk AHold s = Inr s'" and h: "cq_hold s = HUnlink x n p"
  shows "crel S s' (remove1 x ns, w)"
    and "replay (event_of S AHold s @ es) (ns, w) = replay es (remove1 x ns, w)"
proof -
  have inv: "cinv S s ns" using rel by (simp add: crel_def)
  have inv': "cinv S s' (remove1 x ns)" using hold_unlink [OF inv h, of chk] run h by simp
  have b: "before ns p x" "succ HeadRef ns (NextRef x) = Some n" using cinvD(3) [OF inv] h by (auto simp: hold_ok_def)
  note f = before_facts [OF inv b(1)]
  have "n \<noteq> x" "n \<in> set ns" using succ_irrefl [OF f(8), of x] b(2) succ_SomeD [OF b(2)] by auto
  then have ne: "remove1 x ns \<noteq> []" by (metis in_set_remove1 list.set(1) empty_iff)
  with inv' show "crel S s' (remove1 x ns, w)" by (simp add: crel_def)
  have "x \<noteq> last ns"
    using tail_iff_last [OF inv f(5)] cinvD(2) [OF inv] b(2) f(5) by (auto split: if_splits)
  with h f(5) ne before_is_head [OF inv b(1)]
  show "replay (event_of S AHold s @ es) (ns, w) = replay es (remove1 x ns, w)" by simp
qed

lemma crel_enqueued:
  assumes rel: "crel S s (ns, w)" and run: "act S chk (AEnqueue y sp) s = Inr s'"
    and pc: "cq_enq s y = EStored t" "\<not> sp" "q_tail (cq_mem s) = t"
  shows "crel S s' (ns @ [y], w)"
    and "replay (event_of S (AEnqueue y sp) s @ es) (ns, w) = replay es (ns @ [y], w)"
proof -
  have inv: "cinv S s ns" using rel by (simp add: crel_def)
  show "crel S s' (ns @ [y], w)" using enq_stored [OF inv pc(1), of chk sp] run pc by (simp add: crel_def)
  have "y \<notin> set ns" using cinvD(4) [OF inv, of y] pc(1) by (simp add: enq_ok_def fresh_def)
  with pc show "replay (event_of S (AEnqueue y sp) s @ es) (ns, w) = replay es (ns @ [y], w)" by simp
qed

lemma crel_set_state:
  assumes rel: "crel S s (ns, w)" and en: "enabled S (ASetState v) s" and run: "act S chk (ASetState v) s = Inr s'"
  shows "crel S s' ([], v)" and "replay (event_of S (ASetState v) s @ es) (ns, w) = replay es ([], v)"
proof -
  have inv: "cinv S s ns" using rel by (simp add: crel_def)
  have ns: "ns = []"
    using en cinvD(2) [OF inv] by (auto simp: is_state_def tail_node_def sop_state_def sop_tail_def split: state_or_ptr.splits if_splits)
  show "crel S s' ([], v)" using act_set_state [OF inv en, of chk] run ns by (auto simp: crel_def)
  show "replay (event_of S (ASetState v) s @ es) (ns, w) = replay es ([], v)" using ns by simp
qed

lemma event_cases:
  assumes "event_of S a s \<noteq> []"
  obtains (enq) y sp t where "a = AEnqueue y sp" "cq_enq s y = EStored t" "\<not> sp" "q_tail (cq_mem s) = t"
  | (cas) x nt p where "a = AHold" "cq_hold s = HCas x nt p" "tail_node S (cq_mem s) = Some x"
  | (unlink) x n p where "a = AHold" "cq_hold s = HUnlink x n p"
  | (set) v where "a = ASetState v"
proof (cases a)
  case (AEnqueue y sp)
  with assms that(1) show ?thesis by (auto split: enqueue_pc.splits if_splits)
next
  case AHold
  with assms that(2,3) show ?thesis by (auto split: holder_pc.splits if_splits)
next
  case (ASetState v)
  then show ?thesis by (rule that(4))
qed (use assms in simp_all)

lemma crel_step:
  assumes rel: "crel S s a0" and en: "enabled S a s" and run: "act S chk a s = Inr s'"
  shows "\<exists>a1. crel S s' a1 \<and> (\<forall>es. replay (event_of S a s @ es) a0 = replay es a1)"
proof -
  obtain ns w where a0: "a0 = (ns, w)" by (cases a0)
  show ?thesis
  proof (cases "event_of S a s = []")
    case True
    with crel_silent [OF _ en run] rel show ?thesis by (auto simp: a0)
  next
    case False
    then show ?thesis
    proof (cases rule: event_cases)
      case (enq y sp t)
      with crel_enqueued [of s ns w chk y sp s' t] rel run show ?thesis unfolding a0 by blast
    next
      case (cas x nt p)
      with crel_cas [of s ns w chk s' x nt p] rel run have
        "crel S s' (remove1 x ns, if remove1 x ns = [] then nt else w)"
        "replay (event_of S a s @ es) (ns, w) = replay es (remove1 x ns, if remove1 x ns = [] then nt else w)" for es
        by (simp_all add: a0 crel_def)
      then show ?thesis unfolding a0 by blast
    next
      case (unlink x n p)
      with crel_unlink [of s ns w chk s' x n p] rel run show ?thesis unfolding a0 by blast
    next
      case (set v)
      with crel_set_state [of s ns w v chk s'] rel en run show ?thesis unfolding a0 by blast
    qed
  qed
qed

lemma crun_refines:
  "crel S s a0 \<Longrightarrow> crun S chk as s = Some (es, t) \<Longrightarrow> \<exists>a1. replay es a0 = Some a1 \<and> crel S t a1"
proof (induction as arbitrary: s a0 es)
  case Nil
  then show ?case by (cases a0) auto
next
  case (Cons a as)
  have en: "enabled S a s" using Cons.prems(2) by (auto split: if_splits)
  show ?case
  proof (cases "act S chk a s")
    case (Inl f)
    with Cons.prems en have "crun S chk as s = Some (es, t)" by (cases f) simp_all
    with Cons show ?thesis by blast
  next
    case (Inr s')
    obtain a1 where a1: "crel S s' a1" "\<And>es. replay (event_of S a s @ es) a0 = replay es a1"
      using crel_step [OF Cons.prems(1) en Inr] by blast
    obtain es' where "crun S chk as s' = Some (es', t)" "es = event_of S a s @ es'"
      using Cons.prems(2) en Inr by (auto split: option.splits)
    with a1 Cons.IH [OF a1(1)] show ?thesis by metis
  qed
qed

end

section \<open>Blocking and progress\<close>

text \<open>The cell whose link the lock holder is looking for.\<close>

definition waits_on :: "'d cqueue \<Rightarrow> next_ref option" where
  "waits_on s = (case cq_hold s of
     HHead \<Rightarrow> Some HeadRef | HWaitPrev _ _ p \<Rightarrow> Some (ptr_ref p) | HWaitNext x _ \<Rightarrow> Some (NextRef x) | _ \<Rightarrow> None)"

lemma hold_blocks_iff:
  assumes "waits_on s = Some r"
  shows "hold_step S s = Inl WouldBlock \<longleftrightarrow> get_next r (cq_mem s) = Inl WouldBlock"
  using assms by (cases "get_next r (cq_mem s)") (auto simp: waits_on_def hold_step_def Let_def split: holder_pc.splits)

lemma blocked_waits:
  assumes inv: "cinv S s ns" and blk: "hold_step S s = Inl WouldBlock" and w: "waits_on s \<noteq> None"
  obtains r y where "waits_on s = Some r" "succ HeadRef ns r = Some y" "cq_enq s y = ELink r"
proof -
  obtain r where r: "waits_on s = Some r" using w by auto
  then obtain y where y: "succ HeadRef ns r = Some y" "vcell s r = cell (cq_mem s) r"
  proof (cases "cq_hold s")
    case HHead
    with r cinvD(3) [OF inv] have "r = HeadRef" "ns \<noteq> []" by (simp_all add: waits_on_def hold_ok_def)
    with HHead that show thesis by (cases ns) (auto simp: vcell_def)
  next
    case (HWaitPrev x nt p)
    with r cinvD(3) [OF inv] that show thesis by (simp add: waits_on_def hold_ok_def before_def vcell_def)
  next
    case (HWaitNext x p)
    with r cinvD(3) [OF inv] have "r = NextRef x" "before ns p x" "succ HeadRef ns (NextRef x) \<noteq> None"
      by (auto simp: waits_on_def hold_ok_def)
    with HWaitNext that before_facts(6) [OF inv, of p x] show thesis by (auto simp: vcell_def)
  qed (use r in \<open>auto simp: waits_on_def\<close>)
  have "y \<in> pending s"
    using get_next_cell(1) [OF inv y] hold_blocks_iff [OF r, of S] blk by (auto split: if_splits)
  then obtain r' where r': "cq_enq s y = ELink r'" by (auto simp: pending_def)
  then have "succ HeadRef ns r' = Some y" using cinvD(4) [OF inv, of y] by (simp add: enq_ok_def)
  then have "r' = r" using succ_inj [OF cinvD(7) [OF inv] _ y(1)] by blast
  with r y(1) r' that show thesis by blast
qed

definition hold_rank :: "holder_pc \<Rightarrow> nat" where
  "hold_rank h = (case h of
     HWaitPrev _ _ _ \<Rightarrow> 8 | HRemove _ _ _ \<Rightarrow> 7 | HNull _ _ _ \<Rightarrow> 6 | HCas _ _ _ \<Rightarrow> 5
   | HWaitNext _ _ \<Rightarrow> 4 | HUnlink _ _ _ \<Rightarrow> 3 | HRelink _ _ _ \<Rightarrow> 2 | HMark _ \<Rightarrow> 1 | HHead \<Rightarrow> 1 | _ \<Rightarrow> 0)"

lemma hold_rank_less:
  "hold_step S s = Inr s' \<Longrightarrow> 0 < hold_rank (cq_hold s) \<Longrightarrow> hold_rank (cq_hold s') < hold_rank (cq_hold s)"
  by (cases "cq_hold s") (auto simp: hold_rank_def hold_step_def Let_def bind_res_eq_Inr_iff split: if_splits)

lemma hold_keeps_enq: "hold_step S s = Inr s' \<Longrightarrow> cq_enq s' = cq_enq s"
  by (cases "cq_hold s") (auto simp: hold_step_def Let_def bind_res_eq_Inr_iff split: if_splits)

lemma hold_stays: "hold_step S s = Inr s' \<Longrightarrow> cq_hold s \<noteq> HNone \<Longrightarrow> cq_hold s' \<noteq> HNone"
  by (cases "cq_hold s") (auto simp: hold_step_def Let_def bind_res_eq_Inr_iff split: if_splits)

context queue_state
begin

lemma hold_unblocked:
  assumes inv: "cinv S s ns" and h: "cq_hold s \<noteq> HNone" and none: "waits_on s = None"
  shows "\<exists>s'. hold_step S s = Inr s'"
proof (cases "cq_hold s")
  case (HRemove x nt p)
  then show ?thesis using hold_remove [OF inv] by force
next
  case (HNull x nt p)
  then show ?thesis using hold_null [OF inv] by force
next
  case (HCas x nt p)
  then show ?thesis using hold_cas [OF inv] by force
next
  case (HUnlink x n p)
  then show ?thesis using hold_unlink [OF inv] by force
next
  case (HRelink x n p)
  then show ?thesis using hold_relink [OF inv] by force
next
  case (HMark x)
  then show ?thesis using hold_mark [OF inv] by force
qed (use h none in \<open>simp_all add: waits_on_def hold_step_def\<close>)

lemma blocked_link_frees:
  assumes inv: "cinv S s ns" and blk: "hold_step S s = Inl WouldBlock" "cq_hold s \<noteq> HNone"
  shows "\<exists>y r s' s''. cq_enq s y = ELink r \<and> act S chk (AEnqueue y False) s = Inr s' \<and> act S chk AHold s' = Inr s''"
proof -
  obtain r y where ry: "waits_on s = Some r" "succ HeadRef ns r = Some y" "cq_enq s y = ELink r"
  proof (rule blocked_waits [OF inv blk(1)])
    show "waits_on s \<noteq> None" using hold_unblocked [OF inv blk(2)] blk(1) by force
  qed
  obtain s' where s': "act S chk (AEnqueue y False) s = Inr s'" "cinv S s' ns"
    using enq_link [OF inv ry(3)] by blast
  obtain q1 where q1: "store_next r y (cq_mem s) = Inr q1" "s' = s\<lparr>cq_mem := q1, cq_enq := (cq_enq s)(y := EIdle)\<rparr>"
    using s'(1) ry(3) by (auto simp: enq_step_def Let_def bind_res_eq_Inr_iff)
  have "load_next r q1 = Inr y"
    using q1(1) by (auto simp: store_next_def load_next_def split: next_ref.splits option.splits)
  moreover have "y \<noteq> 0" using chain_node_addr [OF cinvD(1) [OF inv]] succ_SomeD [OF ry(2)] by auto
  ultimately have "get_next r (cq_mem s') \<noteq> Inl WouldBlock" using q1(2) by (simp add: get_next_def)
  moreover have w: "waits_on s' = Some r" and h: "cq_hold s' \<noteq> HNone" using ry(1) blk(2) q1(2) by (simp_all add: waits_on_def)
  ultimately have "hold_step S s' \<noteq> Inl WouldBlock" using hold_blocks_iff [OF w] by blast
  moreover have "enabled S AHold s'" using h by simp
  ultimately obtain s'' where "act S chk AHold s' = Inr s''"
    using hold_any [OF s'(2), of chk] by auto
  with ry(3) s'(1) show ?thesis by blast
qed

lemma hold_completes:
  "cinv S s ns \<Longrightarrow> cq_hold s \<noteq> HNone \<Longrightarrow> pending s = {} \<Longrightarrow>
   \<exists>k es s'. k \<le> hold_rank (cq_hold s) \<and> crun S chk (replicate k AHold) s = Some (es, s') \<and> hold_rank (cq_hold s') = 0"
proof (induction "hold_rank (cq_hold s)" arbitrary: s ns rule: less_induct)
  case less
  show ?case
  proof (cases "hold_rank (cq_hold s) = 0")
    case True
    then show ?thesis by (intro exI [of _ 0]) simp
  next
    case False
    have "\<not> awaits s ns" using less.prems(3) by (auto simp: awaits_def pending_def)
    then obtain s1 where s1: "hold_step S s = Inr s1" "cinv S s1 (lin S AHold s ns)"
      using hold_any [OF less.prems(1), of chk] less.prems(2) by auto
    have d: "hold_rank (cq_hold s1) < hold_rank (cq_hold s)" using hold_rank_less [OF s1(1)] False by simp
    moreover have "cq_hold s1 \<noteq> HNone" "pending s1 = {}"
      using hold_stays [OF s1(1)] hold_keeps_enq [OF s1(1)] less.prems by (auto simp: pending_def)
    ultimately obtain k es s' where k: "k \<le> hold_rank (cq_hold s1)" "crun S chk (replicate k AHold) s1 = Some (es, s')"
      "hold_rank (cq_hold s') = 0" using less.hyps s1(2) by blast
    then show ?thesis using d s1(1) less.prems(2)
      by (intro exI [of _ "Suc k"]) (auto simp del: event_of.simps)
  qed
qed

end

text \<open>What every action of a run keeps, the run keeps.\<close>

lemma crun_keeps:
  assumes "crun S chk as s = Some (es, t)" and "P s"
    and "\<And>a s s'. a \<in> set as \<Longrightarrow> P s \<Longrightarrow> enabled S a s \<Longrightarrow> act S chk a s = Inr s' \<Longrightarrow> P s'"
  shows "P t"
  using assms
proof (induction as arbitrary: s es)
  case (Cons a as)
  have en: "enabled S a s" using Cons.prems(1) by (auto split: if_splits)
  show ?case
  proof (cases "act S chk a s")
    case (Inl f)
    with Cons.prems(1) en have "crun S chk as s = Some (es, t)" by (cases f) simp_all
    then show ?thesis by (rule Cons.IH [OF _ Cons.prems(2)]) (metis Cons.prems(3) list.set_intros(2))
  next
    case (Inr s')
    then have s': "P s'" using Cons.prems(2,3) en by (metis list.set_intros(1))
    obtain es' where "crun S chk as s' = Some (es', t)"
      using Cons.prems(1) en Inr by (auto split: option.splits)
    then show ?thesis by (rule Cons.IH [OF _ s']) (metis Cons.prems(3) list.set_intros(2))
  qed
qed simp

lemma hold_stays_run:
  assumes "crun S chk (replicate k AHold) s = Some (es, s')" and "cq_hold s \<noteq> HNone"
  shows "cq_hold s' \<noteq> HNone"
  by (rule crun_keeps [OF assms(1), where P = "\<lambda>s. cq_hold s \<noteq> HNone"]) (use assms(2) hold_stays in auto)

lemma act_enq_other:
  assumes "act S chk a s = Inr s'" and "\<And>sp. a \<noteq> AEnqueue y sp"
  shows "cq_enq s' y = cq_enq s y"
proof (cases a)
  case (AEnqueue z sp)
  then have "z \<noteq> y" using assms(2) by auto
  with AEnqueue assms(1) show ?thesis
    by (cases "cq_enq s z") (auto simp: bind_res_eq_Inr_iff enq_step_def Let_def split: if_splits)
next
  case AHold
  with assms(1) hold_keeps_enq show ?thesis by fastforce
qed (use assms(1) in \<open>auto simp: bind_res_eq_Inr_iff split: option.splits holder_pc.splits\<close>)

lemma crun_enq:
  assumes "crun S chk as s = Some (es, t)" and "\<forall>sp. AEnqueue y sp \<notin> set as"
  shows "cq_enq t y = cq_enq s y"
  by (rule crun_keeps [OF assms(1), where P = "\<lambda>t. cq_enq t y = cq_enq s y"])
    (use assms(2) act_enq_other in metis)+

lemma crun_reach:
  assumes "reach (cinit S) (cstep S chk) s" and "crun S chk as s = Some (es, t)"
  shows "reach (cinit S) (cstep S chk) t"
  by (rule crun_keeps [OF assms(2), where P = "reach (cinit S) (cstep S chk)"])
    (auto intro: assms(1) reach_step cstepI)

lemma crun_init_reach:
  assumes "cinit S s" and "crun S chk as s = Some (es, t)"
  shows "reach (cinit S) (cstep S chk) t"
  by (rule crun_reach [OF _ assms(2)]) (rule reach_init, rule assms(1))

subsection \<open>An example\<close>

text \<open>
  Two threads race. The second one loses the exchange of the tail and retries; the first one stops
  before it stores its link, so that the lock holder finds a node in the queue but no head.
\<close>

definition racing_start :: "unit cqueue" where
  "racing_start = \<lparr>cq_mem = new_impl 0, cq_enq = (\<lambda>_. EIdle), cq_hold = HNone\<rparr>"

definition racing_setup :: "unit action list" where
  "racing_setup = [AAlloc 4096 (), AAlloc 8192 (), AEnqueue 4096 False, AEnqueue 8192 False,
     AEnqueue 4096 False, AEnqueue 8192 False, AEnqueue 4096 False, AEnqueue 8192 False,
     AEnqueue 8192 False, AEnqueue 8192 False, AEnqueue 8192 False, ALock, ADequeue]"

definition racing_end :: "unit action list" where
  "racing_end = [AHold, AEnqueue 4096 False, AHold, AFinish 0, AHold, AHold, AHold, AHold, AUnlock]"

lemma racing_init: "cinit unit_state racing_start"
  by (simp add: cinit_def racing_start_def is_state_def unit_state_def)

lemma racing_run:
  "map_option fst (crun unit_state (\<lambda>_. True) (racing_setup @ racing_end) racing_start)
   = Some [Enqueued 4096, Enqueued 8192, Taken 4096 True None]"
  by code_simp

lemma is_blocked: "(case r of Inl WouldBlock \<Rightarrow> True | _ \<Rightarrow> False) \<longleftrightarrow> r = Inl WouldBlock"
  by (auto split: sum.split fault.split)

lemma racing_blocks:
  "map_option (\<lambda>(es, s). (case act unit_state (\<lambda>_. True) AHold s of Inl WouldBlock \<Rightarrow> True | _ \<Rightarrow> False, cq_hold s))
     (crun unit_state (\<lambda>_. True) racing_setup racing_start) = Some (True, HHead)"
  by code_simp

lemma racing_relinks:
  "map_option (\<lambda>(es, s). (cq_hold s, cq_enq s 4096, cq_enq s 8192))
     (crun unit_state (\<lambda>_. True) (racing_setup @ take 4 racing_end) racing_start)
   = Some (HRemove 4096 0 HEAD_MARKER, EIdle, EIdle)"
  by code_simp

section \<open>Properties\<close>

text \<open>
  C2. Linearizability. In every interleaving of enqueueing threads, node owners and the lock holder,
  the successful exchanges of the tail and the unlinking stores, in the order they happen, form a
  legal history of a plain list: an enqueue appends, a removal takes a node that is in the list, a
  dequeue takes the first one, a removal by the tail exchange takes the last one, and the state the
  queue shows when it is empty is the one its last removal or update left. The tail word always
  names the end of that list, and whenever no operation is in flight the memory is a well-formed
  queue for exactly that list, the starting point of all the sequential theorems.
\<close>

theorem concurrent_linearizable:
  assumes "queue_state S valid dflt" and "cinit S s0" and "crun S chk as s0 = Some (es, s)"
  shows "\<exists>ns w. replay es ([], q_tail (cq_mem s0)) = Some (ns, w)
    \<and> tail_node S (cq_mem s) = (if ns = [] then None else Some (last ns))
    \<and> (ns = [] \<longrightarrow> q_tail (cq_mem s) = w)
    \<and> (quiescent s \<longrightarrow> queue_wf S (cq_mem s) ns)"
proof -
  have "crel S s0 ([], q_tail (cq_mem s0))"
    using queue_state.init_cinv [OF assms(1,2)] by (simp add: crel_def)
  then obtain ns w where "replay es ([], q_tail (cq_mem s0)) = Some (ns, w)" "crel S s (ns, w)"
    using queue_state.crun_refines [OF assms(1) _ assms(3)] by (metis surj_pair)
  then show ?thesis using quiescent_wf [of S s ns] cinvD(2) [of S s ns] by (auto simp: crel_def)
qed

theorem concurrent_linearizable_witness:
  "\<exists>s ns w. crun unit_state (\<lambda>_. True) (racing_setup @ racing_end) racing_start
       = Some ([Enqueued 4096, Enqueued 8192, Taken 4096 True None], s)
     \<and> replay [Enqueued 4096, Enqueued 8192, Taken 4096 True None] ([], 0) = Some (ns, w) \<and> ns = [8192]
     \<and> tail_node unit_state (cq_mem s) = Some (last ns)"
proof -
  obtain s where s: "crun unit_state (\<lambda>_. True) (racing_setup @ racing_end) racing_start
       = Some ([Enqueued 4096, Enqueued 8192, Taken 4096 True None], s)"
    using racing_run by auto
  have z: "q_tail (cq_mem racing_start) = 0" by (simp add: racing_start_def new_impl_def)
  show ?thesis
    using concurrent_linearizable [OF unit_qs.queue_state_axioms racing_init s] s by (auto simp: z)
qed

text \<open>
  C3. Memory safety under concurrency. In every reachable state every action a client may take is
  free of panics and of accesses to freed or unallocated nodes; the only action that can fail to
  complete is a step of the lock holder, and then some thread is between its exchange of the tail
  and its store of the link, and that one store is enough for the holder to go on.
\<close>

theorem concurrent_safe:
  assumes "queue_state S valid dflt" and "reach (cinit S) (cstep S chk) s" and "enabled S a s"
  shows "(\<exists>s'. act S chk a s = Inr s') \<or> (a = AHold \<and> act S chk a s = Inl WouldBlock
    \<and> (\<exists>y r s' s''. cq_enq s y = ELink r \<and> act S chk (AEnqueue y False) s = Inr s'
         \<and> act S chk AHold s' = Inr s''))"
proof -
  obtain ns where inv: "cinv S s ns"
    using queue_state.cq_reach [OF assms(1,2)] by blast
  show ?thesis
    using queue_state.act_any [OF assms(1) inv assms(3), of chk] queue_state.blocked_link_frees [OF assms(1) inv, of chk] assms(3)
    by auto
qed

theorem concurrent_safe_witness:
  "\<exists>s :: unit cqueue. reach (cinit unit_state) (cstep unit_state (\<lambda>_. True)) s \<and> cq_hold s = HHead
     \<and> act unit_state (\<lambda>_. True) AHold s = Inl WouldBlock
     \<and> (\<exists>y r s' s''. cq_enq s y = ELink r \<and> act unit_state (\<lambda>_. True) (AEnqueue y False) s = Inr s'
          \<and> act unit_state (\<lambda>_. True) AHold s' = Inr s'')"
proof -
  obtain es s where run: "crun unit_state (\<lambda>_. True) racing_setup racing_start = Some (es, s)"
    and h: "cq_hold s = HHead" "act unit_state (\<lambda>_. True) AHold s = Inl WouldBlock"
    using racing_blocks unfolding is_blocked by (auto simp del: act.simps)
  have r: "reach (cinit unit_state) (cstep unit_state (\<lambda>_. True)) s"
    using crun_init_reach [OF racing_init run] .
  show ?thesis
    using concurrent_safe [OF unit_qs.queue_state_axioms r, of AHold] h r by (auto simp del: act.simps)
qed

text \<open>
  C14. The lock holder makes progress on its own: once every thread that has exchanged the tail has
  also stored its link, a \<^verbatim>\<open>dequeue\<close>, \<^verbatim>\<open>pop\<close> or
  \<^verbatim>\<open>remove\<close> that is in flight in any reachable state completes within eight steps of
  the holder, with no step of any other thread.
\<close>

theorem holder_completes:
  assumes "queue_state S valid dflt" and "reach (cinit S) (cstep S chk) s"
    and "cq_hold s \<noteq> HNone" and "\<And>y r. cq_enq s y \<noteq> ELink r"
  shows "\<exists>k es s'. k \<le> 8 \<and> crun S chk (replicate k AHold) s = Some (es, s')
    \<and> (cq_hold s' = HHeld \<or> (\<exists>x. cq_hold s' = HDequeue x))"
proof -
  obtain ns where inv: "cinv S s ns" using queue_state.cq_reach [OF assms(1,2)] by blast
  have "pending s = {}" using assms(4) by (simp add: pending_def)
  then obtain k es s' where k: "k \<le> hold_rank (cq_hold s)" "crun S chk (replicate k AHold) s = Some (es, s')"
    "hold_rank (cq_hold s') = 0"
    using queue_state.hold_completes [OF assms(1) inv assms(3), of chk] by blast
  have "cq_hold s' \<noteq> HNone" using hold_stays_run [OF k(2) assms(3)] .
  then have "cq_hold s' = HHeld \<or> (\<exists>x. cq_hold s' = HDequeue x)"
    using k(3) by (cases "cq_hold s'") (simp_all add: hold_rank_def)
  moreover have "hold_rank (cq_hold s) \<le> 8" by (simp add: hold_rank_def split: holder_pc.split)
  ultimately show ?thesis using k by (meson le_trans)
qed

theorem holder_completes_witness:
  "\<exists>(s :: unit cqueue) k es s'. cq_hold s = HRemove 4096 0 HEAD_MARKER \<and> k \<le> 8
     \<and> crun unit_state (\<lambda>_. True) (replicate k AHold) s = Some (es, s')
     \<and> (cq_hold s' = HHeld \<or> (\<exists>x. cq_hold s' = HDequeue x))"
proof -
  obtain es s where run: "crun unit_state (\<lambda>_. True) (racing_setup @ take 4 racing_end) racing_start = Some (es, s)"
    and h: "cq_hold s = HRemove 4096 0 HEAD_MARKER" "cq_enq s 4096 = EIdle" "cq_enq s 8192 = EIdle"
    using racing_relinks by auto
  have r: "reach (cinit unit_state) (cstep unit_state (\<lambda>_. True)) s"
    using crun_init_reach [OF racing_init run] .
  have idle: "cq_enq s y = EIdle" for y
  proof (cases "y \<in> {4096, 8192}")
    case False
    then show ?thesis using crun_enq [OF run, of y] by (simp add: racing_start_def racing_setup_def racing_end_def)
  qed (use h in auto)
  have "\<exists>k es s'. k \<le> 8 \<and> crun unit_state (\<lambda>_. True) (replicate k AHold) s = Some (es, s')
    \<and> (cq_hold s' = HHeld \<or> (\<exists>x. cq_hold s' = HDequeue x))"
    by (rule holder_completes [OF unit_qs.queue_state_axioms r]) (simp_all add: h(1) idle)
  with h(1) show ?thesis by blast
qed

end
