(* ===== verification/Drain.thy ===== *)
theory Drain
  imports Node "HOL-Library.Sublist"
begin

text \<open>
  \<^verbatim>\<open>src/queue/drain.rs\<close>: all nodes are taken off the queue at once and handed out
  one by one. The nodes hang off the drain's own sentinel link, which lives at the address the
  drain is pinned to. While the lock is held the list is open; before the lock is given up
  (\<open>execute_unlocked\<close>) it is closed to a ring through the sentinel, so that nodes can
  remove themselves from it without touching the queue.
\<close>

section \<open>The drain\<close>

record drain =
  d_sentinel :: addr
  d_locked :: bool

definition drain_new :: "'s state_ops \<Rightarrow> usize \<Rightarrow> addr \<Rightarrow> 'd queue \<Rightarrow> (drain \<times> 'd queue) res" where
  "drain_new S new_tail s q =
     bind_res (if tail_node S q \<noteq> None
               then bind_res (get_next HeadRef q) (\<lambda>head.
                    bind_res (store_next HeadRef 0 q) (\<lambda>q.
                      case tail_to_enum S (q_tail q) of
                        Ptr tail \<Rightarrow> Inr (head, tail, q\<lparr>q_tail := new_tail\<rparr>)
                      | State _ \<Rightarrow> Inl Undefined))
               else Inr (0, 0, q)) (\<lambda>(head, tail, q).
       Inr (\<lparr>d_sentinel = s, d_locked = True\<rparr>,
            q\<lparr>q_links := (q_links q)(s \<mapsto> \<lparr>link_prev = tail, link_next = head\<rparr>)\<rparr>))"

definition locked_drain :: "'s state_ops \<Rightarrow> addr \<Rightarrow> 'd queue \<Rightarrow> (drain \<times> 'd queue) res" where
  "locked_drain S s q = drain_new S 0 s q"

definition drain_try_set_state :: "'s state_ops \<Rightarrow> 's \<Rightarrow> addr \<Rightarrow> 'd queue \<Rightarrow> (drain \<times> 'd queue) res" where
  "drain_try_set_state S st s q = bind_res (enum_to_tail S (State st)) (\<lambda>new_tail. drain_new S new_tail s q)"

definition drain_head :: "drain \<Rightarrow> 'd queue \<Rightarrow> addr option res" where
  "drain_head d q =
     bind_res (load_next (NextRef (d_sentinel d)) q) (\<lambda>p. Inr (if p = 0 then None else Some p))"

definition drain_set_head :: "drain \<Rightarrow> addr \<Rightarrow> 'd queue \<Rightarrow> 'd queue res" where
  "drain_set_head d head q = store_next (NextRef (d_sentinel d)) head q"

definition drain_is_empty :: "drain \<Rightarrow> 'd queue \<Rightarrow> bool res" where
  "drain_is_empty d q = bind_res (load_next (NextRef (d_sentinel d)) q) (\<lambda>p. Inr (p = 0))"

definition drain_next :: "drain \<Rightarrow> 'd queue \<Rightarrow> addr option res" where
  "drain_next d q =
     (if d_locked d then drain_head d q
      else Inl (Panic ''called `Option::unwrap()` on a `None` value''))"

text \<open>
  The closure \<open>f\<close> is told whether the lock is held when it runs; \<open>others\<close> is all that
  happens to the queue until the lock is granted again, by the closure and by other threads.
\<close>

definition execute_unlocked ::
  "(bool \<Rightarrow> 'r) \<Rightarrow> ('d queue \<Rightarrow> 'd queue) \<Rightarrow> drain \<Rightarrow> 'd queue \<Rightarrow> ('r \<times> 'd queue) res" where
  "execute_unlocked f others d q =
     (let sentinel_ptr = d_sentinel d in
      bind_res (drain_head d q) (\<lambda>head.
      bind_res (case head of None \<Rightarrow> Inr q
                | Some next \<Rightarrow> bind_res (store_prev next sentinel_ptr q) (\<lambda>q.
                    bind_res (load_prev sentinel_ptr q) (\<lambda>tail.
                      store_next (NextRef tail) sentinel_ptr q))) (\<lambda>q.
      bind_res (if d_locked d then Inr (unlock q) else Inl Undefined) (\<lambda>q.
      let res = f (q_locked q) in
      bind_res (lock others q) (\<lambda>q.
      bind_res (drain_head d q) (\<lambda>head.
      bind_res (if head = Some sentinel_ptr
                then bind_res (load_prev sentinel_ptr q) (\<lambda>tail.
                       if tail = sentinel_ptr then drain_set_head d 0 q else Inl (Panic ''assertion failed''))
                else Inr q) (\<lambda>q. Inr (res, q))))))))"

definition node_drained_drop :: "drain \<Rightarrow> addr \<Rightarrow> 'd queue \<Rightarrow> 'd queue res" where
  "node_drained_drop d node q =
     bind_res (load_prev (d_sentinel d) q) (\<lambda>tail.
     bind_res (if node = tail then Inr 0
               else if d_locked d then get_next (NextRef node) q else Inl Undefined) (\<lambda>next.
     bind_res (drain_set_head d next q) (\<lambda>q.
       store_prev node (into_ptr Dequeued) q)))"

text \<open>
  The loops take a bound on the number of rounds.
\<close>

fun drain_loop :: "nat \<Rightarrow> drain \<Rightarrow> 'd queue \<Rightarrow> 'd queue res" where
  "drain_loop 0 d q = Inl OutOfFuel"
| "drain_loop (Suc n) d q =
     bind_res (drain_head d q) (\<lambda>head. case head of
        None \<Rightarrow> Inr q
      | Some node \<Rightarrow> bind_res (node_drained_drop d node q) (drain_loop n d))"

definition drain_drain :: "nat \<Rightarrow> ('d queue \<Rightarrow> 'd queue) \<Rightarrow> drain \<Rightarrow> 'd queue \<Rightarrow> (drain \<times> 'd queue) res" where
  "drain_drain n gap d q =
     bind_res (if d_locked d then Inr q else lock gap q) (\<lambda>q.
     bind_res (drain_loop n (d\<lparr>d_locked := True\<rparr>) q) (\<lambda>q. Inr (d\<lparr>d_locked := True\<rparr>, q)))"

text \<open>
  Dropping a drain empties it; then its fields are dropped, which releases the lock and ends the
  sentinel's life.
\<close>

definition drain_drop :: "nat \<Rightarrow> ('d queue \<Rightarrow> 'd queue) \<Rightarrow> drain \<Rightarrow> 'd queue \<Rightarrow> 'd queue res" where
  "drain_drop n gap d q =
     bind_res (drain_is_empty d q) (\<lambda>empty.
     bind_res (if empty then Inr (d, q) else drain_drain n gap d q) (\<lambda>(d, q).
       Inr ((if d_locked d then unlock q else q)\<lparr>q_links := (q_links q)(d_sentinel d := None)\<rparr>)))"

text \<open>
  \<^verbatim>\<open>for_each\<close>: \<open>on_next\<close> sees the helper and a node's data and says whether
  to release the lock; \<open>on_unlock\<close> updates the helper, it is told whether the lock is held
  when it is called; \<open>others\<close> is what happens to the queue while the lock is released. A callback that can panic keeps the
  fault in its helper.
\<close>

fun for_each_loop ::
  "nat \<Rightarrow> ('h \<Rightarrow> 'd \<Rightarrow> bool \<times> 'h \<times> 'd) \<Rightarrow> (bool \<Rightarrow> 'h \<Rightarrow> 'h) \<Rightarrow> ('d queue \<Rightarrow> 'd queue)
   \<Rightarrow> drain \<Rightarrow> 'h \<Rightarrow> 'd queue \<Rightarrow> ('h \<times> 'd queue) res" where
  "for_each_loop 0 on_next on_unlock others d helper q = Inl OutOfFuel"
| "for_each_loop (Suc n) on_next on_unlock others d helper q =
     bind_res (drain_next d q) (\<lambda>node. case node of
        None \<Rightarrow> Inr (helper, q)
      | Some node \<Rightarrow>
          bind_res (with_data_mut node (\<lambda>data. let (release, helper, data) = on_next helper data
                                          in ((release, helper), data)) q) (\<lambda>((release, helper), q).
          bind_res (node_drained_drop d node q) (\<lambda>q.
            if \<not> release then for_each_loop n on_next on_unlock others d helper q
            else bind_res (drain_head d q) (\<lambda>head. case head of
                None \<Rightarrow> Inr (helper, q)
              | Some _ \<Rightarrow> bind_res (execute_unlocked (\<lambda>locked. on_unlock locked helper) others d q)
                  (\<lambda>(helper, q). for_each_loop n on_next on_unlock others d helper q)))))"

definition for_each ::
  "nat \<Rightarrow> ('h \<Rightarrow> 'd \<Rightarrow> bool \<times> 'h \<times> 'd) \<Rightarrow> (bool \<Rightarrow> 'h \<Rightarrow> 'h) \<Rightarrow> ('d queue \<Rightarrow> 'd queue)
   \<Rightarrow> drain \<Rightarrow> 'h \<Rightarrow> 'd queue \<Rightarrow> ('h \<times> 'd queue) res" where
  "for_each n on_next on_unlock others d helper q =
     bind_res (for_each_loop n on_next on_unlock others d helper q) (\<lambda>(helper, q).
     bind_res (drain_drop n others d q) (\<lambda>q. Inr (on_unlock (q_locked q) helper, q)))"

section \<open>Invariants\<close>

text \<open>
  \<open>drain_open\<close>: the list while the lock is held. Its last node may point anywhere and its
  first node's \<open>prev\<close> may still be what it was in the queue; the sentinel knows both ends.
  \<open>drain_ring\<close>: the list while the lock is released, closed through the sentinel.
\<close>

definition drain_open :: "'d queue \<Rightarrow> addr set \<Rightarrow> addr \<Rightarrow> addr list \<Rightarrow> bool" where
  "drain_open q pend s ds \<longleftrightarrow> prev_of q s \<noteq> None
     \<and> (if ds = [] then cell q (NextRef s) = Some 0
        else hd ds \<notin> pend \<and> prev_of q s = Some (last ds) \<and> prev_of q (hd ds) \<noteq> None
          \<and> (\<exists>nx. chain (cell q) ((prev_of q)(hd ds \<mapsto> s)) pend (NextRef s) ds nx))"

definition drain_ring :: "'d queue \<Rightarrow> addr set \<Rightarrow> addr \<Rightarrow> addr list \<Rightarrow> bool" where
  "drain_ring q pend s ds \<longleftrightarrow>
     (ds \<noteq> [] \<longrightarrow> hd ds \<notin> pend) \<and> chain (cell q) (prev_of q) pend (NextRef s) ds s
     \<and> prev_of q s = Some (ref_ptr (lastref (NextRef s) ds))"

text \<open>The queue next to a drained list; \<open>Q\<close> are all nodes in the state \<^verbatim>\<open>Queued\<close>.\<close>

definition beside :: "'s state_ops \<Rightarrow> 'd queue \<Rightarrow> addr set \<Rightarrow> addr \<Rightarrow> addr list \<Rightarrow> addr list \<Rightarrow> bool" where
  "beside S q pend s ds ms \<longleftrightarrow> queue_inv S q pend ms \<and> nodes_ok q {s} (set ms \<union> set ds)
     \<and> node_addr s \<and> s \<notin> set ms \<and> s \<notin> set ds \<and> s \<notin> pend \<and> set ms \<inter> set ds = {}"

definition draining :: "'s state_ops \<Rightarrow> 'd queue \<Rightarrow> addr set \<Rightarrow> addr \<Rightarrow> addr list \<Rightarrow> addr list \<Rightarrow> bool" where
  "draining S q pend s ds ms \<longleftrightarrow> beside S q pend s ds ms \<and> drain_open q pend s ds"

definition drain_paused :: "'s state_ops \<Rightarrow> 'd queue \<Rightarrow> addr set \<Rightarrow> addr \<Rightarrow> addr list \<Rightarrow> addr list \<Rightarrow> bool" where
  "drain_paused S q pend s ds ms \<longleftrightarrow> beside S q pend s ds ms \<and> drain_ring q pend s ds"

section \<open>Lemmas\<close>

lemma hd_disjoint: "xs \<noteq> [] \<Longrightarrow> set xs \<inter> A = {} \<Longrightarrow> hd xs \<notin> A"
  by (cases xs) auto

lemma queue_inv_untouched:
  assumes inv: "queue_inv S q pend ns" and t: "touches A q q'" and d: "set ns \<inter> A = {}"
    and e: "q_tail q' = q_tail q" "cell q' HeadRef = cell q HeadRef"
  shows "queue_inv S q' pend ns"
proof -
  have "chain (cell q') (prev_of q') pend HeadRef ns 0"
    by (rule chain_cong [OF queue_inv_chain [OF inv]]) (use t d e in \<open>auto simp: touches_def refs_def\<close>)
  with e queue_inv_tail [OF inv] show ?thesis by (simp add: queue_inv_def tail_node_def)
qed

lemma drain_open_untouched:
  assumes op: "drain_open q pend s ds" and t: "touches A q q'" and d: "set ds \<inter> A = {}" "s \<notin> A"
  shows "drain_open q' pend s ds"
proof (cases "ds = []")
  case False
  then have h: "hd ds \<notin> A" using d by (intro hd_disjoint)
  from op False obtain nx where "chain (cell q) ((prev_of q)(hd ds \<mapsto> s)) pend (NextRef s) ds nx"
    by (auto simp: drain_open_def)
  then have "chain (cell q') ((prev_of q')(hd ds \<mapsto> s)) pend (NextRef s) ds nx"
    by (rule chain_cong) (use t d h in \<open>auto simp: touches_def refs_def\<close>)
  with op False h d t show ?thesis by (auto simp: drain_open_def touches_def)
qed (use op t d in \<open>simp add: drain_open_def touches_def\<close>)

lemma drain_ring_untouched:
  assumes rg: "drain_ring q pend s ds" and t: "touches A q q'" and d: "set ds \<inter> A = {}" "s \<notin> A"
  shows "drain_ring q' pend s ds"
proof -
  have "chain (cell q') (prev_of q') pend (NextRef s) ds s"
    by (rule chain_cong [of "cell q" "prev_of q"]) (use rg t d in \<open>auto simp: drain_ring_def touches_def refs_def\<close>)
  with rg d t show ?thesis by (auto simp: drain_ring_def touches_def)
qed

lemma touches_cells:
  assumes "frame q q'" and "cell q' HeadRef = cell q HeadRef"
    and "\<And>z. z \<notin> A \<Longrightarrow> prev_of q' z = prev_of q z" "\<And>z. z \<notin> A \<Longrightarrow> cell q' (NextRef z) = cell q (NextRef z)"
  shows "touches A q q'"
  using assms by (simp add: touches_def)

text \<open>What a step on the nodes \<open>A\<close> of the drained list leaves of the queue beside it.\<close>

lemma beside_step:
  assumes b: "beside S q pend s ds ms" and t: "touches A q q'" and d: "set ms \<inter> A = {}"
    and e: "q_tail q' = q_tail q" "cell q' HeadRef = cell q HeadRef" and ds: "set ds' \<subseteq> set ds" "set ds - A \<subseteq> set ds'"
    and A: "\<And>z v. z \<in> A \<Longrightarrow> z \<noteq> s \<Longrightarrow> prev_of q' z = Some v \<Longrightarrow> (if z \<in> set ds' then v \<noteq> 0 \<and> v \<noteq> 1 else v = 1)"
  shows "beside S q' pend s ds' ms"
proof -
  have inv: "queue_inv S q' pend ms"
    by (rule queue_inv_untouched [OF _ t d e]) (use b in \<open>simp add: beside_def\<close>)
  have "nodes_ok q' {s} (set ms \<union> set ds')"
  proof (rule nodes_ok_update [OF _ t])
    show "nodes_ok q {s} (set ms \<union> set ds)" using b by (simp add: beside_def)
    show "set ms \<union> set ds' - A = set ms \<union> set ds - A" using ds by blast
    fix z v
    assume z: "z \<in> A" "z \<notin> {s}" "prev_of q' z = Some v"
    have "dom (q_links q') = dom (q_links q)" using t by (simp add: touches_def frame_def)
    then have "prev_of q z \<noteq> None" using z(3) live_iff(1) [of z q] live_iff(1) [of z q'] by simp
    then have "node_addr z" using b z by (auto simp: beside_def nodes_ok_def)
    with A [OF z(1) _ z(3)] z d show "node_addr z \<and> (z \<in> set ms \<union> set ds' \<longleftrightarrow> v \<noteq> 0 \<and> v \<noteq> 1)
        \<and> (v = 0 \<longrightarrow> cell q' (NextRef z) = Some 0)" by (auto split: if_splits)
  qed
  with inv b ds show ?thesis by (auto simp: beside_def)
qed

lemma drain_open_cons:
  assumes op: "drain_open q pend s (x # xs)"
  obtains nx where "chain (cell q) ((prev_of q)(x \<mapsto> s)) pend (NextRef s) (x # xs) nx" "prev_of q x \<noteq> None"
    "x \<notin> pend" "prev_of q s = Some (last (x # xs))" "cell q (NextRef s) = Some x" "node_addr x" "distinct (x # xs)"
    "s \<notin> set (x # xs)"
proof -
  from op obtain nx where ch: "chain (cell q) ((prev_of q)(x \<mapsto> s)) pend (NextRef s) (x # xs) nx"
    and p: "x \<notin> pend" by (auto simp: drain_open_def)
  have "cell q (NextRef s) = Some x" using chain_cell [OF ch, of "NextRef s"] p by (simp add: refs_def)
  moreover have "distinct (x # xs)" "s \<notin> set (x # xs)" using chain_linear [OF ch] by (auto simp: linear_def)
  ultimately show ?thesis
    using that [OF ch] op p chain_node_addr [OF ch] by (auto simp: drain_open_def)
qed

lemma drain_next_cell:
  assumes ch: "chain (cell q) pv pend (NextRef s) (x # xs) nx" and y: "xs \<noteq> []" "hd xs \<notin> pend"
  shows "cell q (NextRef x) = Some (hd xs)" "succ (NextRef s) (x # xs) (NextRef x) = Some (hd xs)" "node_addr (hd xs)"
proof -
  have "s \<noteq> x" using chain_linear [OF ch] by simp
  with y show "succ (NextRef s) (x # xs) (NextRef x) = Some (hd xs)" by (cases xs) auto
  with chain_cell [OF ch, of "NextRef x"] y show "cell q (NextRef x) = Some (hd xs)" by (simp add: refs_def)
  show "node_addr (hd xs)" using chain_node_addr [OF ch] y by simp
qed

lemma drained_drop_ok:
  assumes d: "draining S q pend s (x # xs) ms" and nx: "xs \<noteq> [] \<Longrightarrow> hd xs \<notin> pend"
  obtains q' where "node_drained_drop \<lparr>d_sentinel = s, d_locked = True\<rparr> x q = Inr q'"
    "draining S q' pend s xs ms" "prev_of q' x = Some 1" "touches {s, x} q q'" "q_tail q' = q_tail q"
proof -
  have b: "beside S q pend s (x # xs) ms" and op: "drain_open q pend s (x # xs)"
    using d by (simp_all add: draining_def)
  obtain n where ch: "chain (cell q) ((prev_of q)(x \<mapsto> s)) pend (NextRef s) (x # xs) n"
    and at: "prev_of q x \<noteq> None" "prev_of q s = Some (last (x # xs))" "cell q (NextRef s) = Some x"
      "node_addr x" "distinct (x # xs)" "s \<notin> set (x # xs)"
    using op by (rule drain_open_cons) blast
  let ?h = "if xs = [] then 0 else hd xs"
  obtain q1 where q1: "store_next (NextRef s) ?h q = Inr q1" "cell q1 = (cell q)(NextRef s \<mapsto> ?h)"
    "prev_of q1 = prev_of q" "q_tail q1 = q_tail q" "frame q q1"
    using at(3) by (rule store_next_cell)
  obtain u where u: "prev_of q1 x = Some u" using at(1) q1 by auto
  obtain q2 where q2: "store_prev x (into_ptr Dequeued) q1 = Inr q2" "cell q2 = cell q1"
    "prev_of q2 = (prev_of q1)(x \<mapsto> into_ptr Dequeued)" "q_tail q2 = q_tail q1" "frame q1 q2"
    using u by (rule store_prev_cell)
  have lst: "x = last (x # xs) \<longleftrightarrow> xs = []" using at(5) by (cases xs rule: rev_cases) auto
  have "xs \<noteq> [] \<longrightarrow> get_next (NextRef x) q = Inr (hd xs)"
    using drain_next_cell [OF ch _ nx] by (auto simp: get_next_def load_next_cell)
  then have run: "node_drained_drop \<lparr>d_sentinel = s, d_locked = True\<rparr> x q = Inr q2"
    using q1(1) q2(1) load_prev_cell [OF at(2)] lst
    by (simp add: node_drained_drop_def drain_set_head_def split: if_splits)
  have t: "touches {s, x} q q2"
  proof (rule touches_cells)
    show "frame q q2" using q1(5) q2(5) by (rule frame_trans)
  qed (use q1 q2 in auto)
  have tl: "q_tail q2 = q_tail q" "cell q2 HeadRef = cell q HeadRef" using q1 q2 by simp_all
  have p: "prev_of q2 x = Some 1" using q2 by (simp add: into_ptr_def)
  have b2: "beside S q2 pend s xs ms"
    by (rule beside_step [OF b t _ tl]) (use b p at in \<open>auto simp: beside_def split: if_splits\<close>)
  have "drain_open q2 pend s xs"
  proof (cases "xs = []")
    case True
    then show ?thesis using q1 q2 at by (simp add: drain_open_def)
  next
    case False
    note y = drain_next_cell [OF ch False nx [OF False]]
    have rx: "succ (NextRef s) (x # xs) (NextRef s) = Some x" by simp
    have "chain ((cell q)(NextRef s \<mapsto> hd xs)) ((prev_of q)(x \<mapsto> s, hd xs \<mapsto> s)) pend (NextRef s) xs n"
      using chain_remove [OF ch rx y(2) nx [OF False]] by simp
    then have "chain (cell q2) ((prev_of q2)(hd xs \<mapsto> s)) pend (NextRef s) xs n"
      by (rule chain_cong) (use q1 q2 False at(5) in auto)
    moreover have "hd xs \<in> set xs" using False by simp
    then have "hd xs \<noteq> x" using at(5) by auto
    obtain y ys where xs: "xs = y # ys" using False by (cases xs) auto
    have "\<exists>v. ((prev_of q)(x \<mapsto> s)) (hd xs) = Some v" using chain_prev [OF ch y(2)] by simp
    ultimately show ?thesis using False nx q1 q2 at \<open>hd xs \<noteq> x\<close>
      by (auto simp: drain_open_def)
  qed
  with run b2 p t tl show ?thesis by (intro that [of q2]) (simp_all add: draining_def)
qed

lemma drain_head_eq:
  assumes "drain_open q pend s ds"
  shows "drain_head \<lparr>d_sentinel = s, d_locked = b\<rparr> q = Inr (case ds of [] \<Rightarrow> None | x # _ \<Rightarrow> Some x)"
proof (cases ds)
  case Nil
  with assms have "cell q (NextRef s) = Some 0" by (simp add: drain_open_def)
  with Nil show ?thesis by (simp add: drain_head_def load_next_cell)
next
  case (Cons x xs)
  with assms have "cell q (NextRef s) = Some x" "node_addr x" by (auto elim: drain_open_cons)
  with Cons show ?thesis by (auto simp: drain_head_def load_next_cell)
qed

lemma drain_loop_ok:
  "draining S q pend s ds ms \<Longrightarrow> set ds \<inter> pend = {} \<Longrightarrow> length ds < n \<Longrightarrow>
   \<exists>q'. drain_loop n \<lparr>d_sentinel = s, d_locked = True\<rparr> q = Inr q' \<and> draining S q' pend s [] ms
     \<and> (\<forall>x\<in>set ds. prev_of q' x = Some 1) \<and> touches (insert s (set ds)) q q' \<and> q_tail q' = q_tail q"
proof (induction ds arbitrary: q n)
  case Nil
  then show ?case
    using drain_head_eq [of q pend s "[]" True] by (cases n) (auto simp: draining_def touches_def)
next
  case (Cons x xs)
  then obtain m where m: "n = Suc m" by (cases n) auto
  have head: "drain_head \<lparr>d_sentinel = s, d_locked = True\<rparr> q = Inr (Some x)"
    using drain_head_eq [of q pend s "x # xs" True] Cons.prems by (simp add: draining_def)
  have "xs \<noteq> [] \<Longrightarrow> hd xs \<notin> pend" using Cons.prems(2) by (auto dest: hd_disjoint)
  then obtain q1 where q1: "node_drained_drop \<lparr>d_sentinel = s, d_locked = True\<rparr> x q = Inr q1"
    "draining S q1 pend s xs ms" "prev_of q1 x = Some 1" "touches {s, x} q q1" "q_tail q1 = q_tail q"
    using drained_drop_ok [OF Cons.prems(1)] by metis
  obtain q' where q': "drain_loop m \<lparr>d_sentinel = s, d_locked = True\<rparr> q1 = Inr q'"
    "draining S q' pend s [] ms" "\<forall>x\<in>set xs. prev_of q' x = Some 1"
    "touches (insert s (set xs)) q1 q'" "q_tail q' = q_tail q1"
    using Cons.IH [OF q1(2), of m] Cons.prems m by auto
  have "x \<notin> insert s (set xs)"
    using Cons.prems(1) by (auto simp: draining_def elim: drain_open_cons)
  then have "prev_of q' x = Some 1" using q'(4) q1(3) by (simp add: touches_def)
  moreover have "touches (insert s (set (x # xs))) q q'"
    using q1(4) q'(4) by (auto simp: touches_def intro: frame_trans)
  ultimately show ?case using head q1 q' m by auto
qed

lemma chain_reroot:
  assumes ch: "chain c pv pend r0 (x # xs) nx" and r: "r1 \<notin> NextRef ` set (x # xs)" and x: "x \<notin> pend"
  shows "chain (c(r1 \<mapsto> x)) (pv(x \<mapsto> ref_ptr r1)) pend r1 (x # xs) nx"
proof (rule chainI)
  have r0: "r0 \<notin> NextRef ` set (x # xs)" "distinct (x # xs)" using chain_linear [OF ch] by (auto simp: linear_def)
  have eq: "r \<noteq> r0 \<Longrightarrow> r \<noteq> r1 \<Longrightarrow> succ r1 (x # xs) r = succ r0 (x # xs) r" for r by simp
  show "linear r1 (x # xs)" using r r0 by (simp add: linear_def)
  show "(c(r1 \<mapsto> x)) r = Some (case succ r1 (x # xs) r of None \<Rightarrow> nx | Some y \<Rightarrow> if y \<in> pend then 0 else y)"
    if "r \<in> refs r1 (x # xs)" for r
  proof (cases "r = r1")
    case False
    with that r0 have "r \<in> refs r0 (x # xs)" "r \<noteq> r0" by (auto simp: refs_def)
    with chain_cell [OF ch, of r] eq [of r] False show ?thesis by simp
  qed (simp add: x)
  show "(pv(x \<mapsto> ref_ptr r1)) y = Some (ref_ptr r)" if "succ r1 (x # xs) r = Some y" for r y
  proof (cases "r = r1")
    case False
    with that have s: "succ (NextRef x) xs r = Some y" by simp
    then have "r \<in> NextRef ` set (x # xs)" "y \<in> set xs" by (auto dest: succ_SomeD simp: refs_def)
    then have "r \<noteq> r0" "y \<noteq> x" using r0 by auto
    then show ?thesis using chain_prev [OF ch, of r y] s by simp
  qed (use that in simp)
qed (use chain_node_addr [OF ch] in auto)

lemma chain_set_end:
  assumes ch: "chain c pv pend r0 ns nx"
  shows "chain (c(lastref r0 ns \<mapsto> nx')) pv pend r0 ns nx'"
proof (rule chainI)
  note lin = chain_linear [OF ch]
  show "(c(lastref r0 ns \<mapsto> nx')) r = Some (case succ r0 ns r of None \<Rightarrow> nx' | Some y \<Rightarrow> if y \<in> pend then 0 else y)"
    if "r \<in> refs r0 ns" for r
    using that chain_cell [OF ch that] succ_None_iff [OF lin, of r] by (auto split: option.splits)
qed (use ch in \<open>auto simp: chain_def\<close>)

text \<open>Closing the ring before the lock is released, and opening it once it is held again.\<close>

lemma drain_close_ok:
  assumes d: "draining S q pend s (x # xs) ms"
  obtains q1 q2 where "store_prev x s q = Inr q1" "load_prev s q1 = Inr (last (x # xs))"
    "store_next (NextRef (last (x # xs))) s q1 = Inr q2"
    "drain_paused S q2 pend s (x # xs) ms" "q_tail q2 = q_tail q" "touches (set (x # xs)) q q2"
proof -
  have b: "beside S q pend s (x # xs) ms" and op: "drain_open q pend s (x # xs)"
    using d by (simp_all add: draining_def)
  obtain n where ch: "chain (cell q) ((prev_of q)(x \<mapsto> s)) pend (NextRef s) (x # xs) n"
    and at: "prev_of q x \<noteq> None" "x \<notin> pend" "prev_of q s = Some (last (x # xs))" "s \<notin> set (x # xs)"
    using op by (rule drain_open_cons) blast
  obtain u where u: "prev_of q x = Some u" using at(1) by auto
  obtain q1 where q1: "store_prev x s q = Inr q1" "cell q1 = cell q"
    "prev_of q1 = (prev_of q)(x \<mapsto> s)" "q_tail q1 = q_tail q" "frame q q1"
    using u by (rule store_prev_cell)
  let ?l = "lastref (NextRef s) (x # xs)"
  have l: "?l = NextRef (last (x # xs))" by (simp add: lastref_eq)
  have "cell q1 ?l \<noteq> None" using chain_cell [OF ch lastref_in_refs] q1 by simp
  then obtain v where v: "cell q1 ?l = Some v" by auto
  obtain q2 where q2: "store_next ?l s q1 = Inr q2" "cell q2 = (cell q1)(?l \<mapsto> s)"
    "prev_of q2 = prev_of q1" "q_tail q2 = q_tail q1" "frame q1 q2"
    using v by (rule store_next_cell)
  have "chain (cell q2) (prev_of q2) pend (NextRef s) (x # xs) s"
    using chain_set_end [OF ch, of s] q1 q2 by simp
  then have ring: "drain_ring q2 pend s (x # xs)"
    using at q1 q2 by (auto simp: drain_ring_def lastref_eq)
  have t: "touches (set (x # xs)) q q2"
  proof (rule touches_cells)
    show "frame q q2" using q1(5) q2(5) by (rule frame_trans)
  qed (use q1 q2 l last_in_set [of "x # xs"] in auto)
  have "beside S q2 pend s (x # xs) ms"
  proof (rule beside_step [OF b t])
    fix z v
    assume z: "z \<in> set (x # xs)" "z \<noteq> s" "prev_of q2 z = Some v"
    have "s \<noteq> 0" "s \<noteq> 1" using b by (auto simp: beside_def)
    moreover have "z \<noteq> x \<Longrightarrow> v \<noteq> 0 \<and> v \<noteq> 1"
      using b z q1 q2 by (auto simp: beside_def nodes_ok_def)
    ultimately have "v \<noteq> 0 \<and> v \<noteq> 1" using z q1 q2 by (cases "z = x") auto
    with z show "if z \<in> set (x # xs) then v \<noteq> 0 \<and> v \<noteq> 1 else v = 1" by simp
  qed (use b q1 q2 l in \<open>auto simp: beside_def\<close>)
  with ring q1 q2 l t show ?thesis
  proof (intro that [of q1 q2])
    show "load_prev s q1 = Inr (last (x # xs))" using at q1 by (intro load_prev_cell) auto
  qed (auto simp: drain_paused_def)
qed

lemma drain_reopen_ok:
  assumes p: "drain_paused S q pend s ds ms"
  shows "drain_head \<lparr>d_sentinel = s, d_locked = b\<rparr> q = Inr (Some (if ds = [] then s else hd ds))"
    and "ds \<noteq> [] \<Longrightarrow> draining S q pend s ds ms \<and> hd ds \<noteq> s"
    and "ds = [] \<Longrightarrow> load_prev s q = Inr s \<and> (\<exists>q'. store_next (NextRef s) 0 q = Inr q'
           \<and> draining S q' pend s [] ms \<and> touches {s} q q' \<and> q_tail q' = q_tail q)"
proof -
  have bs: "beside S q pend s ds ms" and rg: "drain_ring q pend s ds" using p by (simp_all add: drain_paused_def)
  then have ch: "chain (cell q) (prev_of q) pend (NextRef s) ds s"
    and ps: "prev_of q s = Some (ref_ptr (lastref (NextRef s) ds))" and sa: "node_addr s" "s \<notin> set ds"
    by (simp_all add: drain_ring_def beside_def)
  have c: "cell q (NextRef s) = Some (if ds = [] then s else hd ds)"
    using chain_cell [OF ch, of "NextRef s"] rg by (cases ds) (simp_all add: refs_def drain_ring_def)
  have ne: "ds \<noteq> [] \<Longrightarrow> node_addr (hd ds)" using chain_node_addr [OF ch] by simp
  show "drain_head \<lparr>d_sentinel = s, d_locked = b\<rparr> q = Inr (Some (if ds = [] then s else hd ds))"
    using load_next_cell [OF c] ne sa by (auto simp: drain_head_def)
  show "draining S q pend s ds ms \<and> hd ds \<noteq> s" if d: "ds \<noteq> []"
  proof -
    obtain x xs where x: "ds = x # xs" using d by (cases ds) auto
    have "prev_of q x = Some s" using chain_prev [OF ch, of "NextRef s" x] x by simp
    then have "(prev_of q)(hd ds \<mapsto> s) = prev_of q" using x by (auto simp: fun_eq_iff)
    with bs rg ch ps x sa \<open>prev_of q x = Some s\<close> show ?thesis
      by (auto simp: draining_def drain_open_def drain_ring_def lastref_eq)
  qed
  show "load_prev s q = Inr s \<and> (\<exists>q'. store_next (NextRef s) 0 q = Inr q'
           \<and> draining S q' pend s [] ms \<and> touches {s} q q' \<and> q_tail q' = q_tail q)" if d: "ds = []"
  proof -
    obtain q' where q': "store_next (NextRef s) 0 q = Inr q'" "cell q' = (cell q)(NextRef s \<mapsto> 0)"
      "prev_of q' = prev_of q" "q_tail q' = q_tail q" "frame q q'"
      using c by (rule store_next_cell)
    have t: "touches {s} q q'" by (rule touches_cells) (use q' in auto)
    have "beside S q' pend s [] ms"
      by (rule beside_step [OF bs t]) (use bs q' d in \<open>auto simp: beside_def\<close>)
    with q' ps d t show ?thesis
      by (auto simp: draining_def drain_open_def load_prev_cell)
  qed
qed

lemma drain_paused_locked [simp]:
  "drain_paused S (q\<lparr>q_locked := b\<rparr>) pend s ds ms = drain_paused S q pend s ds ms"
  "draining S (q\<lparr>q_locked := b\<rparr>) pend s ds ms = draining S q pend s ds ms"
  by (simp_all add: drain_paused_def draining_def beside_def drain_ring_def drain_open_def)

lemma execute_unlocked_ok:
  assumes d: "draining S q pend s ds ms" and ds: "ds \<noteq> []"
    and f: "\<And>q1. drain_paused S q1 pend s ds ms \<Longrightarrow> \<not> q_locked q1 \<Longrightarrow> q_data q1 = q_data q
      \<Longrightarrow> drain_paused S (f q1) (pend' q1) s (ds' q1) (ms' q1) \<and> \<not> q_locked (f q1)"
  obtains q1 q' where "execute_unlocked g f \<lparr>d_sentinel = s, d_locked = True\<rparr> q = Inr (g False, q')"
    "drain_paused S q1 pend s ds ms" "\<not> q_locked q1" "q_data q1 = q_data q"
    "draining S q' (pend' q1) s (ds' q1) (ms' q1)" "q_locked q'" "q_data q' = q_data (f q1)"
    "q_tail q1 = q_tail q" "q_tail q' = q_tail (f q1)"
proof -
  let ?d = "\<lparr>d_sentinel = s, d_locked = True\<rparr>"
  obtain x xs where x: "ds = x # xs" using ds by (cases ds) auto
  have head: "drain_head ?d q = Inr (Some x)"
    using drain_head_eq [of q pend s ds] d x by (simp add: draining_def)
  obtain qa qb where close: "store_prev x s q = Inr qa" "load_prev s qa = Inr (last ds)"
    "store_next (NextRef (last ds)) s qa = Inr qb" "drain_paused S qb pend s ds ms" "frame q qb" "q_tail qb = q_tail q"
    using drain_close_ok d unfolding x touches_def by metis
  define q1 where "q1 = unlock qb"
  have q1: "drain_paused S q1 pend s ds ms" "\<not> q_locked q1" "q_data q1 = q_data q" "q_tail q1 = q_tail q"
    using close(4-6) by (simp_all add: q1_def unlock_def frame_def)
  define q2 where "q2 = (f q1)\<lparr>q_locked := True\<rparr>"
  have lk: "lock f q1 = Inr q2" using f [OF q1(1-3)] by (simp add: lock_def q2_def)
  have q2: "drain_paused S q2 (pend' q1) s (ds' q1) (ms' q1)" "q_locked q2" "q_data q2 = q_data (f q1)" "q_tail q2 = q_tail (f q1)"
    using f [OF q1(1-3)] by (simp_all add: q2_def)
  note reopen = drain_reopen_ok [OF q2(1)]
  have run: "execute_unlocked g f ?d q
      = bind_res (if ds' q1 = [] then drain_set_head ?d 0 q2 else Inr q2) (\<lambda>q. Inr (g False, q))"
    using head close(1-3) lk reopen q1(2) by (auto simp: execute_unlocked_def q1_def Let_def)
  show ?thesis
  proof (cases "ds' q1 = []")
    case True
    then obtain q' where "store_next (NextRef s) 0 q2 = Inr q'" "draining S q' (pend' q1) s [] (ms' q1)" "touches {s} q2 q'" "q_tail q' = q_tail q2"
      using reopen(3) by blast
    with True run q1 q2 show ?thesis
      by (intro that [of q' q1]) (simp_all add: drain_set_head_def touches_def frame_def)
  next
    case False
    with reopen(2) run q1 q2 show ?thesis by (intro that [of q2 q1]) auto
  qed
qed

context queue_state
begin

text \<open>
  A node of the ring removes itself with the same \<^verbatim>\<open>remove\<close> that works on the
  queue. It always finds a successor (the sentinel if there is no other), so the tail of the queue
  is not touched.
\<close>

lemma ring_remove_ok:
  assumes p: "drain_paused S q pend s ds ms" and x: "x \<in> set ds" and pd: "set ds \<inter> pend = {}"
  obtains q' where "remove S x new_tail w q = Inr (False, q')"
    "drain_paused S q' pend s (remove1 x ds) ms" "prev_of q' x = Some 1"
    "touches (insert s (set ds)) q q'" "q_tail q' = q_tail q"
proof -
  have bs: "beside S q pend s ds ms" and rg: "drain_ring q pend s ds" using p by (simp_all add: drain_paused_def)
  then have ch: "chain (cell q) (prev_of q) pend (NextRef s) ds s"
    and ps: "prev_of q s = Some (ref_ptr (lastref (NextRef s) ds))" and sa: "node_addr s" "s \<notin> set ds"
    by (simp_all add: drain_ring_def beside_def)
  note lin = chain_linear [OF ch]
  obtain rx where rx: "succ (NextRef s) ds rx = Some x" using succ_exists [OF lin x] by blast
  then have rin: "rx \<in> refs (NextRef s) ds" by (auto dest: succ_SomeD)
  then obtain p where p: "rx = NextRef p" "node_addr p" "p \<in> insert s (set ds)"
    using sa chain_node_addr [OF ch] by (auto simp: refs_def)
  have np: "y \<notin> pend" if "y \<in> set ds" for y using that pd by auto
  have xa: "node_addr x" using chain_node_addr [OF ch x] .
  have cx: "cell q rx = Some x" using chain_cell [OF ch rin] rx np [OF x] by simp
  have px: "prev_of q x = Some p" using chain_prev [OF ch rx] p by simp
  define nx where "nx = (case succ (NextRef s) ds (NextRef x) of None \<Rightarrow> s | Some y \<Rightarrow> y)"
  have nxt: "succ (NextRef s) ds (NextRef x) = Some y \<Longrightarrow> y \<in> set ds" for y using succ_SomeD by blast
  have cn: "cell q (NextRef x) = Some nx"
    using chain_cell [OF ch, of "NextRef x"] x np nxt
    by (cases "succ (NextRef s) ds (NextRef x)") (simp_all add: refs_def nx_def)
  have nxin: "nx \<in> insert s (set ds)"
    using nxt by (cases "succ (NextRef s) ds (NextRef x)") (simp_all add: nx_def)
  then have na: "node_addr nx" using sa chain_node_addr [OF ch] by auto
  have xs: "x \<noteq> s" using x sa by auto
  have nxx: "nx \<noteq> x" using succ_irrefl [OF lin, of x] xs by (auto simp: nx_def split: option.splits)
  have pxne: "p \<noteq> x" using succ_irrefl [OF lin, of x] rx p by auto
  have "prev_of q nx \<noteq> None"
    using ps chain_prev [OF ch, of "NextRef x"] by (auto simp: nx_def split: option.splits)
  then obtain u where u: "prev_of q nx = Some u" by auto
  obtain q1 where q1: "store_prev nx p q = Inr q1" "cell q1 = cell q"
    "prev_of q1 = (prev_of q)(nx \<mapsto> p)" "q_tail q1 = q_tail q" "frame q q1"
    using u by (rule store_prev_cell)
  have "cell q1 rx = Some x" using q1 cx by simp
  then obtain q2 where q2: "store_next rx nx q1 = Inr q2" "cell q2 = (cell q1)(rx \<mapsto> nx)"
    "prev_of q2 = prev_of q1" "q_tail q2 = q_tail q1" "frame q1 q2"
    by (rule store_next_cell)
  have "prev_of q2 x = Some p" using px q1 q2 nxx by simp
  then obtain q3 where q3: "store_prev x (into_ptr Dequeued) q2 = Inr q3" "cell q3 = cell q2"
    "prev_of q3 = (prev_of q2)(x \<mapsto> into_ptr Dequeued)" "q_tail q3 = q_tail q2" "frame q2 q3"
    by (rule store_prev_cell)
  have run: "remove S x new_tail w q = Inr (False, q3)"
    using load_prev_cell [OF px] load_next_cell [OF cx] load_next_cell [OF cn] q1(1) q2(1) q3(1) p xa na
    by (simp add: remove_def remove_with_prev_def Let_def get_next_def)
  have t: "touches (insert s (set ds)) q q3"
  proof (rule touches_cells)
    show "frame q q3" using q1(5) q2(5) q3(5) by (blast intro: frame_trans)
  qed (use q1 q2 q3 p x nxin in auto)
  have rem: "chain ((cell q)(rx \<mapsto> nx)) ((prev_of q)(nx \<mapsto> p)) pend (NextRef s) (remove1 x ds) s"
  proof (cases "succ (NextRef s) ds (NextRef x)")
    case None
    then have "nx = s" by (simp add: nx_def)
    from chain_remove_last [OF ch rx None] show ?thesis unfolding \<open>nx = s\<close>
      by (rule chain_cong) (use sa notin_set_remove1 in \<open>fastforce+\<close>)
  next
    case (Some y)
    then have "nx = y" by (simp add: nx_def)
    from chain_remove [OF ch rx Some] np succ_SomeD [OF Some] p show ?thesis unfolding \<open>nx = y\<close> by simp
  qed
  have dst: "distinct ds" using lin by (simp add: linear_def)
  have "chain (cell q3) (prev_of q3) pend (NextRef s) (remove1 x ds) s"
    by (rule chain_cong [OF rem]) (use q1 q2 q3 dst in auto)
  moreover have "prev_of q3 s = Some (ref_ptr (lastref (NextRef s) (remove1 x ds)))"
    using lastref_remove1 [OF lin rx] q1(3) q2(3) q3(3) xs ps p(1) sa nxt
    by (cases "succ (NextRef s) ds (NextRef x)") (auto simp: nx_def)
  moreover have sub: "set (remove1 x ds) = set ds - {x}" using dst by simp
  ultimately have "drain_ring q3 pend s (remove1 x ds)"
    using pd hd_disjoint [of "remove1 x ds" pend] by (auto simp: drain_ring_def)
  moreover have "beside S q3 pend s (remove1 x ds) ms"
  proof (rule beside_step [OF bs t])
    fix z v
    assume z: "z \<in> insert s (set ds)" "z \<noteq> s" "prev_of q3 z = Some v"
    show "if z \<in> set (remove1 x ds) then v \<noteq> 0 \<and> v \<noteq> 1 else v = 1"
    proof (cases "z = x")
      case True
      with z q3 sub show ?thesis by (simp add: into_ptr_def)
    next
      case False
      have "p \<noteq> 0" "p \<noteq> 1" using p by auto
      moreover have "z \<noteq> nx \<Longrightarrow> v \<noteq> 0 \<and> v \<noteq> 1"
        using bs z q1 q2 q3 False by (auto simp: beside_def nodes_ok_def)
      ultimately show ?thesis using z q1 q2 q3 False sub by (cases "z = nx") auto
    qed
  qed (use bs q1 q2 q3 p sub in \<open>auto simp: beside_def\<close>)
  ultimately show ?thesis
    using run t q1 q2 q3 by (intro that [of q3]) (simp_all add: drain_paused_def into_ptr_def)
qed

end

lemma link_insert [simp]:
  "prev_of (q\<lparr>q_links := (q_links q)(s \<mapsto> l)\<rparr>) = (prev_of q)(s \<mapsto> link_prev l)"
  "cell (q\<lparr>q_links := (q_links q)(s \<mapsto> l)\<rparr>) = (cell q)(NextRef s \<mapsto> link_next l)"
  by (auto simp: prev_of_def cell_def fun_eq_iff split: next_ref.splits)

lemma head_store [simp]:
  "prev_of (q\<lparr>q_head := h\<rparr>) = prev_of q" "cell (q\<lparr>q_head := h\<rparr>) = (cell q)(HeadRef \<mapsto> h)"
  by (auto simp: prev_of_def cell_def fun_eq_iff split: next_ref.splits)

lemma drain_new_ok:
  assumes inv: "queue_inv S q pend ms" and ok: "nodes_ok q {} (set ms)" and s: "q_links q s = None" "node_addr s" "s \<notin> pend"
    and hd: "ms \<noteq> [] \<Longrightarrow> hd ms \<notin> pend" and new: "tail_to_enum S new_tail = State st"
  obtains q' where "drain_new S new_tail s q = Inr (\<lparr>d_sentinel = s, d_locked = True\<rparr>, q')"
    "draining S q' pend s ms []" "state_of S q' = (if ms = [] then state_of S q else Some st)"
    "q_locked q' = q_locked q" "q_data q' = q_data q" "\<forall>x. x \<noteq> s \<longrightarrow> prev_of q' x = prev_of q x"
proof -
  have dead: "prev_of q s = None" using s by (simp add: prev_of_def)
  have sms: "s \<notin> set ms" using queue_inv_prev [OF inv, of s] dead by auto
  show ?thesis
  proof (cases ms)
    case Nil
    let ?q = "q\<lparr>q_links := (q_links q)(s \<mapsto> \<lparr>link_prev = 0, link_next = 0\<rparr>)\<rparr>"
    have "cell q HeadRef = Some 0" using chain_cell [OF queue_inv_chain [OF inv], of HeadRef] Nil by (simp add: refs_def)
    then have "queue_inv S ?q pend []" using queue_inv_tail [OF inv] Nil
      by (simp add: queue_inv_def chain_def refs_def tail_node_def)
    moreover have "nodes_ok ?q {s} {}" using ok Nil by (auto simp: nodes_ok_def)
    ultimately show ?thesis
      using that [of ?q] s queue_inv_tail [OF inv] Nil
      by (simp add: drain_new_def draining_def beside_def drain_open_def state_of_def)
  next
    case (Cons x xs)
    let ?q = "q\<lparr>q_head := 0, q_tail := new_tail,
      q_links := (q_links q)(s \<mapsto> \<lparr>link_prev = last ms, link_next = x\<rparr>)\<rparr>"
    have cells: "cell ?q = (cell q)(HeadRef \<mapsto> 0, NextRef s \<mapsto> x)" "prev_of ?q = (prev_of q)(s \<mapsto> last ms)"
      by (auto simp: prev_of_def cell_def fun_eq_iff split: next_ref.splits)
    have xp: "x \<notin> pend" using hd Cons by simp
    have tl: "tail_node S q = Some (last ms)" using queue_inv_tail [OF inv] Cons by simp
    then have tle: "tail_to_enum S (q_tail q) = Ptr (last ms)"
      by (cases "tail_to_enum S (q_tail q)") (auto simp: tail_node_def)
    have "load_next HeadRef q = Inr x"
      using chain_cell [OF queue_inv_chain [OF inv], of HeadRef] Cons xp by (intro load_next_cell) (simp add: refs_def)
    then have "get_next HeadRef q = Inr x" using queue_inv_addr [OF inv, of x] Cons by (simp add: get_next_def)
    then have run: "drain_new S new_tail s q = Inr (\<lparr>d_sentinel = s, d_locked = True\<rparr>, ?q)"
      using tl tle by (simp add: drain_new_def store_next_def)
    have "queue_inv S ?q pend []" using new cells
      by (simp add: queue_inv_def chain_def refs_def tail_node_def)
    moreover have "nodes_ok ?q {s} (set ms)" using ok unfolding nodes_ok_def cells by auto
    moreover have "chain ((cell q)(NextRef s \<mapsto> x)) ((prev_of q)(x \<mapsto> s)) pend (NextRef s) ms 0"
      using chain_reroot [OF queue_inv_chain [OF inv, unfolded Cons], of "NextRef s"] sms xp Cons by auto
    then have "chain (cell ?q) ((prev_of ?q)(x \<mapsto> s)) pend (NextRef s) ms 0"
      by (rule chain_cong) (use sms cells in \<open>auto simp: refs_def\<close>)
    moreover have "prev_of q x \<noteq> None" using queue_inv_prev [OF inv, of x] Cons by auto
    ultimately have "drain_open ?q pend s ms" "beside S ?q pend s ms []"
      unfolding drain_open_def beside_def cells using s sms Cons xp by (auto intro!: exI)
    then show ?thesis using that [OF run] new Cons cells(2) by (simp add: draining_def state_of_def)
  qed
qed

lemma drain_end_ok:
  assumes d: "draining S q pend s [] ms"
  shows "drain_drop n gap \<lparr>d_sentinel = s, d_locked = True\<rparr> q
      = Inr ((unlock q)\<lparr>q_links := (q_links q)(s := None)\<rparr>)"
    and "queue_inv S ((unlock q)\<lparr>q_links := (q_links q)(s := None)\<rparr>) pend ms"
    and "nodes_ok ((unlock q)\<lparr>q_links := (q_links q)(s := None)\<rparr>) {} (set ms)"
proof -
  let ?q = "(unlock q)\<lparr>q_links := (q_links q)(s := None)\<rparr>"
  have b: "beside S q pend s [] ms" and op: "drain_open q pend s []" using d by (simp_all add: draining_def)
  have cells: "prev_of ?q = (prev_of q)(s := None)" "cell ?q = (cell q)(NextRef s := None)"
    by (auto simp: prev_of_def cell_def unlock_def fun_eq_iff split: next_ref.splits)
  show "drain_drop n gap \<lparr>d_sentinel = s, d_locked = True\<rparr> q = Inr ?q"
    using op by (simp add: drain_drop_def drain_is_empty_def drain_open_def load_next_cell)
  have "chain (cell ?q) (prev_of ?q) pend HeadRef ms 0"
    by (rule chain_cong [of "cell q" "prev_of q"])
      (use b cells in \<open>auto simp: beside_def queue_inv_def refs_def\<close>)
  then show "queue_inv S ?q pend ms" using b by (simp add: beside_def queue_inv_def tail_node_def unlock_def)
  show "nodes_ok ?q {} (set ms)" using b unfolding beside_def nodes_ok_def cells by auto
qed

section \<open>Visiting the nodes\<close>

text \<open>
  What \<^verbatim>\<open>for_each\<close> makes of its helper when it visits the nodes \<open>vs\<close>
  with the data \<open>D\<close>.
\<close>

fun visit :: "('h \<Rightarrow> 'd \<Rightarrow> bool \<times> 'h \<times> 'd) \<Rightarrow> ('h \<Rightarrow> 'h) \<Rightarrow> (addr \<rightharpoonup> 'd) \<Rightarrow> addr list \<Rightarrow> 'h \<Rightarrow> 'h" where
  "visit on_next on_unlock D [] h = h"
| "visit on_next on_unlock D (x # xs) h =
     (let (release, h, _) = on_next h (the (D x))
      in visit on_next on_unlock D xs (if release \<and> xs \<noteq> [] then on_unlock h else h))"

text \<open>
  What other threads may do while the lock is released: anything that leaves the ring and the queue
  well formed, keeps some of the drained nodes in their order (the relation \<open>R\<close> says which)
  and does not change their data.
\<close>

definition drain_env ::
  "(addr list \<Rightarrow> addr list \<Rightarrow> bool) \<Rightarrow> 's state_ops \<Rightarrow> addr \<Rightarrow> ('d queue \<Rightarrow> 'd queue) \<Rightarrow> bool" where
  "drain_env R S s f \<longleftrightarrow> (\<forall>q pend ds ms. drain_paused S q pend s ds ms \<and> set ds \<inter> pend = {} \<and> \<not> q_locked q \<longrightarrow>
     (\<exists>pend' ds' ms'. drain_paused S (f q) pend' s ds' ms' \<and> set ds' \<inter> pend' = {} \<and> \<not> q_locked (f q)
        \<and> R ds' ds \<and> (\<forall>x\<in>set ds'. q_data (f q) x = q_data q x)))"

lemma visit_cong: "(\<And>x. x \<in> set vs \<Longrightarrow> D x = D' x) \<Longrightarrow> visit f g D vs h = visit f g D' vs h"
  by (induction vs arbitrary: h) (auto simp: Let_def split: prod.splits)

lemma execute_unlocked_env:
  assumes d: "draining S q pend s ds ms" "set ds \<inter> pend = {}" and ds: "ds \<noteq> []" and f: "drain_env R S s f"
  obtains q' pend' ds' ms' where "execute_unlocked g f \<lparr>d_sentinel = s, d_locked = True\<rparr> q = Inr (g False, q')"
    "draining S q' pend' s ds' ms'" "set ds' \<inter> pend' = {}" "q_locked q'" "R ds' ds"
    "\<forall>x\<in>set ds'. q_data q' x = q_data q x" "(\<forall>q. q_tail (f q) = q_tail q) \<longrightarrow> q_tail q' = q_tail q"
proof -
  let ?P = "\<lambda>q1 pend' ds' ms'. drain_paused S (f q1) pend' s ds' ms' \<and> set ds' \<inter> pend' = {} \<and> \<not> q_locked (f q1)
        \<and> R ds' ds \<and> (\<forall>x\<in>set ds'. q_data (f q1) x = q_data q1 x)"
  have "\<forall>q1. \<exists>pend' ds' ms'. drain_paused S q1 pend s ds ms \<and> \<not> q_locked q1 \<longrightarrow> ?P q1 pend' ds' ms'"
    using f d(2) unfolding drain_env_def by metis
  then obtain pend' ds' ms' where P: "\<And>q1. drain_paused S q1 pend s ds ms \<Longrightarrow> \<not> q_locked q1 \<Longrightarrow> ?P q1 (pend' q1) (ds' q1) (ms' q1)"
    by metis
  obtain q1 q' where "execute_unlocked g f \<lparr>d_sentinel = s, d_locked = True\<rparr> q = Inr (g False, q')"
    "drain_paused S q1 pend s ds ms" "\<not> q_locked q1" "q_data q1 = q_data q"
    "draining S q' (pend' q1) s (ds' q1) (ms' q1)" "q_locked q'" "q_data q' = q_data (f q1)"
    "q_tail q1 = q_tail q" "q_tail q' = q_tail (f q1)"
    by (rule execute_unlocked_ok [where g = g, OF d(1) ds, of f pend' ds' ms']) (use P in auto)
  with P [of q1] show ?thesis by (intro that [of q' "pend' q1" "ds' q1" "ms' q1"]) auto
qed

lemma drain_open_data [simp]: "drain_open (q\<lparr>q_data := D\<rparr>) pend s ds = drain_open q pend s ds"
  by (simp add: drain_open_def)

lemma draining_data [simp]: "draining S (q\<lparr>q_data := D\<rparr>) pend s ds ms = draining S q pend s ds ms"
  by (simp add: draining_def beside_def queue_inv_def tail_node_def)

lemma drain_step_ok:
  assumes d: "draining S q pend s (x # xs) ms" and pd: "set (x # xs) \<inter> pend = {}" and D: "q_data q x = Some v"
    and nx: "on_next h v = (release, h', v')"
  obtains q' where "for_each_loop (Suc n) on_next on_unlock others \<lparr>d_sentinel = s, d_locked = True\<rparr> h q
     = (if \<not> release then for_each_loop n on_next on_unlock others \<lparr>d_sentinel = s, d_locked = True\<rparr> h' q'
        else if xs = [] then Inr (h', q')
        else bind_res (execute_unlocked (\<lambda>locked. on_unlock locked h') others \<lparr>d_sentinel = s, d_locked = True\<rparr> q')
          (\<lambda>(helper, q). for_each_loop n on_next on_unlock others \<lparr>d_sentinel = s, d_locked = True\<rparr> helper q))"
    "draining S q' pend s xs ms" "q_tail q' = q_tail q" "q_locked q' = q_locked q" "q_data q' = (q_data q)(x \<mapsto> v')"
    "prev_of q' x = Some 1" "touches {s, x} (q\<lparr>q_data := (q_data q)(x \<mapsto> v')\<rparr>) q'"
proof -
  let ?d = "\<lparr>d_sentinel = s, d_locked = True\<rparr>"
  let ?q = "q\<lparr>q_data := (q_data q)(x \<mapsto> v')\<rparr>"
  have "draining S ?q pend s (x # xs) ms" using d by simp
  moreover have "xs \<noteq> [] \<Longrightarrow> hd xs \<notin> pend" using pd by (auto dest: hd_disjoint)
  ultimately obtain q' where q': "node_drained_drop ?d x ?q = Inr q'" "draining S q' pend s xs ms" "touches {s, x} ?q q'" "q_tail q' = q_tail ?q" "prev_of q' x = Some 1"
    using drained_drop_ok by metis
  have "drain_head ?d q = Inr (Some x)" "drain_head ?d q' = Inr (case xs of [] \<Rightarrow> None | y # _ \<Rightarrow> Some y)"
    using drain_head_eq [of q pend s "x # xs"] drain_head_eq [of q' pend s xs] d q'(2)
    by (simp_all add: draining_def)
  with q' D nx show ?thesis
    by (intro that [of q'])
      (auto simp: drain_next_def with_data_mut_def touches_def frame_def Let_def split: list.splits sum.splits)
qed

text \<open>
  The helper \<open>h'\<close> that the loop ends with: it has visited \<open>vs\<close>, some of the drained
  nodes \<open>ds\<close>. If the others removed all nodes that were left during the last release, the
  helper has seen one release more.
\<close>

definition visited ::
  "(addr list \<Rightarrow> addr list \<Rightarrow> bool) \<Rightarrow> ('h \<Rightarrow> 'd \<Rightarrow> bool \<times> 'h \<times> 'd) \<Rightarrow> ('h \<Rightarrow> 'h) \<Rightarrow> (addr \<rightharpoonup> 'd) \<Rightarrow> addr list \<Rightarrow> addr list \<Rightarrow> 'h \<Rightarrow> 'h \<Rightarrow> bool" where
  "visited R on_next on_unlock D ds vs h h' \<longleftrightarrow> R vs ds \<and> (vs = [] \<longleftrightarrow> ds = [])
     \<and> (h' = visit on_next on_unlock D vs h
        \<or> length vs < length ds \<and> h' = on_unlock (visit on_next on_unlock D vs h))"

locale selection =
  fixes R :: "addr list \<Rightarrow> addr list \<Rightarrow> bool"
  assumes keeps_refl: "R xs xs" and keeps_trans: "R xs ys \<Longrightarrow> R ys zs \<Longrightarrow> R xs zs"
    and keeps_Cons: "R xs ys \<Longrightarrow> R (x # xs) (x # ys)"
    and keeps_set: "R xs ys \<Longrightarrow> set xs \<subseteq> set ys" and keeps_length: "R xs ys \<Longrightarrow> length xs \<le> length ys"
begin

lemma keeps_Nil: "R xs [] \<Longrightarrow> xs = []"
  using keeps_length [of xs "[]"] by simp

lemma visited_keep:
  assumes v: "visited R on_next on_unlock D' xs vs h1 h'" and nx: "on_next h (the (D x)) = (release, h1', v')"
    and h1: "h1 = (if release \<and> xs \<noteq> [] then on_unlock h1' else h1')" and D: "\<And>z. z \<in> set xs \<Longrightarrow> D' z = D z"
  shows "visited R on_next on_unlock D (x # xs) (x # vs) h h'"
proof -
  have R: "R vs xs" "vs = [] \<longleftrightarrow> xs = []" using v by (simp_all add: visited_def)
  then have "visit on_next on_unlock D' vs h1 = visit on_next on_unlock D vs h1"
    using D keeps_set by (intro visit_cong) blast
  then have "visit on_next on_unlock D (x # vs) h = visit on_next on_unlock D' vs h1"
    using nx h1 R by auto
  with v R keeps_Cons show ?thesis by (auto simp: visited_def)
qed

lemma visited_skip:
  assumes v: "visited R on_next on_unlock D' ys vs (on_unlock h1) h'" and nx: "on_next h (the (D x)) = (True, h1, v')"
    and ys: "R ys xs" "xs \<noteq> []" and D: "\<And>z. z \<in> set ys \<Longrightarrow> D' z = D z"
  shows "visited R on_next on_unlock D (x # xs) (x # vs) h h'"
proof -
  have R: "R vs ys" "vs = [] \<longleftrightarrow> ys = []" using v by (simp_all add: visited_def)
  then have "R vs xs" using ys keeps_trans by blast
  then have Rx: "R (x # vs) (x # xs)" by (rule keeps_Cons)
  have cong: "visit on_next on_unlock D' vs (on_unlock h1) = visit on_next on_unlock D vs (on_unlock h1)"
    using D keeps_set [OF R(1)] by (intro visit_cong) blast
  have len: "length ys \<le> length xs" using keeps_length [OF ys(1)] .
  show ?thesis
  proof (cases "vs = []")
    case True
    then have "h' = on_unlock h1" using v R by (auto simp: visited_def)
    then show ?thesis using Rx True ys(2) nx by (auto simp: visited_def)
  next
    case False
    then have "visit on_next on_unlock D (x # vs) h = visit on_next on_unlock D vs (on_unlock h1)"
      using nx by simp
    with v cong Rx len show ?thesis by (auto simp: visited_def)
  qed
qed

lemma for_each_loop_ok:
  assumes f: "drain_env R S s others"
  shows "draining S q pend s ds ms \<Longrightarrow> set ds \<inter> pend = {} \<Longrightarrow> q_locked q \<Longrightarrow>
     \<forall>x\<in>set ds. q_data q x \<noteq> None \<Longrightarrow> length ds < n \<Longrightarrow>
   \<exists>h' q' pend' ms' vs.
     for_each_loop n on_next on_unlock others \<lparr>d_sentinel = s, d_locked = True\<rparr> h q = Inr (h', q')
     \<and> draining S q' pend' s [] ms' \<and> q_locked q' \<and> visited R on_next (on_unlock False) (q_data q) ds vs h h'
     \<and> ((\<forall>q. q_tail (others q) = q_tail q) \<longrightarrow> q_tail q' = q_tail q)"
proof (induction n arbitrary: q pend ds ms h)
  case (Suc n)
  let ?d = "\<lparr>d_sentinel = s, d_locked = True\<rparr>"
  show ?case
  proof (cases ds)
    case Nil
    then have "for_each_loop (Suc n) on_next on_unlock others ?d h q = Inr (h, q)"
      using drain_head_eq [of q pend s ds True] Suc.prems(1) by (simp add: draining_def drain_next_def)
    with Nil Suc.prems show ?thesis using keeps_refl by (fastforce simp: visited_def)
  next
    case (Cons x xs)
    then obtain v where v: "q_data q x = Some v" using Suc.prems by auto
    obtain release h1 v' where nx: "on_next h v = (release, h1, v')" by (cases "on_next h v") auto
    then have nx': "on_next h (the (q_data q x)) = (release, h1, v')" using v by simp
    obtain q1 where run: "for_each_loop (Suc n) on_next on_unlock others ?d h q
       = (if \<not> release then for_each_loop n on_next on_unlock others ?d h1 q1
          else if xs = [] then Inr (h1, q1)
          else bind_res (execute_unlocked (\<lambda>locked. on_unlock locked h1) others ?d q1)
            (\<lambda>(helper, q). for_each_loop n on_next on_unlock others ?d helper q))"
      and q1: "draining S q1 pend s xs ms" "q_tail q1 = q_tail q" "q_locked q1 = q_locked q" "q_data q1 = (q_data q)(x \<mapsto> v')"
      by (rule drain_step_ok [where on_next = on_next and h = h and n = n and on_unlock = on_unlock and others = others,
            OF Suc.prems(1,2) [unfolded Cons] v nx])
    have xs: "set xs \<inter> pend = {}" "q_locked q1" "length xs < n" "x \<notin> set xs"
      using Suc.prems q1(3) Cons by (auto simp: draining_def elim: drain_open_cons)
    have D: "z \<in> set xs \<Longrightarrow> q_data q1 z = q_data q z" for z using xs(4) q1(4) by auto
    show ?thesis
    proof (cases "release \<and> xs \<noteq> []")
      case False
      have "\<exists>h' q' pend' ms' vs. (if \<not> release then for_each_loop n on_next on_unlock others ?d h1 q1
            else Inr (h1, q1)) = Inr (h', q')
          \<and> draining S q' pend' s [] ms' \<and> q_locked q' \<and> visited R on_next (on_unlock False) (q_data q1) xs vs h1 h'
          \<and> ((\<forall>q. q_tail (others q) = q_tail q) \<longrightarrow> q_tail q' = q_tail q1)"
      proof (cases release)
        case True
        then show ?thesis using False q1 xs keeps_refl [of "[]"]
          by (intro exI [of _ h1] exI [of _ q1] exI [of _ pend] exI [of _ ms] exI [of _ "[]"]) (simp add: visited_def)
      next
        case False
        have "\<forall>x\<in>set xs. q_data q1 x \<noteq> None" using D Suc.prems(4) Cons by auto
        from Suc.IH [OF q1(1) xs(1,2) this xs(3)] False show ?thesis by simp
      qed
      then obtain h' q' pend' ms' vs where r: "(if \<not> release then for_each_loop n on_next on_unlock others ?d h1 q1
            else Inr (h1, q1)) = Inr (h', q')" "draining S q' pend' s [] ms'" "q_locked q'"
          "visited R on_next (on_unlock False) (q_data q1) xs vs h1 h'"
          "(\<forall>q. q_tail (others q) = q_tail q) \<longrightarrow> q_tail q' = q_tail q1" by blast
      have "visited R on_next (on_unlock False) (q_data q) (x # xs) (x # vs) h h'"
        by (rule visited_keep [where on_next = on_next and D = "q_data q" and D' = "q_data q1", OF r(4) nx']) (use False D in auto)
      moreover have "for_each_loop (Suc n) on_next on_unlock others ?d h q = Inr (h', q')"
        using r(1) False run by (auto split: if_splits)
      ultimately show ?thesis using r(2,3,5) q1(2) Cons by auto
    next
      case True
      obtain q2 pend2 ys ms2 where q2: "execute_unlocked (\<lambda>locked. on_unlock locked h1) others ?d q1 = Inr (on_unlock False h1, q2)"
        "draining S q2 pend2 s ys ms2" "set ys \<inter> pend2 = {}" "q_locked q2" "R ys xs"
        "\<forall>x\<in>set ys. q_data q2 x = q_data q1 x" "(\<forall>q. q_tail (others q) = q_tail q) \<longrightarrow> q_tail q2 = q_tail q1"
        using execute_unlocked_env [where g = "\<lambda>locked. on_unlock locked h1", OF q1(1) xs(1) _ f] True by blast
      have ys: "set ys \<subseteq> set xs" "length ys \<le> length xs" using keeps_set keeps_length q2(5) by auto
      then have D2: "z \<in> set ys \<Longrightarrow> q_data q2 z = q_data q z" for z using D q2(6) by auto
      have "\<forall>x\<in>set ys. q_data q2 x \<noteq> None" using D2 ys Suc.prems(4) Cons by auto
      moreover have "length ys < n" using ys xs(3) by simp
      ultimately obtain h' q' pend' ms' vs where r:
        "for_each_loop n on_next on_unlock others ?d (on_unlock False h1) q2 = Inr (h', q')"
        "draining S q' pend' s [] ms'" "q_locked q'" "visited R on_next (on_unlock False) (q_data q2) ys vs (on_unlock False h1) h'"
        "(\<forall>q. q_tail (others q) = q_tail q) \<longrightarrow> q_tail q' = q_tail q2"
        using Suc.IH [OF q2(2,3,4), of "on_unlock False h1"] by blast
      have "visited R on_next (on_unlock False) (q_data q) ds (x # vs) h h'"
        unfolding Cons
        by (rule visited_skip [where on_next = on_next and D = "q_data q" and D' = "q_data q2", OF r(4) _ q2(5)]) (use nx' True D2 in auto)
      moreover have "for_each_loop (Suc n) on_next on_unlock others ?d h q = Inr (h', q')"
        using r(1) run q2(1) True by simp
      ultimately show ?thesis using r(2,3,5) q1(2) q2(7) by auto
    qed
  qed
qed simp

lemma for_each_ok:
  assumes f: "drain_env R S s others" and d: "draining S q pend s ds ms" "set ds \<inter> pend = {}" "q_locked q"
    "\<forall>x\<in>set ds. q_data q x \<noteq> None" and n: "length ds < n"
  shows "\<exists>h' q' pend' ms' vs.
     for_each n on_next on_unlock others \<lparr>d_sentinel = s, d_locked = True\<rparr> h q = Inr (on_unlock False h', q')
     \<and> queue_inv S q' pend' ms' \<and> nodes_ok q' {} (set ms') \<and> q_links q' s = None \<and> \<not> q_locked q'
     \<and> visited R on_next (on_unlock False) (q_data q) ds vs h h'
     \<and> ((\<forall>q. q_tail (others q) = q_tail q) \<longrightarrow> q_tail q' = q_tail q)"
proof -
  obtain h' q' pend' ms' vs where r:
     "for_each_loop n on_next on_unlock others \<lparr>d_sentinel = s, d_locked = True\<rparr> h q = Inr (h', q')"
     "draining S q' pend' s [] ms'" "q_locked q'" "visited R on_next (on_unlock False) (q_data q) ds vs h h'"
     "(\<forall>q. q_tail (others q) = q_tail q) \<longrightarrow> q_tail q' = q_tail q"
    using for_each_loop_ok [OF f d n, of on_next on_unlock h] by blast
  note e = drain_end_ok [OF r(2)]
  have "for_each n on_next on_unlock others \<lparr>d_sentinel = s, d_locked = True\<rparr> h q
      = Inr (on_unlock False h', (unlock q')\<lparr>q_links := (q_links q')(s := None)\<rparr>)"
    using r(1) e(1) by (simp add: for_each_def)
  with e(2,3) r(4,5) show ?thesis
    by (intro exI [of _ h'] exI [of _ "(unlock q')\<lparr>q_links := (q_links q')(s := None)\<rparr>"] exI [of _ pend']
        exI [of _ ms'] exI [of _ vs]) (simp add: unlock_def)
qed

end

interpretation all_nodes: selection "(=)"
  by unfold_locales auto

text \<open>The nodes of \<open>K\<close> stay, others may leave.\<close>

definition keeping :: "addr set \<Rightarrow> addr list \<Rightarrow> addr list \<Rightarrow> bool" where
  "keeping K ys xs \<longleftrightarrow> subseq ys xs \<and> set xs \<inter> K \<subseteq> set ys"

interpretation some_nodes: selection "keeping K" for K
proof
  show "keeping K xs xs" for xs by (simp add: keeping_def)
  show "keeping K xs zs" if "keeping K xs ys" "keeping K ys zs" for xs ys zs
    using that subseq_order.trans [of xs ys zs] unfolding keeping_def by blast
qed (auto simp: keeping_def dest: list_emb_set list_emb_length)

text \<open>
  Without interference the loop visits every node in order; what it leaves are the visited nodes in
  the state \<^verbatim>\<open>Dequeued\<close> with the data the callback stored, and everything else
  as it was.
\<close>

lemma execute_unlocked_id:
  assumes d: "draining S q pend s (x # xs) ms"
  obtains q' where "execute_unlocked g id \<lparr>d_sentinel = s, d_locked = True\<rparr> q = Inr (g False, q')"
    "draining S q' pend s (x # xs) ms" "q_locked q'" "q_data q' = q_data q" "q_tail q' = q_tail q" "dom (q_links q') = dom (q_links q)"
    "\<forall>z. z \<notin> set (x # xs) \<longrightarrow> prev_of q' z = prev_of q z"
proof -
  obtain qa qb where close: "store_prev x s q = Inr qa" "load_prev s qa = Inr (last (x # xs))"
    "store_next (NextRef (last (x # xs))) s qa = Inr qb" "drain_paused S qb pend s (x # xs) ms" "q_tail qb = q_tail q" "touches (set (x # xs)) q qb"
    by (rule drain_close_ok [OF d])
  let ?q = "qb\<lparr>q_locked := True\<rparr>"
  have head: "drain_head \<lparr>d_sentinel = s, d_locked = True\<rparr> q = Inr (Some x)"
    using drain_head_eq [of q pend s "x # xs"] d by (simp add: draining_def)
  have p: "drain_paused S ?q pend s (x # xs) ms" using close(4) by simp
  have "execute_unlocked g id \<lparr>d_sentinel = s, d_locked = True\<rparr> q = Inr (g False, ?q)"
    using head close(1-3) drain_reopen_ok(1,2) [OF p] by (auto simp: execute_unlocked_def Let_def lock_def unlock_def)
  then show ?thesis
    by (rule that) (use drain_reopen_ok(2) [OF p] close(5,6) in \<open>auto simp: touches_def frame_def\<close>)
qed

lemma node_states_prev: "prev_of q x = prev_of q' y \<Longrightarrow> node_states q x = node_states q' y"
  by (cases "q_links q x"; cases "q_links q' y") (simp_all add: prev_of_def node_states_def link_state_def)

definition drained_alone ::
  "'s state_ops \<Rightarrow> addr \<Rightarrow> ('d \<Rightarrow> 'd) \<Rightarrow> addr list \<Rightarrow> addr set \<Rightarrow> addr list \<Rightarrow> 'd queue \<Rightarrow> 'd queue \<Rightarrow> bool" where
  "drained_alone S s upd ds pend ms q q' \<longleftrightarrow> draining S q' pend s [] ms \<and> q_locked q' \<and> q_tail q' = q_tail q
     \<and> dom (q_links q') = dom (q_links q) \<and> q_data q' = (\<lambda>x. if x \<in> set ds then map_option upd (q_data q x) else q_data q x)
     \<and> (\<forall>x. x \<noteq> s \<longrightarrow> prev_of q' x = (if x \<in> set ds then Some 1 else prev_of q x))"

lemma drained_alone_step:
  assumes q1: "q_tail q1 = q_tail q" "q_data q1 = (q_data q)(x \<mapsto> upd v)" "prev_of q1 x = Some 1"
      "touches {s, x} (q\<lparr>q_data := (q_data q)(x \<mapsto> upd v)\<rparr>) q1" and v: "q_data q x = Some v" and x: "x \<notin> set xs"
    and q2: "q_data q2 = q_data q1" "q_tail q2 = q_tail q1" "dom (q_links q2) = dom (q_links q1)"
      "\<forall>z. z \<notin> set xs \<longrightarrow> prev_of q2 z = prev_of q1 z"
    and a: "drained_alone S s upd xs pend ms q2 q'"
  shows "drained_alone S s upd (x # xs) pend ms q q'"
proof -
  have "q_data q' = (\<lambda>z. if z \<in> set (x # xs) then map_option upd (q_data q z) else q_data q z)"
    using a q1(2) q2(1) v x by (auto simp: drained_alone_def fun_eq_iff)
  moreover have "prev_of q' z = (if z \<in> set (x # xs) then Some 1 else prev_of q z)" if "z \<noteq> s" for z
    using a q1(3,4) q2(4) x that by (cases "z = x") (auto simp: drained_alone_def touches_def)
  moreover have "dom (q_links q') = dom (q_links q)" using a q1(4) q2(3) by (simp add: drained_alone_def touches_def frame_def)
  ultimately show ?thesis using a q1(1) q2(2) by (simp add: drained_alone_def)
qed

lemma for_each_loop_alone:
  assumes upd: "\<And>h v. snd (snd (on_next h v)) = upd v"
  shows "draining S q pend s ds ms \<Longrightarrow> set ds \<inter> pend = {} \<Longrightarrow> q_locked q \<Longrightarrow> \<forall>x\<in>set ds. q_data q x \<noteq> None \<Longrightarrow> length ds < n \<Longrightarrow>
   \<exists>q'. for_each_loop n on_next on_unlock id \<lparr>d_sentinel = s, d_locked = True\<rparr> h q
       = Inr (visit on_next (on_unlock False) (q_data q) ds h, q') \<and> drained_alone S s upd ds pend ms q q'"
proof (induction ds arbitrary: n q h)
  case Nil
  then obtain m where m: "n = Suc m" by (cases n) auto
  show ?case using drain_head_eq [of q pend s "[]" True] Nil.prems m
    by (auto simp: draining_def drain_next_def drained_alone_def)
next
  case (Cons x xs)
  then obtain m where m: "n = Suc m" by (cases n) auto
  let ?d = "\<lparr>d_sentinel = s, d_locked = True\<rparr>"
  obtain v where v: "q_data q x = Some v" using Cons.prems(4) by auto
  obtain release h1 where nx: "on_next h v = (release, h1, upd v)" using upd [of h v] by (cases "on_next h v") auto
  obtain q1 where run: "for_each_loop (Suc m) on_next on_unlock id ?d h q
     = (if \<not> release then for_each_loop m on_next on_unlock id ?d h1 q1
        else if xs = [] then Inr (h1, q1)
        else bind_res (execute_unlocked (\<lambda>locked. on_unlock locked h1) id ?d q1)
          (\<lambda>(helper, q). for_each_loop m on_next on_unlock id ?d helper q))"
    and q1: "draining S q1 pend s xs ms" "q_tail q1 = q_tail q" "q_locked q1 = q_locked q" "q_data q1 = (q_data q)(x \<mapsto> upd v)"
      "prev_of q1 x = Some 1" "touches {s, x} (q\<lparr>q_data := (q_data q)(x \<mapsto> upd v)\<rparr>) q1"
    by (rule drain_step_ok [where on_next = on_next and h = h and n = m and on_unlock = on_unlock and others = id,
          OF Cons.prems(1,2) v nx])
  have xs: "set xs \<inter> pend = {}" "q_locked q1" "length xs < m" "x \<notin> set xs" "\<forall>z\<in>set xs. q_data q1 z \<noteq> None"
    using Cons.prems q1(3,4) m by (auto simp: draining_def elim: drain_open_cons)
  have vis: "visit on_next (on_unlock False) (q_data q1) xs h' = visit on_next (on_unlock False) (q_data q) xs h'" for h'
    using xs(4) q1(4) by (intro visit_cong) auto
  note step = drained_alone_step [where upd = upd, OF q1(2,4,5,6) v xs(4)]
  show ?case
  proof (cases "release \<and> xs \<noteq> []")
    case True
    obtain y ys where y: "xs = y # ys" using True by (cases xs) auto
    obtain q2 where q2: "execute_unlocked (\<lambda>locked. on_unlock locked h1) id ?d q1 = Inr (on_unlock False h1, q2)"
      "draining S q2 pend s xs ms" "q_locked q2" "q_data q2 = q_data q1" "q_tail q2 = q_tail q1" "dom (q_links q2) = dom (q_links q1)"
      "\<forall>z. z \<notin> set xs \<longrightarrow> prev_of q2 z = prev_of q1 z"
      using execute_unlocked_id [of S q1 pend s y ys ms] q1(1) unfolding y by metis
    have live: "\<forall>z\<in>set xs. q_data q2 z \<noteq> None" using xs(5) q2(4) by simp
    obtain q' where q': "for_each_loop m on_next on_unlock id ?d (on_unlock False h1) q2
        = Inr (visit on_next (on_unlock False) (q_data q2) xs (on_unlock False h1), q')" "drained_alone S s upd xs pend ms q2 q'"
      using Cons.IH [OF q2(2) xs(1) q2(3) live xs(3), of "on_unlock False h1"] by blast
    have "drained_alone S s upd (x # xs) pend ms q q'" by (rule step [OF q2(4-7) q'(2)])
    moreover have "for_each_loop n on_next on_unlock id ?d h q = Inr (visit on_next (on_unlock False) (q_data q) (x # xs) h, q')"
      using run q2(1,4) q'(1) True m nx v vis by simp
    ultimately show ?thesis by blast
  next
    case False
    then have go: "for_each_loop n on_next on_unlock id ?d h q
        = (if xs = [] \<and> release then Inr (h1, q1) else for_each_loop m on_next on_unlock id ?d h1 q1)"
      unfolding m run using False by (cases release) simp_all
    have "\<exists>q'. for_each_loop n on_next on_unlock id ?d h q = Inr (visit on_next (on_unlock False) (q_data q) xs h1, q')
        \<and> drained_alone S s upd xs pend ms q1 q'"
    proof (cases "xs = [] \<and> release")
      case True
      then show ?thesis using go q1(1) xs(2) by (intro exI [of _ q1]) (simp add: drained_alone_def)
    next
      case False
      have "for_each_loop n on_next on_unlock id ?d h q = for_each_loop m on_next on_unlock id ?d h1 q1"
        using go by (simp only: False if_False)
      then show ?thesis using Cons.IH [OF q1(1) xs(1,2,5,3), of h1, unfolded vis] by metis
    qed
    then obtain q' where q': "for_each_loop n on_next on_unlock id ?d h q = Inr (visit on_next (on_unlock False) (q_data q) xs h1, q')"
      "drained_alone S s upd xs pend ms q1 q'" by blast
    have "drained_alone S s upd (x # xs) pend ms q q'" by (rule step [OF refl refl refl _ q'(2)]) simp
    moreover have "visit on_next (on_unlock False) (q_data q) (x # xs) h = visit on_next (on_unlock False) (q_data q) xs h1"
      using nx v False by auto
    ultimately show ?thesis using q'(1) by metis
  qed
qed

lemma for_each_alone:
  assumes upd: "\<And>h v. snd (snd (on_next h v)) = upd v" and d: "draining S q {} s ds []" "q_locked q" "\<forall>x\<in>set ds. q_data q x \<noteq> None"
    and n: "length ds < n"
  obtains q' where "for_each n on_next on_unlock id \<lparr>d_sentinel = s, d_locked = True\<rparr> h q
      = Inr (on_unlock False (visit on_next (on_unlock False) (q_data q) ds h), q')"
    "queue_wf S q' []" "\<not> q_locked q'" "q_tail q' = q_tail q" "q_links q' s = None"
    "q_data q' = (\<lambda>x. if x \<in> set ds then map_option upd (q_data q x) else q_data q x)"
    "\<forall>x. x \<noteq> s \<longrightarrow> node_states q' x = (if x \<in> set ds then Some Dequeued else node_states q x)"
proof -
  let ?d = "\<lparr>d_sentinel = s, d_locked = True\<rparr>"
  have e: "set ds \<inter> {} = {}" by simp
  obtain q1 where q1: "for_each_loop n on_next on_unlock id ?d h q = Inr (visit on_next (on_unlock False) (q_data q) ds h, q1)"
    "drained_alone S s upd ds {} [] q q1"
    using for_each_loop_alone [where on_next = on_next and on_unlock = on_unlock and h = h, OF upd d(1) e d(2,3) n] by blast
  have dr: "draining S q1 {} s [] []" using q1(2) by (simp add: drained_alone_def)
  let ?q = "(unlock q1)\<lparr>q_links := (q_links q1)(s := None)\<rparr>"
  note en = drain_end_ok [OF dr]
  have "for_each n on_next on_unlock id ?d h q = Inr (on_unlock False (visit on_next (on_unlock False) (q_data q) ds h), ?q)"
    using q1(1) en(1) by (simp add: for_each_def)
  moreover have "queue_wf S ?q []" using en(2,3) by (simp add: queue_wf_def)
  moreover have "node_states ?q x = (if x \<in> set ds then Some Dequeued else node_states q x)" if "x \<noteq> s" for x
  proof -
    have "prev_of ?q x = (if x \<in> set ds then Some 1 else prev_of q x)" using q1(2) that by (simp add: drained_alone_def prev_of_def unlock_def)
    then show ?thesis using node_states_prev [of ?q x q x] node_states_iff(2) [of ?q x] by (cases "x \<in> set ds") simp_all
  qed
  ultimately show ?thesis using q1(2) by (intro that [of ?q]) (simp_all add: drained_alone_def unlock_def)
qed

text \<open>The whole of it: a queue is drained and every node visited, with nobody else around.\<close>

lemma drain_visit_alone:
  assumes upd: "\<And>h v. snd (snd (on_next h v)) = upd v" and wf: "queue_wf S q ns" and lk: "q_locked q"
    and s: "q_links q s = None" "node_addr s" and live: "\<forall>x\<in>set ns. q_data q x \<noteq> None"
    and w: "tail_to_enum S w = State st" and n: "length ns < n"
  obtains q1 q' where "drain_new S w s q = Inr (\<lparr>d_sentinel = s, d_locked = True\<rparr>, q1)"
    "for_each n on_next on_unlock id \<lparr>d_sentinel = s, d_locked = True\<rparr> h q1
      = Inr (on_unlock False (visit on_next (on_unlock False) (q_data q) ns h), q')"
    "queue_wf S q' []" "\<not> q_locked q'" "state_of S q' = (if ns = [] then state_of S q else Some st)"
    "q_data q' = (\<lambda>x. if x \<in> set ns then map_option upd (q_data q x) else q_data q x)"
    "node_states q' = (\<lambda>x. if x \<in> set ns then Some Dequeued else node_states q x)"
proof -
  let ?d = "\<lparr>d_sentinel = s, d_locked = True\<rparr>"
  obtain q1 where q1: "drain_new S w s q = Inr (?d, q1)" "draining S q1 {} s ns []"
    "state_of S q1 = (if ns = [] then state_of S q else Some st)"
    "q_locked q1 = q_locked q" "q_data q1 = q_data q" "\<forall>x. x \<noteq> s \<longrightarrow> prev_of q1 x = prev_of q x"
    by (rule drain_new_ok [OF queue_wf_inv [OF wf] queue_wf_nodes [OF wf] s _ _ w]) auto
  have l: "q_locked q1" "\<forall>x\<in>set ns. q_data q1 x \<noteq> None" using lk live q1(4,5) by simp_all
  obtain q' where r: "for_each n on_next on_unlock id ?d h q1
      = Inr (on_unlock False (visit on_next (on_unlock False) (q_data q1) ns h), q')"
    "queue_wf S q' []" "\<not> q_locked q'" "q_tail q' = q_tail q1" "q_links q' s = None"
    "q_data q' = (\<lambda>x. if x \<in> set ns then map_option upd (q_data q1 x) else q_data q1 x)"
    "\<forall>x. x \<noteq> s \<longrightarrow> node_states q' x = (if x \<in> set ns then Some Dequeued else node_states q1 x)"
    by (rule for_each_alone [where on_unlock = on_unlock and h = h, OF upd q1(2) l n])
  have "s \<notin> set ns" using queue_wf_queued_iff [OF wf, of s] s(1) by (auto simp: node_states_def)
  then have "node_states q' x = (if x \<in> set ns then Some Dequeued else node_states q x)" for x
    using r(5,7) q1(6) s(1) node_states_prev [of q1 x q x] by (cases "x = s") (simp_all add: node_states_def)
  then have "node_states q' = (\<lambda>x. if x \<in> set ns then Some Dequeued else node_states q x)" by blast
  with q1(1,3) r(1-4,6) show ?thesis unfolding q1(5) by (intro that [of q1 q']) (simp_all add: state_of_def)
qed

lemma free_paused:
  assumes p: "drain_paused S q pend s ds ms" and x: "x \<notin> set ds" "x \<notin> set ms" "x \<noteq> s"
  shows "drain_paused S (node_free x q) pend s ds ms"
proof -
  have cells: "prev_of (node_free x q) = (prev_of q)(x := None)" "cell (node_free x q) = (cell q)(NextRef x := None)"
    by (auto simp: node_free_def prev_of_def cell_def fun_eq_iff split: next_ref.splits)
  have b: "beside S q pend s ds ms" and r: "drain_ring q pend s ds" using p by (simp_all add: drain_paused_def)
  have "chain (cell (node_free x q)) (prev_of (node_free x q)) pend HeadRef ms 0"
    by (rule chain_cong [of "cell q" "prev_of q"]) (use b cells x in \<open>auto simp: beside_def queue_inv_def refs_def\<close>)
  moreover have "chain (cell (node_free x q)) (prev_of (node_free x q)) pend (NextRef s) ds s"
    by (rule chain_cong [of "cell q" "prev_of q"]) (use r cells x in \<open>auto simp: drain_ring_def refs_def\<close>)
  moreover have "nodes_ok (node_free x q) {s} (set ms \<union> set ds)"
    using b unfolding beside_def nodes_ok_def cells by auto
  ultimately show ?thesis using b r x cells
    by (auto simp: drain_paused_def beside_def drain_ring_def queue_inv_def tail_node_def node_free_def)
qed

lemma paused_raw_state:
  assumes "drain_paused S q pend s ds ms" and "x \<in> set ds"
  shows "raw_state x q = Inr Queued"
proof -
  have ch: "chain (cell q) (prev_of q) pend (NextRef s) ds s" and ok: "nodes_ok q {s} (set ms \<union> set ds)"
    and s: "s \<notin> set ds"
    using assms(1) by (simp_all add: drain_paused_def beside_def drain_ring_def)
  obtain r where "succ (NextRef s) ds r = Some x" using succ_exists [OF chain_linear [OF ch] assms(2)] by blast
  then obtain v where "prev_of q x = Some v" using chain_prev [OF ch] by blast
  moreover from this have "v \<noteq> 0 \<and> v \<noteq> 1" using ok s assms(2) by (auto simp: nodes_ok_def)
  ultimately show ?thesis by (intro raw_state_eq) (auto simp: node_states_iff)
qed

lemma drain_drop_paused_ok:
  assumes p: "drain_paused S (gap q) pend s ds ms" "set ds \<inter> pend = {}" "\<not> q_locked (gap q)"
    and h: "load_next (NextRef s) q = Inr v" "v \<noteq> 0" and n: "length ds + 1 < n"
  shows "\<exists>q'. drain_drop n gap \<lparr>d_sentinel = s, d_locked = False\<rparr> q = Inr q'
    \<and> queue_inv S q' pend ms \<and> nodes_ok q' {} (set ms) \<and> q_links q' s = None \<and> \<not> q_locked q'
    \<and> q_tail q' = q_tail (gap q)"
proof -
  let ?d = "\<lparr>d_sentinel = s, d_locked = True\<rparr>"
  let ?q = "(gap q)\<lparr>q_locked := True\<rparr>"
  have p': "drain_paused S ?q pend s ds ms" using p(1) by simp
  note reopen = drain_reopen_ok [OF p']
  have "\<exists>q'. drain_loop n ?d ?q = Inr q' \<and> draining S q' pend s [] ms \<and> q_tail q' = q_tail ?q"
  proof (cases "ds = []")
    case False
    with drain_loop_ok [of S ?q pend s ds ms n] reopen(2) p n show ?thesis by auto
  next
    case True
    obtain q1 where q1: "load_prev s ?q = Inr s" "store_next (NextRef s) 0 ?q = Inr q1"
      "draining S q1 pend s [] ms" "q_tail q1 = q_tail ?q"
      using reopen(3) True by auto
    then obtain u where u: "prev_of q1 s = Some u" by (auto simp: draining_def drain_open_def)
    obtain q2 where q2: "store_prev s (into_ptr Dequeued) q1 = Inr q2" "cell q2 = cell q1"
      "prev_of q2 = (prev_of q1)(s \<mapsto> into_ptr Dequeued)" "q_tail q2 = q_tail q1" "frame q1 q2"
      using u by (rule store_prev_cell)
    have t: "touches {s} q1 q2" by (rule touches_cells) (use q2 in auto)
    have "beside S q2 pend s [] ms"
      by (rule beside_step [OF _ t, of S pend s "[]"]) (use q1 q2 in \<open>auto simp: draining_def beside_def\<close>)
    then have dq2: "draining S q2 pend s [] ms" using q1(3) q2 by (simp add: draining_def drain_open_def)
    have drop: "node_drained_drop ?d s ?q = Inr q2"
      using q1 q2 by (simp add: node_drained_drop_def drain_set_head_def)
    obtain m where "n = Suc (Suc m)" using n by (metis Suc_eq_plus1 Suc_lessE True list.size(3) add_0 less_imp_Suc_add)
    then show ?thesis
      using reopen(1) True drop dq2 drain_head_eq [of q2 pend s "[]" True] q1(4) q2(4) by (simp add: draining_def)
  qed
  then obtain q' where q': "drain_loop n ?d ?q = Inr q'" "draining S q' pend s [] ms" "q_tail q' = q_tail ?q"
    by blast
  note e = drain_end_ok [OF q'(2)]
  have "drain_drop n gap \<lparr>d_sentinel = s, d_locked = False\<rparr> q = Inr ((unlock q')\<lparr>q_links := (q_links q')(s := None)\<rparr>)"
    using q'(1) h p(3) by (simp add: drain_drop_def drain_drain_def drain_is_empty_def lock_def)
  with e q'(3) show ?thesis by (auto simp: unlock_def)
qed

text \<open>A thread that takes its node \<open>p\<close> out of the ring whenever it is the first one there.\<close>

definition leaver :: "'s state_ops \<Rightarrow> addr \<Rightarrow> addr \<Rightarrow> 'd queue \<Rightarrow> 'd queue" where
  "leaver S s p q =
     (if prev_of q p = Some s then (case remove S p 0 False q of Inl _ \<Rightarrow> q | Inr (_, q') \<Rightarrow> q') else q)"

lemma leaver_env:
  assumes S: "queue_state S valid dflt" and ps: "p \<noteq> s"
  shows "drain_env (keeping (- {p})) S s (leaver S s p)"
  unfolding drain_env_def
proof (intro allI impI, elim conjE)
  fix q :: "'d queue" and pend ds ms
  assume q: "drain_paused S q pend s ds ms" "set ds \<inter> pend = {}" "\<not> q_locked q"
  show "\<exists>pend' ds' ms'. drain_paused S (leaver S s p q) pend' s ds' ms' \<and> set ds' \<inter> pend' = {}
    \<and> \<not> q_locked (leaver S s p q) \<and> keeping (- {p}) ds' ds \<and> (\<forall>x\<in>set ds'. q_data (leaver S s p q) x = q_data q x)"
  proof (cases "prev_of q p = Some s")
    case False
    then have e: "leaver S s p q = q" by (simp add: leaver_def)
    show ?thesis unfolding e using q some_nodes.keeps_refl by blast
  next
    case True
    have b: "beside S q pend s ds ms" using q by (simp add: drain_paused_def)
    then have s: "s \<noteq> 0" "s \<noteq> 1" "s \<noteq> HEAD_MARKER" "s \<notin> set ms" by (auto simp: beside_def)
    have "p \<in> set ms \<union> set ds" using b True s ps by (auto simp: beside_def nodes_ok_def)
    moreover have "p \<notin> set ms"
    proof
      assume p: "p \<in> set ms"
      have inv: "queue_inv S q pend ms" using b by (simp add: beside_def)
      obtain r where r: "succ HeadRef ms r = Some p"
        using succ_exists [of HeadRef ms p] queue_inv_distinct [OF inv] p by auto
      from queue_inv_at(2,6) [OF inv r] True s show False by (auto simp: refs_def)
    qed
    ultimately have p: "p \<in> set ds" by simp
    obtain q' where q': "remove S p 0 False q = Inr (False, q')" "drain_paused S q' pend s (remove1 p ds) ms"
      "touches (insert s (set ds)) q q'"
      using queue_state.ring_remove_ok [OF S q(1) p q(2)] by metis
    then have "leaver S s p q = q'" using True by (simp add: leaver_def)
    moreover have "set (remove1 p ds) \<inter> pend = {}" using q(2) notin_set_remove1 by fastforce
    moreover have "subseq (remove1 p ds) ds" by (induction ds) auto
    then have "keeping (- {p}) (remove1 p ds) ds" unfolding keeping_def using in_set_remove1 by fastforce
    ultimately show ?thesis using q' q(3) by (auto simp: touches_def frame_def)
  qed
qed

section \<open>Properties\<close>

text \<open>
  C19. A drain takes the whole queue in one step: afterwards the drained list holds exactly the nodes
  that were queued, in their order, the queue is empty, and the given state is installed. On a queue
  that was empty already the drain is empty and the state is left as it was.
\<close>

theorem drain_takes_all:
  assumes S: "queue_state S valid dflt" and wf: "queue_wf S q ms" and st: "valid st"
    and s: "q_links q s = None" "node_addr s"
  shows "\<exists>q'. drain_try_set_state S st s q = Inr (\<lparr>d_sentinel = s, d_locked = True\<rparr>, q')
    \<and> draining S q' {} s ms [] \<and> is_empty S q'
    \<and> state_of S q' = (if ms = [] then state_of S q else Some st)"
proof -
  obtain w where w: "enum_to_tail S (State st) = Inr w" "tail_to_enum S w = State st"
    using queue_state.state_encodable [OF S st] by blast
  obtain q' where "drain_new S w s q = Inr (\<lparr>d_sentinel = s, d_locked = True\<rparr>, q')"
    "draining S q' {} s ms []" "state_of S q' = (if ms = [] then state_of S q else Some st)"
    by (rule drain_new_ok [OF queue_wf_inv [OF wf] queue_wf_nodes [OF wf] s _ _ w(2)]) auto
  moreover from this have "is_empty S q'" using is_empty_iff [of S q' "{}" "[]"]
    by (simp add: draining_def beside_def)
  ultimately show ?thesis using w by (simp add: drain_try_set_state_def)
qed

theorem drain_takes_all_witness:
  "\<exists>q'. drain_try_set_state usize_state 5 12288 two_nodes = Inr (\<lparr>d_sentinel = 12288, d_locked = True\<rparr>, q')
    \<and> draining usize_state q' {} 12288 [4096, 8192] [] \<and> is_empty usize_state q' \<and> state_of usize_state q' = Some 5"
  using drain_takes_all [OF usize_qs.queue_state_axioms two_nodes_wf, of 5 12288]
  by (simp add: max_state_value two_nodes_def node_addr_def)

text \<open>
  C20. \<^verbatim>\<open>for_each\<close> on a drained queue terminates and visits every node exactly once,
  in queue order, whatever its callbacks do, as long as no node leaves while the lock is released
  (others may enqueue, dequeue, pop and drop other nodes meanwhile). The number of rounds it needs
  is the number of nodes plus one. The helper it ends with is the one of the plain traversal
  \<open>visit\<close> followed by the last \<open>on_unlock\<close>; the lock is released, the sentinel is
  gone, and the memory is that of a well-formed queue.
\<close>

theorem for_each_visits_all:
  assumes "queue_state S valid dflt" and "queue_wf S q ms" and "q_links q s = None" and "node_addr s"
    and "q_locked q" and "\<forall>x\<in>set ms. q_data q x \<noteq> None" and "drain_env (=) S s others" and "length ms < n"
  shows "\<exists>d q1 q' pend' ms'. locked_drain S s q = Inr (d, q1)
    \<and> for_each n on_next on_unlock others d h q1
       = Inr (on_unlock False (visit on_next (on_unlock False) (q_data q) ms h), q')
    \<and> queue_inv S q' pend' ms' \<and> nodes_ok q' {} (set ms') \<and> q_links q' s = None \<and> \<not> q_locked q'"
proof -
  obtain q1 where q1: "drain_new S 0 s q = Inr (\<lparr>d_sentinel = s, d_locked = True\<rparr>, q1)"
    "draining S q1 {} s ms []" "q_locked q1 = q_locked q" "q_data q1 = q_data q"
    by (rule drain_new_ok [OF queue_wf_inv [OF assms(2)] queue_wf_nodes [OF assms(2)] assms(3,4)
          _ _ queue_state.null_is_state [OF assms(1)]]) auto
  then show ?thesis
    using all_nodes.for_each_ok [OF assms(7) q1(2) _ _ _ assms(8), of on_next on_unlock h] assms(5,6)
    by (auto simp: locked_drain_def visited_def)
qed

theorem for_each_visits_all_witness:
  "\<exists>d q1 q' pend' ms'. locked_drain usize_state 12288 (two_nodes\<lparr>q_locked := True\<rparr>) = Inr (d, q1)
    \<and> for_each 3 (\<lambda>h v. (True, h @ [v], v)) (\<lambda>_ h. h @ [100]) id d [] q1 = Inr ([1, 100, 2, 100], q')
    \<and> queue_inv usize_state q' pend' ms' \<and> nodes_ok q' {} (set ms') \<and> q_links q' 12288 = None \<and> \<not> q_locked q'"
proof -
  have env: "drain_env (=) usize_state 12288 id" unfolding drain_env_def by auto
  have wf: "queue_wf usize_state (two_nodes\<lparr>q_locked := True\<rparr>) [4096, 8192]" using two_nodes_wf by simp
  show ?thesis
    using for_each_visits_all [OF usize_qs.queue_state_axioms wf _ _ _ _ env, of 3 "\<lambda>h v. (True, h @ [v], v)" "\<lambda>_ h. h @ [100]" "[]"]
    by (simp add: two_nodes_def node_addr_def)
qed

text \<open>
  C21. The same with nodes that remove themselves from the ring while the lock is released: the loop
  still terminates within the same bound, and visits nodes of the queue in queue order and each once,
  among them the first one and every node that stays. Here \<open>K\<close> are the nodes that the other
  threads leave alone; a node that is not visited is one that they took out.
\<close>

theorem for_each_visits_remaining:
  assumes "queue_state S valid dflt" and "queue_wf S q ms" and "q_links q s = None" and "node_addr s"
    and "q_locked q" and "\<forall>x\<in>set ms. q_data q x \<noteq> None" and "drain_env (keeping K) S s others" and "length ms < n"
  shows "\<exists>d q1 h' q' pend' ms' vs. locked_drain S s q = Inr (d, q1)
    \<and> for_each n on_next on_unlock others d h q1 = Inr (on_unlock False h', q')
    \<and> subseq vs ms \<and> (vs = [] \<longleftrightarrow> ms = []) \<and> set ms \<inter> K \<subseteq> set vs
    \<and> (h' = visit on_next (on_unlock False) (q_data q) vs h
       \<or> length vs < length ms \<and> h' = on_unlock False (visit on_next (on_unlock False) (q_data q) vs h))
    \<and> queue_inv S q' pend' ms' \<and> nodes_ok q' {} (set ms') \<and> q_links q' s = None \<and> \<not> q_locked q'"
proof -
  obtain q1 where q1: "drain_new S 0 s q = Inr (\<lparr>d_sentinel = s, d_locked = True\<rparr>, q1)"
    "draining S q1 {} s ms []" "q_locked q1 = q_locked q" "q_data q1 = q_data q"
    by (rule drain_new_ok [OF queue_wf_inv [OF assms(2)] queue_wf_nodes [OF assms(2)] assms(3,4)
          _ _ queue_state.null_is_state [OF assms(1)]]) auto
  obtain h' q' pend' ms' vs where r: "for_each n on_next on_unlock others \<lparr>d_sentinel = s, d_locked = True\<rparr> h q1
      = Inr (on_unlock False h', q')" "queue_inv S q' pend' ms'" "nodes_ok q' {} (set ms')" "q_links q' s = None"
    "\<not> q_locked q'" "visited (keeping K) on_next (on_unlock False) (q_data q1) ms vs h h'"
    using some_nodes.for_each_ok [OF assms(7) q1(2) _ _ _ assms(8), of on_next on_unlock h] assms(5,6)
    unfolding q1(3,4) by blast
  then show ?thesis using q1(1,4) unfolding visited_def keeping_def locked_drain_def
    by (intro exI [of _ "\<lparr>d_sentinel = s, d_locked = True\<rparr>"] exI [of _ q1] exI [of _ h'] exI [of _ q']
        exI [of _ pend'] exI [of _ ms'] exI [of _ vs]) simp
qed

theorem for_each_visits_remaining_witness:
  "\<exists>d q1 h' q' pend' ms' vs. locked_drain usize_state 12288 (two_nodes\<lparr>q_locked := True\<rparr>) = Inr (d, q1)
    \<and> for_each 3 (\<lambda>h v. (True, h @ [v], v)) (\<lambda>_ h. h @ [100]) (leaver usize_state 12288 8192) d [] q1
       = Inr (h' @ [100], q')
    \<and> subseq vs [4096 :: addr, 8192] \<and> 4096 \<in> set vs
    \<and> queue_inv usize_state q' pend' ms' \<and> nodes_ok q' {} (set ms') \<and> q_links q' 12288 = None \<and> \<not> q_locked q'"
proof -
  have env: "drain_env (keeping (- {8192})) usize_state 12288 (leaver usize_state 12288 8192)"
    by (rule leaver_env [OF usize_qs.queue_state_axioms]) simp
  have wf: "queue_wf usize_state (two_nodes\<lparr>q_locked := True\<rparr>) [4096, 8192]" using two_nodes_wf by simp
  have pre: "q_links (two_nodes\<lparr>q_locked := True\<rparr>) 12288 = None" "node_addr 12288" "q_locked (two_nodes\<lparr>q_locked := True\<rparr>)"
    "\<forall>x\<in>set [4096, 8192]. q_data (two_nodes\<lparr>q_locked := True\<rparr>) x \<noteq> None" "length [4096 :: addr, 8192] < 3"
    by (simp_all add: two_nodes_def node_addr_def)
  show ?thesis
    using for_each_visits_remaining [OF usize_qs.queue_state_axioms wf pre(1-4) env pre(5),
        of "\<lambda>h v. (True, h @ [v], v)" "\<lambda>_ h. h @ [100]" "[]"]
    by (elim exE conjE) (intro exI conjI, assumption+, simp_all)
qed

text \<open>
  C22. A node that is dropped while it sits in a released drain takes itself out of the ring: the drop
  returns, the ring keeps the other nodes in order, the queue beside it and its tail word are
  untouched (the node may have been the tail of the queue before the drain), and the node's memory
  can go.
\<close>

theorem drained_node_drop:
  assumes S: "queue_state S valid dflt" and raw: "raw_state p q = Inr Queued"
    and gap: "drain_paused S (gap q) pend s ds ms" "set ds \<inter> pend = {}" "\<not> q_locked (gap q)" and p: "p \<in> set ds"
  shows "\<exists>q'. node_drop S p gap q = Inr q' \<and> drain_paused S q' pend s (remove1 p ds) ms
    \<and> q_links q' p = None \<and> q_tail q' = q_tail (gap q) \<and> \<not> q_locked q'"
proof -
  let ?q = "(gap q)\<lparr>q_locked := True\<rparr>"
  have pq: "drain_paused S ?q pend s ds ms" using gap(1) by simp
  obtain q1 where q1: "remove S p 0 False ?q = Inr (False, q1)"
    "drain_paused S q1 pend s (remove1 p ds) ms" "q_tail q1 = q_tail ?q"
    using queue_state.ring_remove_ok [OF S pq p gap(2)] by metis
  have "distinct ds" "p \<notin> set ms" "p \<noteq> s"
    using gap(1) p by (auto simp: drain_paused_def beside_def drain_ring_def chain_def linear_def)
  then have "drain_paused S (node_free p (unlock q1)) pend s (remove1 p ds) ms"
    using q1(2) by (intro free_paused) (simp_all add: unlock_def)
  moreover have "node_drop S p gap q = Inr (node_free p (unlock q1))"
    using raw gap(3) q1(1) paused_raw_state [OF pq p] by (simp add: node_drop_def node_dequeue_def lock_def)
  ultimately show ?thesis using q1(3) by (auto simp: node_free_def unlock_def)
qed

text \<open>The ring of the nodes 4096 and 8192 through the sentinel 12288, beside an empty queue.\<close>

definition two_drained :: "nat queue" where
  "two_drained = \<lparr>q_tail = 0, q_head = 0, q_locked = False,
     q_links = [12288 \<mapsto> \<lparr>link_prev = 8192, link_next = 4096\<rparr>,
       4096 \<mapsto> \<lparr>link_prev = 12288, link_next = 8192\<rparr>, 8192 \<mapsto> \<lparr>link_prev = 4096, link_next = 12288\<rparr>],
     q_data = [4096 \<mapsto> 1, 8192 \<mapsto> 2]\<rparr>"

lemma two_drained_paused: "drain_paused usize_state two_drained {} 12288 [4096, 8192] []"
proof -
  have "chain (cell two_drained) (prev_of two_drained) {} (NextRef 12288) [4096, 8192] 12288"
  proof (rule chainI)
    show "cell two_drained r = Some (case succ (NextRef 12288) [4096, 8192] r of None \<Rightarrow> 12288
        | Some y \<Rightarrow> if y \<in> {} then 0 else y)" if "r \<in> refs (NextRef 12288) [4096, 8192]" for r
      using that by (auto simp: refs_def cell_def two_drained_def)
    show "prev_of two_drained y = Some (ref_ptr r)" if "succ (NextRef 12288) [4096, 8192] r = Some y" for r y
      using that by (auto simp: prev_of_def two_drained_def split: if_splits)
  qed (simp, auto simp: example_addrs)
  then have "drain_ring two_drained {} 12288 [4096, 8192]"
    by (simp add: drain_ring_def prev_of_def two_drained_def)
  moreover have "nodes_ok two_drained {12288} {4096, 8192}"
    by (auto simp: nodes_ok_def two_drained_def prev_of_def cell_def example_addrs split: if_splits)
  moreover have "queue_inv usize_state two_drained {} []"
    using usize_qs.null_is_state by (simp add: queue_inv_def chain_def refs_def cell_def tail_node_def two_drained_def)
  ultimately show ?thesis by (simp add: drain_paused_def beside_def node_addr_def)
qed

theorem drained_node_drop_witness:
  "\<exists>q'. node_drop usize_state 8192 id two_drained = Inr q' \<and> drain_paused usize_state q' {} 12288 [4096] []
    \<and> q_links q' 8192 = None \<and> q_tail q' = 0 \<and> \<not> q_locked q'"
  using drained_node_drop [OF usize_qs.queue_state_axioms, of 8192 two_drained id "{}" 12288 "[4096, 8192]" "[]"]
    two_drained_paused paused_raw_state [OF two_drained_paused, of 8192]
  by (simp add: two_drained_def)

text \<open>
  C23. A drain whose closure panics while the lock is released is dropped without it. The drop locks
  the queue again and empties the ring, in at most one round more than it has nodes, also if all
  nodes have left it by then and the sentinel is the only member of the ring.
\<close>

theorem drain_drop_unlocked:
  assumes "drain_paused S (gap q) pend s ds ms" and "set ds \<inter> pend = {}" and "\<not> q_locked (gap q)"
    and "load_next (NextRef s) q = Inr v" and "v \<noteq> 0" and "length ds + 1 < n"
  shows "\<exists>q'. drain_drop n gap \<lparr>d_sentinel = s, d_locked = False\<rparr> q = Inr q'
    \<and> queue_inv S q' pend ms \<and> nodes_ok q' {} (set ms) \<and> q_links q' s = None \<and> \<not> q_locked q'
    \<and> q_tail q' = q_tail (gap q)"
  using assms by (rule drain_drop_paused_ok)

theorem drain_drop_unlocked_witness:
  "\<exists>q'. drain_drop 4 id \<lparr>d_sentinel = 12288, d_locked = False\<rparr> two_drained = Inr q'
    \<and> queue_inv usize_state q' {} [] \<and> nodes_ok q' {} (set []) \<and> q_links q' 12288 = None \<and> \<not> q_locked q'
    \<and> q_tail q' = q_tail (id two_drained)"
  by (rule drain_drop_unlocked [where ds = "[4096, 8192]" and v = 4096])
    (simp_all add: two_drained_paused, simp_all add: two_drained_def load_next_def)

end
