(* ===== verification/Wait_Queue.thy ===== *)
theory Wait_Queue
  imports Drain
begin

text \<open>
  \<^verbatim>\<open>src/wait_queue.rs\<close>: a queue of waiters with a closed flag as its state. A waker is
  identified by the task it wakes (two wakers \<^verbatim>\<open>will_wake\<close> the same task iff they are
  equal, a clone is equal to its original), and waking is an entry of a log, together with whether
  the queue's lock was held by the caller at that moment. As before \<open>gap\<close> and \<open>others\<close>
  stand for what other threads do before a lock is granted.
\<close>

section \<open>Waiters and the list of wakers\<close>

type_synonym waker = nat
type_synonym wakeups = "(waker \<times> bool) list"

definition EMPTY :: usize where "EMPTY = 0"
definition CLOSED :: usize where "CLOSED = 1"

datatype notification = NotificationOne | NotificationLast

record waiter =
  w_waker :: "waker option"
  w_notification :: "notification option"

definition waiter_default :: waiter where
  "waiter_default = \<lparr>w_waker = None, w_notification = None\<rparr>"

definition wake :: "'d queue \<Rightarrow> waker \<Rightarrow> wakeups \<Rightarrow> wakeups" where
  "wake q w log = log @ [(w, q_locked q)]"

text \<open>The array of 32 slots; a slot that has not been written is \<open>None\<close>.\<close>

record waker_list =
  wl_wakers :: "waker option list"
  wl_len :: usize

definition waker_list_new :: waker_list where
  "waker_list_new = \<lparr>wl_wakers = replicate 32 None, wl_len = 0\<rparr>"

definition waker_list_push :: "waker \<Rightarrow> waker_list \<Rightarrow> waker_list res" where
  "waker_list_push w l =
     (if unat (wl_len l) < length (wl_wakers l)
      then Inr \<lparr>wl_wakers = (wl_wakers l)[unat (wl_len l) := Some w], wl_len = wl_len l + 1\<rparr>
      else Inl (Panic ''index out of bounds''))"

definition waker_list_is_full :: "waker_list \<Rightarrow> bool" where
  "waker_list_is_full l \<longleftrightarrow> unat (wl_len l) = length (wl_wakers l)"

fun assume_init_read :: "waker option list \<Rightarrow> waker list res" where
  "assume_init_read [] = Inr []"
| "assume_init_read (w # ws) =
     bind_res (unwrap_unchecked w) (\<lambda>w. bind_res (assume_init_read ws) (\<lambda>ws. Inr (w # ws)))"

definition waker_list_drain :: "waker_list \<Rightarrow> (waker list \<times> waker_list) res" where
  "waker_list_drain l =
     (if unat (wl_len l) \<le> length (wl_wakers l)
      then bind_res (assume_init_read (take (unat (wl_len l)) (wl_wakers l))) (\<lambda>ws. Inr (ws, l\<lparr>wl_len := 0\<rparr>))
      else Inl Undefined)"

definition waker_list_drop :: "waker_list \<Rightarrow> waker_list res" where
  "waker_list_drop l = bind_res (waker_list_drain l) (\<lambda>(_, l). Inr l)"

text \<open>What the nodes of futures look like: the waiting ones, the notified ones and the rest.\<close>

definition abs_states :: "addr set \<Rightarrow> addr set \<Rightarrow> addr set \<Rightarrow> addr \<Rightarrow> raw_node_state option" where
  "abs_states waiting notif fs p =
     (if p \<in> waiting then Some Queued else if p \<in> notif then Some Dequeued
      else if p \<in> fs then Some Unqueued else None)"

section \<open>Notifications\<close>

definition wait_queue_new :: "waiter queue res" where
  "wait_queue_new = with_state_const EMPTY"

definition is_closed :: "waiter queue \<Rightarrow> bool" where
  "is_closed q = (case state_of usize_state q of None \<Rightarrow> False | Some s \<Rightarrow> s \<noteq> EMPTY)"

definition set_notification :: "addr \<Rightarrow> notification \<Rightarrow> waiter queue \<Rightarrow> waiter queue res" where
  "set_notification p n q =
     bind_res (with_data_mut p (\<lambda>w. ((), w\<lparr>w_notification := Some n\<rparr>)) q) (\<lambda>(_, q). Inr q)"

definition take_waker :: "addr \<Rightarrow> waiter queue \<Rightarrow> (waker \<times> waiter queue) res" where
  "take_waker p q =
     bind_res (with_data_mut p (\<lambda>w. (w_waker w, w\<lparr>w_waker := None\<rparr>)) q) (\<lambda>(w, q).
     bind_res (unwrap_unchecked w) (\<lambda>w. Inr (w, q)))"

definition notify_one ::
  "(waiter queue \<Rightarrow> waiter queue) \<Rightarrow> wakeups \<Rightarrow> waiter queue \<Rightarrow> (wakeups \<times> waiter queue) res" where
  "notify_one gap log q =
     is_empty_or_locked usize_state gap (\<lambda>log q.
       bind_res (bind_res (locked_dequeue usize_state q) unwrap_unchecked) (\<lambda>p.
       bind_res (set_notification p NotificationOne q) (\<lambda>q.
       bind_res (take_waker p q) (\<lambda>(w, q).
       bind_res (dequeue_drop usize_state p q) (\<lambda>q.
         let q = unlock q in Inr (wake q w log, q)))))) log q"

definition notify_last ::
  "(waiter queue \<Rightarrow> waiter queue) \<Rightarrow> wakeups \<Rightarrow> waiter queue \<Rightarrow> (wakeups \<times> waiter queue) res" where
  "notify_last gap log q =
     is_empty_or_locked usize_state gap (\<lambda>log q.
       bind_res (unwrap_unchecked (locked_pop usize_state q)) (\<lambda>p.
       bind_res (set_notification p NotificationLast q) (\<lambda>q.
       bind_res (take_waker p q) (\<lambda>(w, q).
       bind_res (pop_drop usize_state p q) (\<lambda>q.
         let q = unlock q in Inr (wake q w log, q)))))) log q"

text \<open>
  The loop of \<^verbatim>\<open>notify_many\<close>, with the number of rounds left. The flag of its
  result says whether it ends with the lock; the wakers that are left are woken before the guard, a
  parameter of the function, goes out of scope.
\<close>

fun notify_many_loop ::
  "nat \<Rightarrow> (waiter queue \<Rightarrow> waiter queue) \<Rightarrow> waker_list \<Rightarrow> wakeups \<Rightarrow> waiter queue
   \<Rightarrow> (bool \<times> waker_list \<times> wakeups \<times> waiter queue) res" where
  "notify_many_loop 0 others wakers log q = Inr (True, wakers, log, q)"
| "notify_many_loop (Suc n) others wakers log q =
     bind_res (locked_dequeue usize_state q) (\<lambda>node. case node of
       None \<Rightarrow> Inr (False, wakers, log, unlock q)
     | Some p \<Rightarrow>
         bind_res (set_notification p NotificationOne q) (\<lambda>q.
         bind_res (take_waker p q) (\<lambda>(w, q).
         bind_res (waker_list_push w wakers) (\<lambda>wakers.
         bind_res (dequeue_drop usize_state p q) (\<lambda>q.
           if waker_list_is_full wakers
           then let q = unlock q in
             bind_res (waker_list_drain wakers) (\<lambda>(ws, wakers).
             let log = fold (wake q) ws log in
             bind_res (is_empty_or_lock usize_state others q) (\<lambda>(locked, q).
               if locked then notify_many_loop n others wakers log q
               else Inr (False, wakers, log, q)))
           else notify_many_loop n others wakers log q)))))"

definition notify_many_locked ::
  "usize \<Rightarrow> (waiter queue \<Rightarrow> waiter queue) \<Rightarrow> wakeups \<Rightarrow> waiter queue \<Rightarrow> (wakeups \<times> waiter queue) res" where
  "notify_many_locked count others log q =
     bind_res (notify_many_loop (unat count) others waker_list_new log q) (\<lambda>(locked, wakers, log, q).
     bind_res (waker_list_drain wakers) (\<lambda>(ws, _).
     let log = fold (wake q) ws log in
       Inr (log, if locked then unlock q else q)))"

definition notify_many ::
  "usize \<Rightarrow> (waiter queue \<Rightarrow> waiter queue) \<Rightarrow> (waiter queue \<Rightarrow> waiter queue) \<Rightarrow> wakeups
   \<Rightarrow> waiter queue \<Rightarrow> (wakeups \<times> waiter queue) res" where
  "notify_many count gap others log q =
     is_empty_or_locked usize_state gap (notify_many_locked count others) log q"

definition notify_many_const ::
  "usize \<Rightarrow> (waiter queue \<Rightarrow> waiter queue) \<Rightarrow> (waiter queue \<Rightarrow> waiter queue) \<Rightarrow> wakeups
   \<Rightarrow> waiter queue \<Rightarrow> (wakeups \<times> waiter queue) res" where
  "notify_many_const COUNT gap others log q =
     (if COUNT = 1 then notify_one gap log q
      else is_empty_or_locked usize_state gap (notify_many_locked COUNT others) log q)"

text \<open>
  \<^verbatim>\<open>drain_queue\<close>: the helper of the drain is the list of wakers with the log; a fault
  in a callback is kept in it. \<open>s\<close> is the address the drain is pinned to.
\<close>

definition drain_queue_next ::
  "(waker_list \<times> wakeups) res \<Rightarrow> waiter \<Rightarrow> bool \<times> (waker_list \<times> wakeups) res \<times> waiter" where
  "drain_queue_next h w =
     (case bind_res h (\<lambda>(wakers, log). bind_res (unwrap_unchecked (w_waker w)) (\<lambda>waker.
           bind_res (waker_list_push waker wakers) (\<lambda>wakers. Inr (wakers, log)))) of
        Inl e \<Rightarrow> (False, Inl e, w\<lparr>w_waker := None\<rparr>)
      | Inr (wakers, log) \<Rightarrow> (waker_list_is_full wakers, Inr (wakers, log), w\<lparr>w_waker := None\<rparr>))"

definition drain_queue_unlock :: "bool \<Rightarrow> (waker_list \<times> wakeups) res \<Rightarrow> (waker_list \<times> wakeups) res" where
  "drain_queue_unlock locked h =
     bind_res h (\<lambda>(wakers, log). bind_res (waker_list_drain wakers) (\<lambda>(ws, wakers).
       Inr (wakers, log @ map (\<lambda>w. (w, locked)) ws)))"

definition drain_queue ::
  "nat \<Rightarrow> usize \<Rightarrow> addr \<Rightarrow> (waiter queue \<Rightarrow> waiter queue) \<Rightarrow> wakeups \<Rightarrow> waiter queue
   \<Rightarrow> (wakeups \<times> waiter queue) res" where
  "drain_queue n STATE s others log q =
     bind_res (drain_try_set_state usize_state STATE s q) (\<lambda>(d, q).
     bind_res (for_each n drain_queue_next drain_queue_unlock others d (Inr (waker_list_new, log)) q) (\<lambda>(h, q).
     bind_res h (\<lambda>(_, log). Inr (log, q))))"

definition notify_all ::
  "nat \<Rightarrow> addr \<Rightarrow> (waiter queue \<Rightarrow> waiter queue) \<Rightarrow> (waiter queue \<Rightarrow> waiter queue) \<Rightarrow> wakeups
   \<Rightarrow> waiter queue \<Rightarrow> (wakeups \<times> waiter queue) res" where
  "notify_all n s gap others log q =
     is_empty_or_locked usize_state gap (drain_queue n EMPTY s others) log q"

definition close ::
  "nat \<Rightarrow> addr \<Rightarrow> (waiter queue \<Rightarrow> waiter queue) \<Rightarrow> (waiter queue \<Rightarrow> waiter queue) \<Rightarrow> wakeups
   \<Rightarrow> waiter queue \<Rightarrow> (wakeups \<times> waiter queue) res" where
  "close n s gap others log q =
     bind_res (fetch_update_state_or_lock usize_state (\<lambda>_. Inr CLOSED) gap q) (\<lambda>(locked, q).
       if locked then drain_queue n CLOSED s others log q else Inr (log, q))"

section \<open>Waiting\<close>

datatype 'a poll = Pending | Ready 'a

definition wait :: "addr \<Rightarrow> waiter queue \<Rightarrow> waiter queue" where
  "wait p q = node_with_data p waiter_default q"

definition wait_owned :: "addr \<Rightarrow> waiter queue \<Rightarrow> waiter queue" where
  "wait_owned p q = node_with_data p waiter_default q"

text \<open>The futures with a predicate: what they keep of it, next to their node.\<close>

definition wait_if :: "addr \<Rightarrow> 'p \<Rightarrow> waiter queue \<Rightarrow> 'p option \<times> waiter queue" where
  "wait_if p predicate q = (Some predicate, wait p q)"

definition wait_if_owned :: "addr \<Rightarrow> 'p \<Rightarrow> waiter queue \<Rightarrow> 'p option \<times> waiter queue" where
  "wait_if_owned p predicate q = (Some predicate, wait_owned p q)"

definition wait_until :: "addr \<Rightarrow> 'p \<Rightarrow> waiter queue \<Rightarrow> 'p \<times> waiter queue" where
  "wait_until p predicate q = (predicate, wait p q)"

definition wait_until_owned :: "addr \<Rightarrow> 'p \<Rightarrow> waiter queue \<Rightarrow> 'p \<times> waiter queue" where
  "wait_until_owned p predicate q = (predicate, wait_owned p q)"

text \<open>\<open>cx\<close> is the waker of the polling task.\<close>

definition poll_wait ::
  "addr \<Rightarrow> waker \<Rightarrow> bool \<Rightarrow> (waiter queue \<Rightarrow> waiter queue) \<Rightarrow> waiter env \<Rightarrow> waiter queue
   \<Rightarrow> (unit poll \<times> waiter queue) res" where
  "poll_wait p cx requeue gap env q =
     (let enqueue_waiter = (\<lambda>q.
        bind_res (with_data_mut p (\<lambda>w. ((), w\<lparr>w_waker := Some cx\<rparr>)) q) (\<lambda>(_, q).
        bind_res (try_enqueue_with_queue_state usize_state p
            (\<lambda>s. case s of None \<Rightarrow> True | Some s \<Rightarrow> s = EMPTY) env q) (\<lambda>(ok, q).
          Inr (if ok then Pending else Ready (), q))))
      in bind_res (node_state p gap q) (\<lambda>(view, q). case view of
          NodeUnqueued \<Rightarrow> enqueue_waiter q
        | NodeQueued \<Rightarrow>
            bind_res (with_data_mut p (\<lambda>w.
                ((), if w_waker w = None \<or> w_waker w \<noteq> Some cx then w\<lparr>w_waker := Some cx\<rparr> else w)) q)
              (\<lambda>(_, q). Inr (Pending, unlock q))
        | NodeDequeued \<Rightarrow>
            if requeue then bind_res (node_dequeued_reset p q) enqueue_waiter
            else Inr (Ready (), q)))"

definition wait_poll ::
  "addr \<Rightarrow> waker \<Rightarrow> (waiter queue \<Rightarrow> waiter queue) \<Rightarrow> waiter env \<Rightarrow> waiter queue
   \<Rightarrow> (unit poll \<times> waiter queue) res" where
  "wait_poll p cx gap env q = poll_wait p cx False gap env q"

text \<open>
  Predicates are calls of their own, made at a certain moment: they get the memory of that moment, here
  the queue. \<open>mid\<close> is what other threads do after the registration, before the predicate is
  called. \<^verbatim>\<open>WaitIf\<close> keeps its predicate until the first poll that is pending.
\<close>

definition wait_if_poll ::
  "addr \<Rightarrow> (waiter queue \<Rightarrow> bool) option \<Rightarrow> waker \<Rightarrow> (waiter queue \<Rightarrow> waiter queue) \<Rightarrow> waiter env
   \<Rightarrow> (waiter queue \<Rightarrow> waiter queue) \<Rightarrow> waiter queue \<Rightarrow> (unit poll \<times> (waiter queue \<Rightarrow> bool) option \<times> waiter queue) res" where
  "wait_if_poll p predicate cx gap env mid q =
     bind_res (poll_wait p cx False gap env q) (\<lambda>(poll, q).
       case poll of
         Pending \<Rightarrow>
           let q = mid q in
           Inr (case predicate of None \<Rightarrow> Pending | Some f \<Rightarrow> if \<not> f q then Ready () else Pending, None, q)
       | Ready _ \<Rightarrow> Inr (poll, predicate, q))"

text \<open>
  \<^verbatim>\<open>WaitUntil\<close> calls its predicate, an \<^verbatim>\<open>FnMut\<close> with the captured state
  \<open>e\<close>, before and after it registers.
\<close>

definition UNTIL_CLOSED :: string where
  "UNTIL_CLOSED = ''wait queue is closed but predicate didn't return `Some`''"

definition poll_cold ::
  "addr \<Rightarrow> ('e \<Rightarrow> waiter queue \<Rightarrow> 't option \<times> 'e) \<Rightarrow> 'e \<Rightarrow> waker \<Rightarrow> (waiter queue \<Rightarrow> waiter queue) \<Rightarrow> waiter env
   \<Rightarrow> (waiter queue \<Rightarrow> waiter queue) \<Rightarrow> waiter queue \<Rightarrow> ('t poll \<times> 'e \<times> waiter queue) res" where
  "poll_cold p predicate e cx gap env mid q =
     bind_res (poll_wait p cx True gap env q) (\<lambda>(poll, q).
       let q = mid q in
       case predicate e q of
         (Some r, e) \<Rightarrow> Inr (Ready r, e, q)
       | (None, e) \<Rightarrow> if poll = Ready () then Inl (Panic UNTIL_CLOSED) else Inr (Pending, e, q))"

definition wait_until_poll ::
  "addr \<Rightarrow> ('e \<Rightarrow> waiter queue \<Rightarrow> 't option \<times> 'e) \<Rightarrow> 'e \<Rightarrow> waker \<Rightarrow> (waiter queue \<Rightarrow> waiter queue) \<Rightarrow> waiter env
   \<Rightarrow> (waiter queue \<Rightarrow> waiter queue) \<Rightarrow> waiter queue \<Rightarrow> ('t poll \<times> 'e \<times> waiter queue) res" where
  "wait_until_poll p predicate e cx gap env mid q =
     (case predicate e q of
        (Some r, e) \<Rightarrow> Inr (Ready r, e, q)
      | (None, e) \<Rightarrow> poll_cold p predicate e cx gap env mid q)"

text \<open>
  The hook that \<^verbatim>\<open>queue_ref!\<close> declares for a node that goes away: a notification
  it received is passed on.
\<close>

definition wait_drop_node ::
  "waiter \<Rightarrow> (waiter queue \<Rightarrow> waiter queue) \<Rightarrow> wakeups \<Rightarrow> waiter queue \<Rightarrow> (wakeups \<times> waiter queue) res" where
  "wait_drop_node w gap log q =
     (case w_notification w of
        Some NotificationOne \<Rightarrow> notify_one gap log q
      | Some NotificationLast \<Rightarrow> notify_last gap log q
      | None \<Rightarrow> Inr (log, q))"

section \<open>Invariant\<close>

text \<open>
  Every queued waiter has a waker. This is what makes the \<^verbatim>\<open>unwrap_unchecked\<close> of the
  notifications safe.
\<close>

definition waiters_ok :: "waiter queue \<Rightarrow> addr list \<Rightarrow> bool" where
  "waiters_ok q ns \<longleftrightarrow> (\<forall>x\<in>set ns. \<exists>w. q_data q x = Some w \<and> w_waker w \<noteq> None)"

definition wait_queue_ok :: "waiter queue \<Rightarrow> addr list \<Rightarrow> bool" where
  "wait_queue_ok q ns \<longleftrightarrow> queue_wf usize_state q ns \<and> waiters_ok q ns"

definition waker_of :: "waiter queue \<Rightarrow> addr \<Rightarrow> waker" where
  "waker_of q x = the (w_waker (the (q_data q x)))"

definition waker_list_ok :: "waker_list \<Rightarrow> waker list \<Rightarrow> bool" where
  "waker_list_ok l ws \<longleftrightarrow> length (wl_wakers l) = 32 \<and> unat (wl_len l) = length ws \<and> length ws \<le> 32
     \<and> take (length ws) (wl_wakers l) = map Some ws"

definition wait_env :: "(waiter queue \<Rightarrow> waiter queue) \<Rightarrow> bool" where
  "wait_env f \<longleftrightarrow> (\<forall>q ns. wait_queue_ok q ns \<and> \<not> q_locked q \<longrightarrow>
     (\<exists>ns'. wait_queue_ok (f q) ns' \<and> \<not> q_locked (f q)))"

section \<open>Lemmas\<close>

subsection \<open>The list of wakers\<close>

lemma waker_list_new_ok: "waker_list_ok waker_list_new []"
  by (simp add: waker_list_ok_def waker_list_new_def)

lemma waker_list_push_ok:
  assumes ok: "waker_list_ok l ws" and room: "length ws < 32"
  obtains l' where "waker_list_push w l = Inr l'" "waker_list_ok l' (ws @ [w])"
    "waker_list_is_full l' \<longleftrightarrow> length ws = 31"
proof -
  let ?l = "\<lparr>wl_wakers = (wl_wakers l)[unat (wl_len l) := Some w], wl_len = wl_len l + 1\<rparr>"
  have l: "length (wl_wakers l) = 32" "unat (wl_len l) = length ws" "take (length ws) (wl_wakers l) = map Some ws"
    using ok by (auto simp: waker_list_ok_def)
  have len: "unat (wl_len l + 1) = length ws + 1"
    using l(2) room by (simp add: unat_word_ariths)
  have "take (length ws + 1) ((wl_wakers l)[length ws := Some w]) = map Some ws @ [Some w]"
    using l room by (simp add: take_Suc_conv_app_nth)
  then show ?thesis
    using that [of ?l] l len room by (auto simp: waker_list_push_def waker_list_ok_def waker_list_is_full_def)
qed

lemma assume_init_read_Some [simp]: "assume_init_read (map Some ws) = Inr ws"
  by (induction ws) simp_all

lemma waker_list_drain_ok:
  assumes "waker_list_ok l ws"
  obtains l' where "waker_list_drain l = Inr (ws, l')" "waker_list_ok l' []"
  using assms that [of "l\<lparr>wl_len := 0\<rparr>"] by (simp add: waker_list_drain_def waker_list_ok_def)

lemma fold_wake: "fold (wake q) ws log = log @ map (\<lambda>w. (w, q_locked q)) ws"
  by (induction ws arbitrary: log) (simp_all add: wake_def)

lemma fold_wake_unlock: "fold (wake (unlock q)) ws log = log @ map (\<lambda>w. (w, False)) ws"
  by (simp add: fold_wake unlock_def)

subsection \<open>Taking a waiter off the queue\<close>

lemma queue_wf_data [simp]: "queue_wf S (q\<lparr>q_data := D\<rparr>) ns = queue_wf S q ns"
  by (simp add: queue_wf_def queue_inv_def tail_node_def)

lemma node_states_data [simp]: "node_states (q\<lparr>q_data := D\<rparr>) = node_states q"
  by (simp add: node_states_def fun_eq_iff)

lemma state_of_data [simp]: "state_of S (q\<lparr>q_data := D\<rparr>) = state_of S q"
  by (simp add: state_of_def)

lemma unlock_id: "\<not> q_locked q \<Longrightarrow> q\<lparr>q_locked := False\<rparr> = q"
  by (cases q) simp

lemma locked_dequeue_wf:
  "queue_wf usize_state q ns \<Longrightarrow> locked_dequeue usize_state q = Inr (case ns of [] \<Rightarrow> None | x # _ \<Rightarrow> Some x)"
  using usize_qs.locked_dequeue_eq [of q "{}" ns] by (auto simp: queue_wf_def split: list.splits)

lemma locked_pop_wf:
  "queue_wf usize_state q ns \<Longrightarrow> locked_pop usize_state q = (if ns = [] then None else Some (last ns))"
  using usize_qs.locked_pop_eq [of q "{}" ns] by (simp add: queue_wf_def)

lemma is_empty_wf: "queue_wf usize_state q ns \<Longrightarrow> is_empty usize_state q \<longleftrightarrow> ns = []"
  using is_empty_iff queue_wf_inv by blast

lemma waiter_at:
  assumes "wait_queue_ok q ns" and "x \<in> set ns"
  shows "\<exists>w. q_data q x = Some w \<and> w_waker w = Some (waker_of q x)"
  using assms by (auto simp: wait_queue_ok_def waiters_ok_def waker_of_def)

text \<open>A waiter that has been notified has lost its waker to the notifier.\<close>

abbreviation notified :: "notification \<Rightarrow> waiter" where
  "notified n \<equiv> \<lparr>w_waker = None, w_notification = Some n\<rparr>"

lemma notified_eq: "w\<lparr>w_notification := Some n, w_waker := None\<rparr> = notified n"
  by (cases w) simp

lemma notify_waiter:
  assumes "wait_queue_ok q ns" and "x \<in> set ns"
  shows "bind_res (set_notification x n q) (\<lambda>q. bind_res (take_waker x q) f)
    = f (waker_of q x, q\<lparr>q_data := (q_data q)(x \<mapsto> notified n)\<rparr>)"
  using waiter_at [OF assms]
  by (auto simp: set_notification_def take_waker_def with_data_mut_def notified_eq)

lemma is_closed_wf: "wait_queue_ok q ns \<Longrightarrow> ns \<noteq> [] \<Longrightarrow> \<not> is_closed q"
  using is_empty_wf [of q ns] by (auto simp: wait_queue_ok_def is_empty_def is_closed_def)

lemma is_closed_locked [simp]: "is_closed (q\<lparr>q_locked := b\<rparr>) = is_closed q" "is_closed (unlock q) = is_closed q"
  by (simp_all add: is_closed_def state_of_def unlock_def)

lemma dequeue_waiter:
  assumes ok: "wait_queue_ok q (x # xs)"
  obtains q' where "dequeue_drop usize_state x (q\<lparr>q_data := (q_data q)(x \<mapsto> v)\<rparr>) = Inr q'"
    "wait_queue_ok q' xs" "q_data q' = (q_data q)(x \<mapsto> v)" "q_locked q' = q_locked q"
    "node_states q' = (node_states q)(x \<mapsto> Dequeued)" "\<not> is_closed q'"
proof -
  let ?q = "q\<lparr>q_data := (q_data q)(x \<mapsto> v)\<rparr>"
  have wf: "queue_wf usize_state ?q (x # xs)" using ok by (simp add: wait_queue_ok_def)
  obtain q' where q': "remove_with_prev usize_state x 0 False HEAD_MARKER ?q = Inr (xs = [], q')"
    "queue_wf usize_state q' xs" "node_states q' = (node_states ?q)(x \<mapsto> Dequeued)" "frame ?q q'" "xs = [] \<longrightarrow> state_of usize_state q' = Some 0"
    using usize_qs.wf_dequeue [OF wf usize_qs.null_is_state] by metis
  have "x \<notin> set xs" using queue_inv_distinct [OF queue_wf_inv [OF wf]] by simp
  then have "waiters_ok q' xs" using q'(4) ok by (auto simp: waiters_ok_def wait_queue_ok_def frame_def)
  then have ok': "wait_queue_ok q' xs" using q'(2) by (simp add: wait_queue_ok_def)
  have "\<not> is_closed q'" using q'(5) is_closed_wf [OF ok'] by (cases "xs = []") (simp_all add: is_closed_def EMPTY_def)
  with q' ok' show ?thesis by (intro that [of q']) (auto simp: dequeue_drop_def frame_def)
qed

lemma pop_waiter:
  assumes ok: "wait_queue_ok q (xs @ [x])"
  obtains q' where "pop_drop usize_state x (q\<lparr>q_data := (q_data q)(x \<mapsto> v)\<rparr>) = Inr q'"
    "wait_queue_ok q' xs" "q_data q' = (q_data q)(x \<mapsto> v)" "q_locked q' = q_locked q"
    "node_states q' = (node_states q)(x \<mapsto> Dequeued)" "\<not> is_closed q'"
proof -
  let ?q = "q\<lparr>q_data := (q_data q)(x \<mapsto> v)\<rparr>"
  have wf: "queue_wf usize_state ?q (xs @ [x])" using ok by (simp add: wait_queue_ok_def)
  obtain q' where q': "remove usize_state x 0 True ?q = Inr (True, q')"
    "queue_wf usize_state q' xs" "node_states q' = (node_states ?q)(x \<mapsto> Dequeued)" "frame ?q q'" "xs = [] \<longrightarrow> state_of usize_state q' = Some 0"
    using usize_qs.wf_pop [OF wf usize_qs.null_is_state] by metis
  have "x \<notin> set xs" using queue_inv_distinct [OF queue_wf_inv [OF wf]] by simp
  then have "waiters_ok q' xs" using q'(4) ok by (auto simp: waiters_ok_def wait_queue_ok_def frame_def)
  then have ok': "wait_queue_ok q' xs" using q'(2) by (simp add: wait_queue_ok_def)
  have "\<not> is_closed q'" using q'(5) is_closed_wf [OF ok'] by (cases "xs = []") (simp_all add: is_closed_def EMPTY_def)
  with q' ok' show ?thesis by (intro that [of q']) (auto simp: pop_drop_def frame_def)
qed

lemma wait_queue_ok_locked [simp]:
  "wait_queue_ok (q\<lparr>q_locked := b\<rparr>) ns = wait_queue_ok q ns" "wait_queue_ok (unlock q) ns = wait_queue_ok q ns"
  by (simp_all add: wait_queue_ok_def waiters_ok_def unlock_def)

lemma waker_of_locked [simp]: "waker_of (q\<lparr>q_locked := b\<rparr>) = waker_of q"
  by (simp add: waker_of_def fun_eq_iff)

lemma is_empty_or_locked_eq:
  assumes "wait_queue_ok q ns" and "wait_queue_ok (gap q) ns'" and "\<not> q_locked (gap q)"
  shows "is_empty_or_locked usize_state gap f e q =
    (if ns = [] then Inr (e, q) else if ns' = [] then Inr (e, gap q) else f e ((gap q)\<lparr>q_locked := True\<rparr>))"
proof -
  have "is_empty usize_state ((gap q)\<lparr>q_locked := True\<rparr>) \<longleftrightarrow> ns' = []"
    using assms(2) by (intro is_empty_wf) (simp add: wait_queue_ok_def)
  moreover have "is_empty usize_state q \<longleftrightarrow> ns = []"
    using assms(1) by (intro is_empty_wf) (simp add: wait_queue_ok_def)
  ultimately show ?thesis
    using assms(3) unlock_id [OF assms(3)]
    by (simp add: is_empty_or_locked_def is_empty_locked_def lock_def unlock_def)
qed

lemma notify_one_ok:
  assumes ok: "wait_queue_ok q ns" "wait_queue_ok (gap q) (x # xs)" "\<not> q_locked (gap q)" and ns: "ns \<noteq> []"
  obtains q' where "notify_one gap log q = Inr (log @ [(waker_of (gap q) x, False)], q')" "wait_queue_ok q' xs"
    "q_data q' = (q_data (gap q))(x \<mapsto> notified NotificationOne)" "\<not> q_locked q'"
    "node_states q' = (node_states (gap q))(x \<mapsto> Dequeued)" "\<not> is_closed q'"
proof -
  let ?q = "(gap q)\<lparr>q_locked := True\<rparr>"
  have okl: "wait_queue_ok ?q (x # xs)" using ok(2) by simp
  obtain q' where q': "dequeue_drop usize_state x (?q\<lparr>q_data := (q_data ?q)(x \<mapsto> notified NotificationOne)\<rparr>) = Inr q'"
    "wait_queue_ok q' xs" "q_data q' = (q_data ?q)(x \<mapsto> notified NotificationOne)"
    "node_states q' = (node_states ?q)(x \<mapsto> Dequeued)" "\<not> is_closed q'"
    using dequeue_waiter [OF okl] by metis
  have "locked_dequeue usize_state ?q = Inr (Some x)"
    using locked_dequeue_wf [of ?q "x # xs"] okl by (simp add: wait_queue_ok_def)
  then have "notify_one gap log q = Inr (log @ [(waker_of (gap q) x, False)], unlock q')"
    using q'(1) ns
    by (simp add: notify_one_def is_empty_or_locked_eq [where gap = gap, OF ok] notify_waiter [OF okl] wake_def Let_def)
  then show ?thesis using q' by (intro that [of "unlock q'"]) (simp_all, simp_all add: unlock_def)
qed

lemma notify_last_ok:
  assumes ok: "wait_queue_ok q ns" "wait_queue_ok (gap q) (xs @ [x])" "\<not> q_locked (gap q)" and ns: "ns \<noteq> []"
  obtains q' where "notify_last gap log q = Inr (log @ [(waker_of (gap q) x, False)], q')" "wait_queue_ok q' xs"
    "q_data q' = (q_data (gap q))(x \<mapsto> notified NotificationLast)" "\<not> q_locked q'"
    "node_states q' = (node_states (gap q))(x \<mapsto> Dequeued)" "\<not> is_closed q'"
proof -
  let ?q = "(gap q)\<lparr>q_locked := True\<rparr>"
  have okl: "wait_queue_ok ?q (xs @ [x])" using ok(2) by simp
  obtain q' where q': "pop_drop usize_state x (?q\<lparr>q_data := (q_data ?q)(x \<mapsto> notified NotificationLast)\<rparr>) = Inr q'"
    "wait_queue_ok q' xs" "q_data q' = (q_data ?q)(x \<mapsto> notified NotificationLast)"
    "node_states q' = (node_states ?q)(x \<mapsto> Dequeued)" "\<not> is_closed q'"
    using pop_waiter [OF okl] by metis
  have "locked_pop usize_state ?q = Some x"
    using locked_pop_wf [of ?q "xs @ [x]"] okl by (simp add: wait_queue_ok_def)
  then have "notify_last gap log q = Inr (log @ [(waker_of (gap q) x, False)], unlock q')"
    using q'(1) ns
    by (simp add: notify_last_def is_empty_or_locked_eq [where gap = gap, OF ok] notify_waiter [OF okl] wake_def Let_def)
  then show ?thesis using q' by (intro that [of "unlock q'"]) (simp_all, simp_all add: unlock_def)
qed

subsection \<open>Notifying many\<close>

text \<open>
  One round of the loop on a queue with a first waiter: its waker is pushed, and the lock is given
  up to wake a full list.
\<close>

lemma notify_many_round:
  assumes ok: "wait_queue_ok q (x # xs)" and lk: "q_locked q" and wl: "waker_list_ok l ws" "length ws < 32"
  obtains q' l' where
    "wait_queue_ok q' xs" "q_data q' = (q_data q)(x \<mapsto> notified NotificationOne)"
    "node_states q' = (node_states q)(x \<mapsto> Dequeued)" "\<not> is_closed q'" "q_locked q'" "waker_list_ok l' (ws @ [waker_of q x])"
    "length ws \<noteq> 31 \<longrightarrow> notify_many_loop (Suc n) others l log q = notify_many_loop n others l' log q'"
    "length ws = 31 \<longrightarrow> (\<exists>l0. waker_list_ok l0 [] \<and> notify_many_loop (Suc n) others l log q =
       bind_res (is_empty_or_lock usize_state others (unlock q')) (\<lambda>(locked, q2).
         if locked then notify_many_loop n others l0 (log @ map (\<lambda>w. (w, False)) (ws @ [waker_of q x])) q2
         else Inr (False, l0, log @ map (\<lambda>w. (w, False)) (ws @ [waker_of q x]), q2)))"
proof -
  obtain q' where q': "dequeue_drop usize_state x (q\<lparr>q_data := (q_data q)(x \<mapsto> notified NotificationOne)\<rparr>) = Inr q'"
    "wait_queue_ok q' xs" "q_data q' = (q_data q)(x \<mapsto> notified NotificationOne)" "q_locked q' = q_locked q"
    "node_states q' = (node_states q)(x \<mapsto> Dequeued)" "\<not> is_closed q'"
    using dequeue_waiter [OF ok] by metis
  obtain l' where l': "waker_list_push (waker_of q x) l = Inr l'" "waker_list_ok l' (ws @ [waker_of q x])"
    "waker_list_is_full l' \<longleftrightarrow> length ws = 31"
    using waker_list_push_ok [OF wl] by metis
  obtain l0 where l0: "waker_list_drain l' = Inr (ws @ [waker_of q x], l0)" "waker_list_ok l0 []"
    by (rule waker_list_drain_ok [OF l'(2)])
  have "locked_dequeue usize_state q = Inr (Some x)"
    using locked_dequeue_wf [of q "x # xs"] ok by (simp add: wait_queue_ok_def)
  then have "notify_many_loop (Suc n) others l log q =
      (if length ws = 31
       then bind_res (is_empty_or_lock usize_state others (unlock q')) (\<lambda>(locked, q2).
         if locked then notify_many_loop n others l0 (log @ map (\<lambda>w. (w, False)) (ws @ [waker_of q x])) q2
         else Inr (False, l0, log @ map (\<lambda>w. (w, False)) (ws @ [waker_of q x]), q2))
       else notify_many_loop n others l' log q')"
    using q'(1) l'(1,3) l0(1)
    by (simp add: Let_def fold_wake_unlock notify_waiter [OF ok] cong: if_cong)
  with q' l' l0 lk show ?thesis by (intro that [of q' l']) auto
qed

lemma wait_lock_eq:
  assumes "wait_queue_ok q ns" and "wait_queue_ok (gap q) ns'" and "\<not> q_locked (gap q)"
  shows "is_empty_or_lock usize_state gap q =
    (if ns = [] then Inr (False, q) else if ns' = [] then Inr (False, gap q) else Inr (True, (gap q)\<lparr>q_locked := True\<rparr>))"
proof -
  have "is_empty usize_state ((gap q)\<lparr>q_locked := True\<rparr>) \<longleftrightarrow> ns' = []"
    using assms(2) by (intro is_empty_wf) (simp add: wait_queue_ok_def)
  moreover have "is_empty usize_state q \<longleftrightarrow> ns = []"
    using assms(1) by (intro is_empty_wf) (simp add: wait_queue_ok_def)
  ultimately show ?thesis
    using assms(3) unlock_id [OF assms(3)] by (simp add: is_empty_or_lock_def lock_def unlock_def)
qed

text \<open>
  What the loop has done when it ends: \<open>ws'\<close> are the wakers still in the list. Without
  interference the wakers woken and the wakers left are those of the first \<open>n\<close> waiters, they
  were woken in full lists, and the loop keeps the lock exactly if it was not out of waiters.
\<close>

definition notified_first :: "addr list \<Rightarrow> waiter queue \<Rightarrow> waiter queue \<Rightarrow> bool" where
  "notified_first ms q q' \<longleftrightarrow>
     q_data q' = (\<lambda>x. if x \<in> set ms then Some (notified NotificationOne) else q_data q x)
     \<and> node_states q' = (\<lambda>x. if x \<in> set ms then Some Dequeued else node_states q x)
     \<and> (is_closed q' \<longrightarrow> is_closed q)"

definition notify_many_post ::
  "nat \<Rightarrow> bool \<Rightarrow> waiter queue \<Rightarrow> addr list \<Rightarrow> waker list \<Rightarrow> wakeups \<Rightarrow> bool \<Rightarrow> waker list \<Rightarrow> wakeups \<Rightarrow> waiter queue \<Rightarrow> bool" where
  "notify_many_post n exact q ns ws log locked ws' log' q' \<longleftrightarrow> (\<exists>ns' W.
     wait_queue_ok q' ns' \<and> q_locked q' = locked \<and> length ws' < 32
     \<and> log' = log @ map (\<lambda>w. (w, False)) W \<and> length W + length ws' \<le> length ws + n
     \<and> (exact \<longrightarrow> ns' = drop n ns \<and> W @ ws' = ws @ map (waker_of q) (take n ns) \<and> 32 dvd length W
          \<and> (ws' \<noteq> [] \<longrightarrow> locked = (n \<le> length ns)) \<and> notified_first (take n ns) q q')
     \<and> (length ws + n < 32 \<and> n \<le> length ns \<longrightarrow> locked \<and> W = []
          \<and> ws' = ws @ map (waker_of q) (take n ns) \<and> ns' = drop n ns))"

lemma notified_first_Nil [simp]: "notified_first [] q q" "notified_first [] q (unlock q)" "notified_first [] q (q\<lparr>q_locked := b\<rparr>)"
  by (simp_all add: notified_first_def) (simp_all add: unlock_def)

lemma notified_first_locked [simp]:
  "notified_first ms q (q'\<lparr>q_locked := b\<rparr>) = notified_first ms q q'" "notified_first ms q (unlock q') = notified_first ms q q'"
  "notified_first ms (q\<lparr>q_locked := b\<rparr>) q' = notified_first ms q q'" "notified_first ms (unlock q) q' = notified_first ms q q'"
  by (simp_all add: notified_first_def cong: if_cong) (simp_all add: unlock_def cong: if_cong)

lemma notified_first_Cons:
  assumes "q_data q1 = (q_data q)(x \<mapsto> notified NotificationOne)" and "node_states q1 = (node_states q)(x \<mapsto> Dequeued)"
    and "\<not> is_closed q1" and "notified_first ms q1 q'"
  shows "notified_first (x # ms) q q'"
  using assms by (auto simp: notified_first_def fun_eq_iff)

lemma notify_many_post_0:
  "wait_queue_ok q ns \<Longrightarrow> q_locked q \<Longrightarrow> length ws < 32 \<Longrightarrow> notify_many_post 0 exact q ns ws log True ws log q"
  unfolding notify_many_post_def by (intro exI [of _ ns] exI [of _ "[]"]) simp

lemma notify_many_post_end:
  "wait_queue_ok q [] \<Longrightarrow> length ws < 32 \<Longrightarrow> notify_many_post (Suc n) exact q [] ws log False ws log (unlock q)"
  unfolding notify_many_post_def by (intro exI [of _ "[]"]) simp

lemma waker_of_cong: "q_data q' = (q_data q)(x \<mapsto> v) \<Longrightarrow> z \<noteq> x \<Longrightarrow> waker_of q' z = waker_of q z"
  by (simp add: waker_of_def)

lemma notify_many_post_Suc:
  assumes post: "notify_many_post n exact q1 xs (ws @ [waker_of q x]) log locked ws' log' q'" and x: "x \<notin> set xs"
    and q1: "q_data q1 = (q_data q)(x \<mapsto> notified NotificationOne)" "node_states q1 = (node_states q)(x \<mapsto> Dequeued)" "\<not> is_closed q1"
  shows "notify_many_post (Suc n) exact q (x # xs) ws log locked ws' log' q'"
proof -
  have m: "map (waker_of q1) (take n xs) = map (waker_of q) (take n xs)"
    by (intro map_cong refl waker_of_cong [OF q1(1)]) (use x in \<open>auto dest: in_set_takeD\<close>)
  obtain ns' W where p: "wait_queue_ok q' ns'" "q_locked q' = locked" "length ws' < 32"
    "log' = log @ map (\<lambda>w. (w, False)) W" "length W + length ws' \<le> length (ws @ [waker_of q x]) + n"
    "exact \<longrightarrow> ns' = drop n xs \<and> W @ ws' = (ws @ [waker_of q x]) @ map (waker_of q) (take n xs) \<and> 32 dvd length W
       \<and> (ws' \<noteq> [] \<longrightarrow> locked = (n \<le> length xs)) \<and> notified_first (take n xs) q1 q'"
    "length (ws @ [waker_of q x]) + n < 32 \<and> n \<le> length xs \<longrightarrow> locked \<and> W = []
       \<and> ws' = (ws @ [waker_of q x]) @ map (waker_of q) (take n xs) \<and> ns' = drop n xs"
    using post unfolding notify_many_post_def m by blast
  show ?thesis unfolding notify_many_post_def
    by (rule exI [of _ ns'], rule exI [of _ W]) (use p notified_first_Cons [OF q1] in simp)
qed

text \<open>The list is full and its wakers are woken: then the loop goes on, or ends as nobody waits.\<close>

lemma notify_many_post_flush:
  assumes post: "notify_many_post n exact q1 ys [] (log @ map (\<lambda>w. (w, False)) ws) locked ws' log' q'"
    and full: "length ws = 32" and ex: "exact \<longrightarrow> ys = xs \<and> q1 = (unlock q)\<lparr>q_locked := True\<rparr>"
  shows "notify_many_post n exact q xs ws log locked ws' log' q'"
proof -
  obtain ns' W where p: "wait_queue_ok q' ns'" "q_locked q' = locked" "length ws' < 32"
    "log' = (log @ map (\<lambda>w. (w, False)) ws) @ map (\<lambda>w. (w, False)) W" "length W + length ws' \<le> n"
    "exact \<longrightarrow> ns' = drop n ys \<and> W @ ws' = map (waker_of q1) (take n ys) \<and> 32 dvd length W
       \<and> (ws' \<noteq> [] \<longrightarrow> locked = (n \<le> length ys)) \<and> notified_first (take n ys) q1 q'"
    using post unfolding notify_many_post_def by auto
  have "exact \<longrightarrow> waker_of q1 = waker_of q \<and> (notified_first (take n xs) q1 q' \<longrightarrow> notified_first (take n xs) q q')"
    using ex by (auto simp: waker_of_def unlock_def)
  with p full ex show ?thesis unfolding notify_many_post_def
    by (intro exI [of _ ns'] exI [of _ "ws @ W"]) auto
qed

lemma notify_many_post_none:
  assumes "wait_queue_ok q' []" and "\<not> q_locked q'" and full: "length ws = 32" and ex: "exact \<longrightarrow> xs = [] \<and> q' = unlock q"
  shows "notify_many_post n exact q xs ws log False [] (log @ map (\<lambda>w. (w, False)) ws) q'"
  using assms unfolding notify_many_post_def by (intro exI [of _ "[]"] exI [of _ ws]) auto

lemma notify_many_relock:
  assumes env: "wait_env others" and ex: "exact \<longrightarrow> others = id" and ok: "wait_queue_ok q xs"
  obtains (ended) q' where "is_empty_or_lock usize_state others (unlock q) = Inr (False, q')" "wait_queue_ok q' []"
    "\<not> q_locked q'" "exact \<longrightarrow> xs = [] \<and> q' = unlock q"
  | (locked) q' ys where "is_empty_or_lock usize_state others (unlock q) = Inr (True, q')" "wait_queue_ok q' ys"
    "q_locked q'" "exact \<longrightarrow> ys = xs \<and> q' = (unlock q)\<lparr>q_locked := True\<rparr>"
proof -
  have u: "wait_queue_ok (unlock q) xs" "\<not> q_locked (unlock q)" using ok by simp_all
  obtain ys where ys: "wait_queue_ok (others (unlock q)) ys" "\<not> q_locked (others (unlock q))" "exact \<longrightarrow> ys = xs"
  proof (cases exact)
    case True
    then show ?thesis using that [of xs] ex u by simp
  next
    case False
    then show ?thesis using that env u unfolding wait_env_def by blast
  qed
  note lock = wait_lock_eq [where gap = others, OF u(1) ys(1,2)]
  consider "xs = []" | "xs \<noteq> []" "ys = []" | "xs \<noteq> []" "ys \<noteq> []" by blast
  then show ?thesis
  proof cases
    case 1
    then show ?thesis using ended [of "unlock q"] lock u by simp
  next
    case 2
    then show ?thesis using ended [of "others (unlock q)"] lock ys by simp
  next
    case 3
    then show ?thesis using locked [of "(others (unlock q))\<lparr>q_locked := True\<rparr>" ys] lock ys ex by simp
  qed
qed

lemma notify_many_loop_ok:
  assumes env: "wait_env others" and ex: "exact \<longrightarrow> others = id"
  shows "wait_queue_ok q ns \<Longrightarrow> q_locked q \<Longrightarrow> waker_list_ok l ws \<Longrightarrow> length ws < 32 \<Longrightarrow>
    \<exists>locked l' ws' log' q'. notify_many_loop n others l log q = Inr (locked, l', log', q')
      \<and> waker_list_ok l' ws' \<and> notify_many_post n exact q ns ws log locked ws' log' q'"
proof (induction n arbitrary: q ns l ws log)
  case 0
  then have "notify_many_post 0 exact q ns ws log True ws log q" by (intro notify_many_post_0)
  with 0 show ?case by auto
next
  case (Suc n)
  show ?case
  proof (cases ns)
    case Nil
    then have "locked_dequeue usize_state q = Inr None"
      using locked_dequeue_wf [of q ns] Suc.prems(1) by (simp add: wait_queue_ok_def)
    then have "notify_many_loop (Suc n) others l log q = Inr (False, l, log, unlock q)" by simp
    moreover have "notify_many_post (Suc n) exact q ns ws log False ws log (unlock q)"
      using Suc.prems unfolding Nil by (intro notify_many_post_end)
    ultimately show ?thesis using Suc.prems(3) by blast
  next
    case (Cons x xs)
    let ?ws = "ws @ [waker_of q x]" and ?log = "log @ map (\<lambda>w. (w, False)) (ws @ [waker_of q x])"
    have okx: "wait_queue_ok q (x # xs)" using Suc.prems(1) Cons by simp
    then have x: "x \<notin> set xs" using queue_inv_distinct queue_wf_inv by (fastforce simp: wait_queue_ok_def)
    obtain q1 l1 where q1: "wait_queue_ok q1 xs" "q_data q1 = (q_data q)(x \<mapsto> notified NotificationOne)"
      "node_states q1 = (node_states q)(x \<mapsto> Dequeued)" "\<not> is_closed q1" "q_locked q1" "waker_list_ok l1 ?ws"
      "length ws \<noteq> 31 \<longrightarrow> notify_many_loop (Suc n) others l log q = notify_many_loop n others l1 log q1"
      "length ws = 31 \<longrightarrow> (\<exists>l0. waker_list_ok l0 [] \<and> notify_many_loop (Suc n) others l log q =
         bind_res (is_empty_or_lock usize_state others (unlock q1)) (\<lambda>(locked, q2).
           if locked then notify_many_loop n others l0 ?log q2 else Inr (False, l0, ?log, q2)))"
      by (rule notify_many_round [OF okx Suc.prems(2-4), where n = n and others = others and log = log])
    have "\<exists>locked l' ws' log' q'. notify_many_loop (Suc n) others l log q = Inr (locked, l', log', q')
      \<and> waker_list_ok l' ws' \<and> notify_many_post n exact q1 xs ?ws log locked ws' log' q'"
    proof (cases "length ws = 31")
      case False
      then have "length ?ws < 32" using Suc.prems(4) by simp
      from Suc.IH [OF q1(1,5,6) this, of log] q1(7) False show ?thesis by simp
    next
      case True
      obtain l0 where l0: "waker_list_ok l0 []" "notify_many_loop (Suc n) others l log q =
         bind_res (is_empty_or_lock usize_state others (unlock q1)) (\<lambda>(locked, q2).
           if locked then notify_many_loop n others l0 ?log q2 else Inr (False, l0, ?log, q2))"
        using q1(8) True by blast
      have full: "length ?ws = 32" using True by simp
      show ?thesis
      proof (cases rule: notify_many_relock [OF env ex q1(1), case_names ended locked])
        case (ended q2)
        have "notify_many_post n exact q1 xs ?ws log False [] ?log q2"
          by (rule notify_many_post_none [OF ended(2,3) full ended(4)])
        moreover have "notify_many_loop (Suc n) others l log q = Inr (False, l0, ?log, q2)"
          unfolding l0(2) ended(1) by simp
        ultimately show ?thesis using l0(1) by blast
      next
        case (locked q2 ys)
        obtain locked' l' ws' log' q' where r: "notify_many_loop n others l0 ?log q2 = Inr (locked', l', log', q')"
          "waker_list_ok l' ws'" "notify_many_post n exact q2 ys [] ?log locked' ws' log' q'"
          using Suc.IH [of q2 ys l0 "[]" ?log] locked(2,3) l0(1) by auto
        have "notify_many_post n exact q1 xs ?ws log locked' ws' log' q'"
          by (rule notify_many_post_flush [OF r(3) full locked(4)])
        moreover have "notify_many_loop (Suc n) others l log q = Inr (locked', l', log', q')"
          unfolding l0(2) locked(1) using r(1) by simp
        ultimately show ?thesis using r(2) by blast
      qed
    qed
    then show ?thesis using notify_many_post_Suc [OF _ x q1(2-4)] Cons by blast
  qed
qed

lemma notify_many_ok:
  assumes env: "wait_env others" and ex: "exact \<longrightarrow> others = id"
    and ok: "wait_queue_ok q ns" "wait_queue_ok (gap q) ns'" "\<not> q_locked (gap q)" and ne: "ns \<noteq> []" "ns' \<noteq> []"
  obtains locked ws' q' ms W where
    "notify_many count gap others log q = Inr ((log @ map (\<lambda>w. (w, False)) W) @ map (\<lambda>w. (w, locked)) ws', unlock q')"
    "wait_queue_ok q' ms" "length W + length ws' \<le> unat count" "length ws' < 32"
    "exact \<longrightarrow> ms = drop (unat count) ns' \<and> W @ ws' = map (waker_of (gap q)) (take (unat count) ns') \<and> 32 dvd length W
       \<and> (ws' \<noteq> [] \<longrightarrow> locked = (unat count \<le> length ns')) \<and> notified_first (take (unat count) ns') (gap q) (unlock q')"
    "unat count < 32 \<and> unat count \<le> length ns' \<longrightarrow> locked \<and> W = []
       \<and> ws' = map (waker_of (gap q)) (take (unat count) ns')"
proof -
  let ?q = "(gap q)\<lparr>q_locked := True\<rparr>"
  have okl: "wait_queue_ok ?q ns'" "q_locked ?q" using ok(2) by simp_all
  obtain locked l' ws' log' q' where r: "notify_many_loop (unat count) others waker_list_new log ?q = Inr (locked, l', log', q')"
    "waker_list_ok l' ws'" "notify_many_post (unat count) exact ?q ns' [] log locked ws' log' q'"
    using notify_many_loop_ok [OF env ex okl waker_list_new_ok, of "unat count" log] by auto
  obtain l0 where l0: "waker_list_drain l' = Inr (ws', l0)" by (rule waker_list_drain_ok [OF r(2)])
  have lk: "q_locked q' = locked" using r(3) by (auto simp: notify_many_post_def)
  then have "(if locked then unlock q' else q') = unlock q'"
    using unlock_id [of q'] by (simp add: unlock_def)
  then have "notify_many count gap others log q = Inr (log' @ map (\<lambda>w. (w, locked)) ws', unlock q')"
    using r(1) l0 ne lk
    by (simp add: notify_many_def is_empty_or_locked_eq [where gap = gap, OF ok] notify_many_locked_def Let_def fold_wake)
  with r(3) that show ?thesis unfolding notify_many_post_def by (elim exE conjE) simp
qed

text \<open>
  The wake-ups of an undisturbed \<^verbatim>\<open>notify_many\<close>: the wakers of the first
  \<open>n\<close> waiters, in full lists of 32 without the lock, the rest with it unless the waiters ran
  out first.
\<close>

definition many_wakes :: "nat \<Rightarrow> waker list \<Rightarrow> wakeups" where
  "many_wakes n ws = (let m = 32 * (min n (length ws) div 32) in
     map (\<lambda>w. (w, False)) (take m ws) @ map (\<lambda>w. (w, n \<le> length ws)) (drop m (take n ws)))"

lemma many_wakes_eq:
  assumes e: "W @ ws' = take n ws" and l: "length ws' < 32" "32 dvd length W" "ws' \<noteq> [] \<longrightarrow> locked = (n \<le> length ws)"
  shows "map (\<lambda>w. (w, False)) W @ map (\<lambda>w. (w, locked)) ws' = many_wakes n ws"
proof -
  have "length (W @ ws') = min n (length ws)" using e by simp
  moreover have "(length W + length ws') div 32 * 32 = length W" using l(1,2) by (elim dvdE) simp
  ultimately have m: "32 * (min n (length ws) div 32) = length W" by (simp add: ac_simps)
  have "length W \<le> n" using \<open>length (W @ ws') = min n (length ws)\<close> by simp
  then have "take (length W) ws = take (length W) (W @ ws')" unfolding e by (simp add: min_absorb1)
  then have "take (length W) ws = W" "drop (length W) (take n ws) = ws'" unfolding e [symmetric] by simp_all
  with l(3) show ?thesis unfolding many_wakes_def Let_def m by (cases ws') auto
qed

lemma notify_many_undisturbed:
  assumes ok: "wait_queue_ok q ns" "wait_queue_ok (gap q) ns'" "\<not> q_locked (gap q)" and ne: "ns \<noteq> []" "ns' \<noteq> []"
  obtains q' where "notify_many count gap id log q = Inr (log @ many_wakes (unat count) (map (waker_of (gap q)) ns'), q')"
    "wait_queue_ok q' (drop (unat count) ns')" "\<not> q_locked q'" "notified_first (take (unat count) ns') (gap q) q'"
proof -
  have "wait_env id" by (auto simp: wait_env_def)
  then obtain locked ws' q' ms W where r:
    "notify_many count gap id log q = Inr ((log @ map (\<lambda>w. (w, False)) W) @ map (\<lambda>w. (w, locked)) ws', unlock q')"
    "wait_queue_ok q' ms" "length ws' < 32" "ms = drop (unat count) ns'"
    "W @ ws' = take (unat count) (map (waker_of (gap q)) ns')" "32 dvd length W"
    "ws' \<noteq> [] \<longrightarrow> locked = (unat count \<le> length (map (waker_of (gap q)) ns'))"
    "notified_first (take (unat count) ns') (gap q) (unlock q')"
    by (rule notify_many_ok [where gap = gap and exact = True and count = count and log = log, OF _ _ ok ne]) (auto simp: take_map)
  then show ?thesis using many_wakes_eq [OF r(5,3,6,7)] by (intro that [of "unlock q'"]) simp_all
qed

subsection \<open>Draining\<close>

lemma drain_queue_next_ok:
  assumes wl: "waker_list_ok l ws" "length ws < 32" and w: "w_waker w = Some k"
  obtains l' where "drain_queue_next (Inr (l, log)) w = (length ws = 31, Inr (l', log), w\<lparr>w_waker := None\<rparr>)"
    "waker_list_ok l' (ws @ [k])"
proof -
  obtain l' where "waker_list_push k l = Inr l'" "waker_list_ok l' (ws @ [k])" "waker_list_is_full l' \<longleftrightarrow> length ws = 31"
    by (rule waker_list_push_ok [OF wl])
  with w show ?thesis by (intro that [of l']) (simp_all add: drain_queue_next_def)
qed

text \<open>Dropping a list reads no slot that was not written, also after it has been drained.\<close>

lemma waker_list_drop_ok: "waker_list_ok l ws \<Longrightarrow> \<exists>l'. waker_list_drop l = Inr l' \<and> waker_list_ok l' []"
  using waker_list_drain_ok by (fastforce simp: waker_list_drop_def)

lemma drain_queue_unlock_ok:
  assumes "waker_list_ok l ws"
  obtains l' where "drain_queue_unlock False (Inr (l, log)) = Inr (l', log @ map (\<lambda>w. (w, False)) ws)" "waker_list_ok l' []"
proof -
  obtain l' where "waker_list_drain l = Inr (ws, l')" "waker_list_ok l' []" by (rule waker_list_drain_ok [OF assms])
  then show ?thesis by (intro that [of l']) (simp_all add: drain_queue_unlock_def)
qed

lemma drain_queue_visit:
  "\<forall>x\<in>set ns. \<exists>w. D x = Some w \<and> w_waker w = Some (k x) \<Longrightarrow> waker_list_ok l ws \<Longrightarrow> length ws < 32 \<Longrightarrow>
   \<exists>l' ws' log'. visit drain_queue_next (drain_queue_unlock False) D ns (Inr (l, log)) = Inr (l', log')
     \<and> waker_list_ok l' ws'
     \<and> log' @ map (\<lambda>w. (w, False)) ws' = log @ map (\<lambda>w. (w, False)) (ws @ map k ns)"
proof (induction ns arbitrary: l ws log)
  case Nil
  then show ?case by auto
next
  case (Cons x xs)
  then obtain w where w: "D x = Some w" "w_waker w = Some (k x)" by auto
  obtain l1 where l1: "drain_queue_next (Inr (l, log)) w = (length ws = 31, Inr (l1, log), w\<lparr>w_waker := None\<rparr>)"
    "waker_list_ok l1 (ws @ [k x])"
    by (rule drain_queue_next_ok [OF Cons.prems(2,3) w(2)])
  have D: "\<forall>x\<in>set xs. \<exists>w. D x = Some w \<and> w_waker w = Some (k x)" using Cons.prems(1) by simp
  show ?case
  proof (cases "length ws = 31")
    case False
    then have "length (ws @ [k x]) < 32" using Cons.prems(3) by simp
    from Cons.IH [OF D l1(2) this, of log] l1(1) w False show ?thesis by simp
  next
    case True
    obtain l2 where l2: "drain_queue_unlock False (Inr (l1, log)) = Inr (l2, log @ map (\<lambda>w. (w, False)) (ws @ [k x]))"
      "waker_list_ok l2 []" by (rule drain_queue_unlock_ok [OF l1(2)])
    show ?thesis
    proof (cases "xs = []")
      case True
      with l1 w show ?thesis by auto
    next
      case False
      from Cons.IH [OF D l2(2), of "log @ map (\<lambda>w. (w, False)) (ws @ [k x])"] l1(1) l2(1) w True False
      show ?thesis by simp
    qed
  qed
qed

lemma drain_queue_ok:
  assumes ok: "wait_queue_ok q ns" and lk: "q_locked q" and ns: "ns \<noteq> []" and s: "q_links q s = None" "node_addr s"
    and st: "STATE \<le> INTRUSIVE_QUEUE_MAX_STATE" and env: "drain_env (=) usize_state s others" and n: "length ns < n"
  shows "\<exists>q' pend' ms'. drain_queue n STATE s others log q = Inr (log @ map (\<lambda>x. (waker_of q x, False)) ns, q')
    \<and> queue_inv usize_state q' pend' ms' \<and> nodes_ok q' {} (set ms') \<and> q_links q' s = None \<and> \<not> q_locked q'
    \<and> ((\<forall>q. q_tail (others q) = q_tail q) \<longrightarrow> state_of usize_state q' = Some STATE)"
proof -
  have wf: "queue_wf usize_state q ns" using ok by (simp add: wait_queue_ok_def)
  obtain w where w: "enum_to_tail usize_state (State STATE) = Inr w" "tail_to_enum usize_state w = State STATE"
    using usize_qs.state_encodable [OF st] by blast
  let ?d = "\<lparr>d_sentinel = s, d_locked = True\<rparr>"
  obtain q1 where q1: "drain_new usize_state w s q = Inr (?d, q1)" "draining usize_state q1 {} s ns []"
    "state_of usize_state q1 = (if ns = [] then state_of usize_state q else Some STATE)"
    "q_locked q1 = q_locked q" "q_data q1 = q_data q"
    by (rule drain_new_ok [OF queue_wf_inv [OF wf] queue_wf_nodes [OF wf] s _ _ w(2)]) auto
  have D: "\<forall>x\<in>set ns. \<exists>w. q_data q1 x = Some w \<and> w_waker w = Some (waker_of q x)"
    using waiter_at [OF ok] q1(5) by auto
  obtain l' ws' log' where v: "visit drain_queue_next (drain_queue_unlock False) (q_data q1) ns (Inr (waker_list_new, log)) = Inr (l', log')"
    "waker_list_ok l' ws'" "log' @ map (\<lambda>w. (w, False)) ws' = log @ map (\<lambda>x. (waker_of q x, False)) ns"
    using drain_queue_visit [OF D waker_list_new_ok] by (force simp: o_def)
  obtain l2 where l2: "drain_queue_unlock False (Inr (l', log')) = Inr (l2, log @ map (\<lambda>x. (waker_of q x, False)) ns)"
    using drain_queue_unlock_ok [OF v(2)] v(3) by metis
  have live: "\<forall>x\<in>set ns. q_data q1 x \<noteq> None" using D by auto
  obtain q' pend' ms' where r: "for_each n drain_queue_next drain_queue_unlock others ?d (Inr (waker_list_new, log)) q1
      = Inr (drain_queue_unlock False (Inr (l', log')), q')"
    "queue_inv usize_state q' pend' ms'" "nodes_ok q' {} (set ms')" "q_links q' s = None" "\<not> q_locked q'"
    "(\<forall>q. q_tail (others q) = q_tail q) \<longrightarrow> q_tail q' = q_tail q1"
    using all_nodes.for_each_ok [OF env q1(2) _ _ live n, of drain_queue_next drain_queue_unlock "Inr (waker_list_new, log)"]
      lk q1(4) v(1) by (auto simp: visited_def)
  have "drain_queue n STATE s others log q = Inr (log @ map (\<lambda>x. (waker_of q x, False)) ns, q')"
    using w(1) q1(1) r(1) l2 by (simp add: drain_queue_def drain_try_set_state_def)
  with r q1(3) ns show ?thesis by (auto simp: state_of_def)
qed

lemma drain_queue_alone:
  assumes ok: "wait_queue_ok q ns" and lk: "q_locked q" and ns: "ns \<noteq> []" and s: "q_links q s = None" "node_addr s"
    and st: "STATE \<le> INTRUSIVE_QUEUE_MAX_STATE" and n: "length ns < n"
  obtains q' where "drain_queue n STATE s id log q = Inr (log @ map (\<lambda>x. (waker_of q x, False)) ns, q')"
    "queue_wf usize_state q' []" "\<not> q_locked q'" "state_of usize_state q' = Some STATE"
    "q_data q' = (\<lambda>x. if x \<in> set ns then map_option (\<lambda>w. w\<lparr>w_waker := None\<rparr>) (q_data q x) else q_data q x)"
    "node_states q' = (\<lambda>x. if x \<in> set ns then Some Dequeued else node_states q x)"
proof -
  have wf: "queue_wf usize_state q ns" using ok by (simp add: wait_queue_ok_def)
  obtain w where w: "enum_to_tail usize_state (State STATE) = Inr w" "tail_to_enum usize_state w = State STATE"
    using usize_qs.state_encodable [OF st] by blast
  have D: "\<forall>x\<in>set ns. \<exists>w. q_data q x = Some w \<and> w_waker w = Some (waker_of q x)" using waiter_at [OF ok] by auto
  obtain l' ws' log' where v: "visit drain_queue_next (drain_queue_unlock False) (q_data q) ns (Inr (waker_list_new, log)) = Inr (l', log')"
    "waker_list_ok l' ws'" "log' @ map (\<lambda>w. (w, False)) ws' = log @ map (\<lambda>x. (waker_of q x, False)) ns"
    using drain_queue_visit [OF D waker_list_new_ok] by (force simp: o_def)
  obtain l2 where l2: "drain_queue_unlock False (Inr (l', log')) = Inr (l2, log @ map (\<lambda>x. (waker_of q x, False)) ns)"
    using drain_queue_unlock_ok [OF v(2)] v(3) by metis
  have upd: "snd (snd (drain_queue_next h v)) = v\<lparr>w_waker := None\<rparr>" for h v by (simp add: drain_queue_next_def split: sum.split)
  have live: "\<forall>x\<in>set ns. q_data q x \<noteq> None" using D by auto
  obtain q1 q' where r: "drain_new usize_state w s q = Inr (\<lparr>d_sentinel = s, d_locked = True\<rparr>, q1)"
    "for_each n drain_queue_next drain_queue_unlock id \<lparr>d_sentinel = s, d_locked = True\<rparr> (Inr (waker_list_new, log)) q1
      = Inr (drain_queue_unlock False (visit drain_queue_next (drain_queue_unlock False) (q_data q) ns (Inr (waker_list_new, log))), q')"
    "queue_wf usize_state q' []" "\<not> q_locked q'" "state_of usize_state q' = (if ns = [] then state_of usize_state q else Some STATE)"
    "q_data q' = (\<lambda>x. if x \<in> set ns then map_option (\<lambda>w. w\<lparr>w_waker := None\<rparr>) (q_data q x) else q_data q x)"
    "node_states q' = (\<lambda>x. if x \<in> set ns then Some Dequeued else node_states q x)"
    by (rule drain_visit_alone [where on_unlock = "drain_queue_unlock" and h = "Inr (waker_list_new, log)", OF upd wf lk s live w(2) n])
  then show ?thesis using w(1) v(1) l2 ns
    by (intro that [of q']) (simp_all add: drain_queue_def drain_try_set_state_def)
qed

subsection \<open>Polling\<close>

definition open_state :: "usize option \<Rightarrow> bool" where
  "open_state s = (case s of None \<Rightarrow> True | Some s \<Rightarrow> s = EMPTY)"

lemma open_state_iff: "open_state (state_of usize_state q) \<longleftrightarrow> \<not> is_closed q"
  by (auto simp: open_state_def is_closed_def split: option.splits)

lemma try_enqueue_ok:
  assumes ok: "wait_queue_ok q ns" and p: "node_states q p = Some Unqueued" and w: "q_data q p = Some w"
  obtains q' where
    "try_enqueue_with_queue_state usize_state p (\<lambda>s. case s of None \<Rightarrow> True | Some s \<Rightarrow> s = EMPTY) []
       (q\<lparr>q_data := (q_data q)(p \<mapsto> w\<lparr>w_waker := Some cx\<rparr>)\<rparr>) = Inr (\<not> is_closed q, q')"
    "wait_queue_ok q' (if is_closed q then ns else ns @ [p])" "q_locked q' = q_locked q"
    "q_data q' = (q_data q)(p \<mapsto> w\<lparr>w_waker := Some cx\<rparr>)" "is_closed q' = is_closed q"
    "node_states q' = (node_states q)(p \<mapsto> (if is_closed q then Unqueued else Queued))"
proof -
  let ?q = "q\<lparr>q_data := (q_data q)(p \<mapsto> w\<lparr>w_waker := Some cx\<rparr>)\<rparr>"
  let ?chk = "\<lambda>tail. case sop_state (tail_to_enum usize_state tail) of None \<Rightarrow> True | Some s \<Rightarrow> s = EMPTY"
  have wf: "queue_wf usize_state ?q ns" using ok by (simp add: wait_queue_ok_def)
  have p': "node_states ?q p = Some Unqueued" using p by simp
  have chk: "?chk (q_tail ?q) \<longleftrightarrow> \<not> is_closed q"
    using open_state_iff [of q] by (simp add: open_state_def state_of_def)
  have np: "p \<notin> set ns" using queue_wf_queued_iff [OF wf, of p] p' by auto
  then have wk: "waiters_ok ?q ns" using ok by (auto simp: wait_queue_ok_def waiters_ok_def)
  show ?thesis
  proof (cases "is_closed q")
    case False
    have "?chk (q_tail ?q)" using chk False by simp
    then obtain q' where q': "enqueue usize_state p ?chk [] ?q = Inr (True, q')" "queue_wf usize_state q' (ns @ [p])" "frame ?q q'"
      "node_states q' = (node_states ?q)(p \<mapsto> Queued)"
      using usize_qs.wf_enqueue [OF wf p', of ?chk] by metis
    then have "waiters_ok q' (ns @ [p])" using wk by (auto simp: waiters_ok_def frame_def)
    then have ok': "wait_queue_ok q' (ns @ [p])" using q'(2) by (simp add: wait_queue_ok_def)
    with q' False show ?thesis
      by (intro that [of q']) (simp_all add: try_enqueue_with_queue_state_def frame_def is_closed_wf [OF ok'])
  next
    case True
    have pv: "prev_of ?q p = Some 0" using p' by (simp add: node_states_iff)
    have "\<not> ?chk (q_tail ?q)" using chk True by simp
    then obtain q' where q': "enqueue usize_state p ?chk [] ?q = Inr (False, q')" "queue_inv usize_state q' {} ns"
      "prev_of q' = (prev_of ?q)(p \<mapsto> 0)" "cell q' = cell ?q" "q_tail q' = q_tail ?q" "frame ?q q'"
      using usize_qs.enqueue_refused [OF queue_wf_inv [OF wf] np pv, of ?chk] by metis
    have pq: "prev_of q' = prev_of ?q" using q'(3) pv by (simp add: fun_upd_idem)
    then have "nodes_ok q' {} (set ns)" using q'(4) by (intro nodes_ok_cong [OF queue_wf_nodes [OF wf]]) simp_all
    moreover have "waiters_ok q' ns" using wk q'(6) by (simp add: waiters_ok_def frame_def)
    ultimately have "wait_queue_ok q' ns" using q'(2) by (simp add: wait_queue_ok_def queue_wf_def)
    moreover have "node_states q' = (node_states q)(p \<mapsto> Unqueued)"
      using node_states_prev [of q' _ ?q] pq p by (auto simp: fun_eq_iff)
    ultimately show ?thesis using q' True
      by (intro that [of q']) (simp_all add: try_enqueue_with_queue_state_def frame_def is_closed_def state_of_def)
  qed
qed

text \<open>
  The memory that a poll works on: a node that is seen as queued is looked at again when the lock is
  held. The others may dequeue it meanwhile, but they do not reset or free it.
\<close>

definition seen :: "addr \<Rightarrow> ('d queue \<Rightarrow> 'd queue) \<Rightarrow> 'd queue \<Rightarrow> 'd queue" where
  "seen p gap q = (if node_states q p = Some Queued then gap q else q)"

lemma node_state_seen:
  assumes "node_states q p \<noteq> None" and "\<not> q_locked (seen p gap q)" and "node_states (seen p gap q) p = Some st"
    and "node_states q p = Some Queued \<Longrightarrow> st \<noteq> Unqueued"
  shows "node_state p gap q = Inr (case st of Unqueued \<Rightarrow> (NodeUnqueued, seen p gap q)
    | Queued \<Rightarrow> (NodeQueued, (seen p gap q)\<lparr>q_locked := True\<rparr>) | Dequeued \<Rightarrow> (NodeDequeued, seen p gap q))"
proof (cases "node_states q p = Some Queued")
  case True
  then have s: "seen p gap q = gap q" by (simp add: seen_def)
  have "raw_state p ((gap q)\<lparr>q_locked := True\<rparr>) = Inr st" using assms(3) s by (intro raw_state_eq) simp
  then show ?thesis using True raw_state_eq [OF True] assms(2,4) s unlock_id [of "gap q"]
    by (cases st) (simp_all add: node_state_def state_from_raw_def lock_def unlock_def)
next
  case False
  then have "seen p gap q = q" "st \<noteq> Queued" "raw_state p q = Inr st"
    using assms(3) raw_state_eq by (auto simp: seen_def)
  then show ?thesis by (cases st) (simp_all add: node_state_def state_from_raw_def)
qed

lemma poll_wait_queued:
  assumes lk: "\<not> q_locked (seen p gap q)" and live: "node_states q p \<noteq> None"
    and st: "node_states (seen p gap q) p = Some Queued" and w: "q_data (seen p gap q) p = Some w"
  shows "poll_wait p cx requeue gap [] q
    = Inr (Pending, (seen p gap q)\<lparr>q_data := (q_data (seen p gap q))(p \<mapsto> w\<lparr>w_waker := Some cx\<rparr>)\<rparr>)"
proof -
  have "w_waker w = Some cx \<Longrightarrow> w\<lparr>w_waker := Some cx\<rparr> = w" by (cases w) simp
  then show ?thesis using node_state_seen [where gap = gap, OF live lk st] w unlock_id [OF lk]
    by (cases "seen p gap q") (auto simp: poll_wait_def with_data_mut_def unlock_def)
qed

lemma poll_wait_notified:
  assumes "\<not> q_locked (seen p gap q)" and "node_states q p \<noteq> None" and "node_states (seen p gap q) p = Some Dequeued"
  shows "poll_wait p cx False gap [] q = Inr (Ready (), seen p gap q)"
  using node_state_seen [where gap = gap, OF assms(2,1,3)] by (simp add: poll_wait_def)

lemma poll_wait_enqueues:
  assumes ok: "wait_queue_ok (seen p gap q) ns" and lk: "\<not> q_locked (seen p gap q)" and live: "node_states q p \<noteq> None"
    and st: "node_states (seen p gap q) p = Some st" "st = Unqueued \<or> st = Dequeued \<and> requeue" and w: "q_data (seen p gap q) p = Some w"
    and mine: "node_states q p = Some Queued \<Longrightarrow> st \<noteq> Unqueued"
  obtains q' where "poll_wait p cx requeue gap [] q = Inr (if is_closed (seen p gap q) then Ready () else Pending, q')"
    "wait_queue_ok q' (if is_closed (seen p gap q) then ns else ns @ [p])" "\<not> q_locked q'"
    "q_data q' = (q_data (seen p gap q))(p \<mapsto> w\<lparr>w_waker := Some cx\<rparr>)" "is_closed q' = is_closed (seen p gap q)"
    "node_states q' = (node_states (seen p gap q))(p \<mapsto> (if is_closed (seen p gap q) then Unqueued else Queued))"
proof -
  let ?q = "seen p gap q"
  have wf: "queue_wf usize_state ?q ns" using ok by (simp add: wait_queue_ok_def)
  obtain q1 where q1: "if st = Unqueued then q1 = ?q else node_dequeued_reset p ?q = Inr q1"
    "wait_queue_ok q1 ns" "q_data q1 = q_data ?q" "node_states q1 = (node_states ?q)(p \<mapsto> Unqueued)"
    "is_closed q1 = is_closed ?q" "\<not> q_locked q1"
  proof (cases "st = Unqueued")
    case True
    then have "(node_states ?q)(p \<mapsto> Unqueued) = node_states ?q" using st(1) by (simp add: fun_upd_idem)
    then show ?thesis using True that [of ?q] ok lk by simp
  next
    case False
    obtain q1 where "node_dequeued_reset p ?q = Inr q1" "queue_wf usize_state q1 ns"
      "node_states q1 = (node_states ?q)(p \<mapsto> Unqueued)" "frame ?q q1" "q_tail q1 = q_tail ?q"
      using usize_qs.wf_reset [OF wf] st False by metis
    then show ?thesis using that [of q1] ok lk False
      by (simp add: wait_queue_ok_def waiters_ok_def frame_def is_closed_def state_of_def)
  qed
  have p1: "node_states q1 p = Some Unqueued" "q_data q1 p = Some w" using q1 w by simp_all
  obtain q' where q': "try_enqueue_with_queue_state usize_state p (\<lambda>s. case s of None \<Rightarrow> True | Some s \<Rightarrow> s = EMPTY) []
     (q1\<lparr>q_data := (q_data q1)(p \<mapsto> w\<lparr>w_waker := Some cx\<rparr>)\<rparr>) = Inr (\<not> is_closed q1, q')"
    "wait_queue_ok q' (if is_closed q1 then ns else ns @ [p])" "q_locked q' = q_locked q1"
    "q_data q' = (q_data q1)(p \<mapsto> w\<lparr>w_waker := Some cx\<rparr>)" "is_closed q' = is_closed q1"
    "node_states q' = (node_states q1)(p \<mapsto> (if is_closed q1 then Unqueued else Queued))"
    by (rule try_enqueue_ok [OF q1(2) p1])
  have "poll_wait p cx requeue gap [] q = Inr (if is_closed ?q then Ready () else Pending, q')"
    using node_state_seen [where gap = gap, OF live lk st(1) mine] st(2) q1(1) q'(1) p1(2) q1(5)
    by (auto simp: poll_wait_def with_data_mut_def)
  with q' q1 show ?thesis by (intro that [of q']) simp_all
qed

lemma poll_wait_ok:
  assumes q: "wait_queue_ok (seen p gap q) ns" "\<not> q_locked (seen p gap q)" "q_data (seen p gap q) p \<noteq> None"
    and live: "node_states q p \<noteq> None" "node_states (seen p gap q) p \<noteq> None"
    and mine: "node_states q p = Some Queued \<Longrightarrow> node_states (seen p gap q) p \<noteq> Some Unqueued"
  shows "\<exists>poll q' ms. poll_wait p cx requeue gap [] q = Inr (poll, q') \<and> wait_queue_ok q' ms
    \<and> \<not> q_locked q' \<and> (poll = Pending \<longleftrightarrow> p \<in> set ms) \<and> (poll = Pending \<longrightarrow> waker_of q' p = cx)
    \<and> ms = (if p \<in> set ns \<or> poll = Ready () then ns else ns @ [p])
    \<and> (poll = Ready () \<longleftrightarrow> node_states (seen p gap q) p \<noteq> Some Queued
         \<and> (node_states (seen p gap q) p = Some Dequeued \<and> \<not> requeue \<or> is_closed (seen p gap q)))"
proof -
  let ?q = "seen p gap q"
  obtain st w where st: "node_states ?q p = Some st" and w: "q_data ?q p = Some w" using live q(3) by auto
  have wf: "queue_wf usize_state ?q ns" using q(1) by (simp add: wait_queue_ok_def)
  have queued: "p \<in> set ns \<longleftrightarrow> st = Queued" using queue_wf_queued_iff [OF wf, of p] st by auto
  consider (queued) "st = Queued" | (ready) "st = Dequeued" "\<not> requeue" | (enqueue) "st = Unqueued \<or> st = Dequeued \<and> requeue"
    by (cases st) auto
  then show ?thesis
  proof cases
    case queued
    let ?q' = "?q\<lparr>q_data := (q_data ?q)(p \<mapsto> w\<lparr>w_waker := Some cx\<rparr>)\<rparr>"
    have "wait_queue_ok ?q' ns" using q(1) by (auto simp: wait_queue_ok_def waiters_ok_def)
    moreover have "poll_wait p cx requeue gap [] q = Inr (Pending, ?q')"
      using poll_wait_queued [where gap = gap, OF q(2) live(1) _ w] st queued by simp
    ultimately show ?thesis using queued st q(2) \<open>p \<in> set ns \<longleftrightarrow> st = Queued\<close>
      by (intro exI [of _ Pending] exI [of _ ?q'] exI [of _ ns]) (simp add: waker_of_def)
  next
    case ready
    then have "poll_wait p cx requeue gap [] q = Inr (Ready (), ?q)"
      using poll_wait_notified [where gap = gap, OF q(2) live(1)] st by simp
    with q queued ready st show ?thesis by auto
  next
    case enqueue
    obtain q' where q': "poll_wait p cx requeue gap [] q = Inr (if is_closed ?q then Ready () else Pending, q')"
      "wait_queue_ok q' (if is_closed ?q then ns else ns @ [p])" "\<not> q_locked q'"
      "q_data q' = (q_data ?q)(p \<mapsto> w\<lparr>w_waker := Some cx\<rparr>)"
      using poll_wait_enqueues [where gap = gap and cx = cx, OF q(1,2) live(1) st enqueue w] mine st by metis
    then show ?thesis using queued enqueue st
      by (intro exI [of _ "if is_closed ?q then Ready () else Pending"] exI [of _ q']
          exI [of _ "if is_closed ?q then ns else ns @ [p]"]) (auto simp: waker_of_def)
  qed
qed

subsection \<open>Closing\<close>

lemma usize_states [simp]: "EMPTY \<le> INTRUSIVE_QUEUE_MAX_STATE" "CLOSED \<le> INTRUSIVE_QUEUE_MAX_STATE"
  by (simp_all add: max_state_value EMPTY_def CLOSED_def)

lemma fetch_close:
  assumes "wait_queue_ok q ns"
  obtains st w where "tail_to_enum usize_state w = State CLOSED"
    "fetch_update_state usize_state (\<lambda>s. bind_res ((\<lambda>_. Inr CLOSED) s) (\<lambda>t. Inr (Some t))) [] q
     = (if ns = [] then Inr (Inr st, q\<lparr>q_tail := w\<rparr>) else Inr (Inl None, q))"
proof -
  obtain w where w: "enum_to_tail usize_state (State CLOSED) = Inr w" "tail_to_enum usize_state w = State CLOSED"
    using usize_qs.state_encodable [of CLOSED] by auto
  have "tail_node usize_state q = (if ns = [] then None else Some (last ns))"
    using assms queue_inv_tail queue_wf_inv by (blast dest: wait_queue_ok_def [THEN iffD1])
  then show ?thesis using w
    by (cases "tail_to_enum usize_state (q_tail q)") (auto intro!: that simp: tail_node_def split: if_splits)
qed

lemma is_closed_tail: "tail_to_enum usize_state w = State CLOSED \<Longrightarrow> is_closed (q\<lparr>q_tail := w\<rparr>)"
  by (simp add: is_closed_def state_of_def CLOSED_def EMPTY_def)

lemma close_ok:
  assumes ok: "wait_queue_ok q ns" "\<not> q_locked q" "wait_queue_ok (gap q) ns'" "\<not> q_locked (gap q)"
    and s: "q_links (gap q) s = None" "node_addr s" and env: "drain_env (=) usize_state s others"
    and tl: "\<And>q. q_tail (others q) = q_tail q" and n: "length ns' < n"
  shows "\<exists>q'. close n s gap others log q
      = Inr (log @ map (\<lambda>x. (waker_of (gap q) x, False)) (if ns = [] then [] else ns'), q')
    \<and> is_closed q' \<and> \<not> q_locked q'"
proof (cases "ns = []")
  case True
  obtain st w where "tail_to_enum usize_state w = State CLOSED"
    "fetch_update_state usize_state (\<lambda>s. bind_res ((\<lambda>_. Inr CLOSED) s) (\<lambda>t. Inr (Some t))) [] q = Inr (Inr st, q\<lparr>q_tail := w\<rparr>)"
    using fetch_close [OF ok(1)] True by metis
  with True ok(2) show ?thesis
    by (simp add: close_def fetch_update_state_or_lock_def is_closed_tail)
next
  case False
  let ?q = "(gap q)\<lparr>q_locked := True\<rparr>"
  have okl: "wait_queue_ok ?q ns'" "q_locked ?q" "q_links ?q s = None" using ok s by simp_all
  have f1: "fetch_update_state usize_state (\<lambda>s. bind_res ((\<lambda>_. Inr CLOSED) s) (\<lambda>t. Inr (Some t))) [] q = Inr (Inl None, q)"
    using fetch_close [OF ok(1)] False by metis
  obtain st w where w: "tail_to_enum usize_state w = State CLOSED" and
    f2: "fetch_update_state usize_state (\<lambda>s. bind_res ((\<lambda>_. Inr CLOSED) s) (\<lambda>t. Inr (Some t))) [] ?q
      = (if ns' = [] then Inr (Inr st, ?q\<lparr>q_tail := w\<rparr>) else Inr (Inl None, ?q))"
    by (rule fetch_close [OF okl(1)])
  have lk: "lock gap q = Inr ?q" using ok(4) by (simp add: lock_def)
  show ?thesis
  proof (cases "ns' = []")
    case True
    have run: "close n s gap others log q = Inr (log, unlock (?q\<lparr>q_tail := w\<rparr>))"
      using f1 f2 lk True by (simp add: close_def fetch_update_state_or_lock_def)
    moreover have "is_closed (unlock (?q\<lparr>q_tail := w\<rparr>))"
      using w by (simp add: unlock_def is_closed_def state_of_def CLOSED_def EMPTY_def)
    ultimately show ?thesis using True by simp
  next
    case F2: False
    have run: "close n s gap others log q = drain_queue n CLOSED s others log ?q"
      using f1 f2 lk F2 by (simp add: close_def fetch_update_state_or_lock_def)
    obtain q' where q': "drain_queue n CLOSED s others log ?q = Inr (log @ map (\<lambda>x. (waker_of ?q x, False)) ns', q')"
      "\<not> q_locked q'" "state_of usize_state q' = Some CLOSED"
      using drain_queue_ok [OF okl(1,2) F2 okl(3) s(2) _ env n, of CLOSED log] tl by auto
    with run False show ?thesis by (simp add: is_closed_def CLOSED_def EMPTY_def)
  qed
qed

text \<open>A wait queue with the tasks 1 and 2 waiting in the nodes 4096 and 8192.\<close>

definition two_waiters :: "waiter queue" where
  "two_waiters = \<lparr>q_tail = 8193, q_head = 4096, q_locked = False,
     q_links = [4096 \<mapsto> \<lparr>link_prev = 2, link_next = 8192\<rparr>, 8192 \<mapsto> \<lparr>link_prev = 4096, link_next = 0\<rparr>],
     q_data = [4096 \<mapsto> \<lparr>w_waker = Some 1, w_notification = None\<rparr>, 8192 \<mapsto> \<lparr>w_waker = Some 2, w_notification = None\<rparr>]\<rparr>"

lemma two_waiters_ok: "wait_queue_ok two_waiters [4096, 8192]"
proof -
  have "cell two_waiters = cell two_nodes" "prev_of two_waiters = prev_of two_nodes" "q_tail two_waiters = q_tail two_nodes"
    by (auto simp: cell_def prev_of_def two_waiters_def two_nodes_def fun_eq_iff split: next_ref.splits)
  then have "queue_wf usize_state two_waiters [4096, 8192]"
    using two_nodes_wf by (simp add: queue_wf_def queue_inv_def nodes_ok_def tail_node_def)
  then show ?thesis by (simp add: wait_queue_ok_def waiters_ok_def two_waiters_def)
qed

lemma two_waiters_simps [simp]:
  "\<not> q_locked two_waiters" "q_links two_waiters 12288 = None"
  "waker_of two_waiters 4096 = 1" "waker_of two_waiters 8192 = 2" "node_addr 12288"
  by (simp_all add: two_waiters_def waker_of_def node_addr_def)

section \<open>Properties\<close>

text \<open>
  \<^verbatim>\<open>notify_one\<close> and \<^verbatim>\<open>notify_last\<close> wake exactly one
  waiter, the first and the last one of the queue as it is when the lock is granted, after the lock
  has been released; the waiter is dequeued and records the notification, the others keep waiting
  in order. The unchecked unwraps of the dequeued node and of its waker never fail. Nobody is woken
  if the queue is empty before or after the lock is taken, and nothing changes then.
\<close>

theorem notify_single_exact:
  assumes "wait_queue_ok q ns" and "wait_queue_ok (gap q) ns'" and "\<not> q_locked (gap q)"
  shows "if ns = [] \<or> ns' = []
    then notify_one gap log q = Inr (log, if ns = [] then q else gap q)
       \<and> notify_last gap log q = Inr (log, if ns = [] then q else gap q)
    else (\<exists>q'. notify_one gap log q = Inr (log @ [(waker_of (gap q) (hd ns'), False)], q')
         \<and> wait_queue_ok q' (tl ns') \<and> \<not> q_locked q'
         \<and> node_states q' = (node_states (gap q))(hd ns' \<mapsto> Dequeued)
         \<and> q_data q' = (q_data (gap q))(hd ns' \<mapsto> notified NotificationOne))
      \<and> (\<exists>q'. notify_last gap log q = Inr (log @ [(waker_of (gap q) (last ns'), False)], q')
         \<and> wait_queue_ok q' (butlast ns') \<and> \<not> q_locked q'
         \<and> node_states q' = (node_states (gap q))(last ns' \<mapsto> Dequeued)
         \<and> q_data q' = (q_data (gap q))(last ns' \<mapsto> notified NotificationLast))"
proof (cases "ns = [] \<or> ns' = []")
  case True
  then show ?thesis
    by (auto simp: notify_one_def notify_last_def is_empty_or_locked_eq [where gap = gap, OF assms])
next
  case False
  then obtain x xs where x: "ns' = x # xs" by (cases ns') auto
  have l: "ns' = butlast ns' @ [last ns']" using False by simp
  obtain q1 where q1: "notify_one gap log q = Inr (log @ [(waker_of (gap q) x, False)], q1)" "wait_queue_ok q1 xs"
    "q_data q1 = (q_data (gap q))(x \<mapsto> notified NotificationOne)" "\<not> q_locked q1"
    "node_states q1 = (node_states (gap q))(x \<mapsto> Dequeued)"
    by (rule notify_one_ok [where gap = gap, OF assms(1) assms(2) [unfolded x] assms(3)]) (use False in auto)
  have a2: "wait_queue_ok (gap q) (butlast ns' @ [last ns'])" using assms(2) l by simp
  obtain q2 where q2: "notify_last gap log q = Inr (log @ [(waker_of (gap q) (last ns'), False)], q2)"
    "wait_queue_ok q2 (butlast ns')" "q_data q2 = (q_data (gap q))(last ns' \<mapsto> notified NotificationLast)"
    "\<not> q_locked q2" "node_states q2 = (node_states (gap q))(last ns' \<mapsto> Dequeued)"
    by (rule notify_last_ok [where gap = gap, OF assms(1) a2 assms(3)]) (use False in auto)
  have "hd ns' = x" "tl ns' = xs" using x by simp_all
  with q1 q2 False show ?thesis by simp
qed

theorem notify_single_exact_witness:
  "(\<exists>q'. notify_one id [] two_waiters = Inr ([(1, False)], q') \<and> wait_queue_ok q' [8192])
   \<and> (\<exists>q'. notify_last id [] two_waiters = Inr ([(2, False)], q') \<and> wait_queue_ok q' [4096])"
  using notify_single_exact [of two_waiters "[4096, 8192]" id "[4096, 8192]" "[]"] two_waiters_ok by auto

text \<open>
  C26. \<^verbatim>\<open>notify_many(count)\<close>, undisturbed while it gives the lock up, wakes the
  first \<open>count\<close> waiters (all of them if there are fewer), each once and in queue order; the
  list of 32 wakers never overflows and no waker is lost when it is flushed. Full lists are woken
  without the lock; what is left at the end is woken with the lock held, unless the waiters have run
  out before the count.
\<close>

theorem notify_many_exact:
  assumes "wait_queue_ok q ns" and "wait_queue_ok (gap q) ns'" and "\<not> q_locked (gap q)"
    and "ns \<noteq> []" and "ns' \<noteq> []"
  shows "\<exists>q'. notify_many count gap id log q = Inr (log @ many_wakes (unat count) (map (waker_of (gap q)) ns'), q')
    \<and> wait_queue_ok q' (drop (unat count) ns') \<and> \<not> q_locked q' \<and> notified_first (take (unat count) ns') (gap q) q'"
  using notify_many_undisturbed [where gap = gap, OF assms, of count log] by blast

theorem notify_many_exact_witness:
  "\<exists>q'. notify_many 1 id id [] two_waiters = Inr ([(1, True)], q') \<and> wait_queue_ok q' [8192] \<and> \<not> q_locked q'"
  using notify_many_exact [of two_waiters "[4096, 8192]" id "[4096, 8192]" 1 "[]"] two_waiters_ok
  by (auto simp: many_wakes_def)

text \<open>
  C27. With other threads enqueueing, notifying and cancelling whenever the lock is given up,
  \<^verbatim>\<open>notify_many(count)\<close> still returns without fault, wakes at most
  \<open>count\<close> waiters and leaves a well-formed queue.
\<close>

theorem notify_many_bounded:
  assumes "wait_env others" and "wait_queue_ok q ns" and "wait_queue_ok (gap q) ns'" and "\<not> q_locked (gap q)"
    and "ns \<noteq> []" and "ns' \<noteq> []"
  shows "\<exists>W q' ms. notify_many count gap others log q = Inr (log @ W, q') \<and> length W \<le> unat count
    \<and> wait_queue_ok q' ms \<and> \<not> q_locked q'"
proof -
  obtain locked ws' q' ms W where r:
    "notify_many count gap others log q = Inr ((log @ map (\<lambda>w. (w, False)) W) @ map (\<lambda>w. (w, locked)) ws', unlock q')"
    "wait_queue_ok q' ms" "length W + length ws' \<le> unat count"
    by (rule notify_many_ok [where gap = gap and exact = False and count = count and log = log, OF assms(1) _ assms(2-6)]) auto
  then show ?thesis
    by (intro exI [of _ "map (\<lambda>w. (w, False)) W @ map (\<lambda>w. (w, locked)) ws'"] exI [of _ "unlock q'"] exI [of _ ms]) simp
qed

lemma notify_one_wait_env: "wait_env (\<lambda>q. case notify_one id [] q of Inr (_, q') \<Rightarrow> q' | Inl _ \<Rightarrow> q)"
  unfolding wait_env_def
proof (intro allI impI, elim conjE)
  fix q ns
  assume ok: "wait_queue_ok q ns" "\<not> q_locked q"
  show "\<exists>ns'. wait_queue_ok (case notify_one id [] q of Inl x \<Rightarrow> q | Inr (uu_, q') \<Rightarrow> q') ns'
      \<and> \<not> q_locked (case notify_one id [] q of Inl x \<Rightarrow> q | Inr (uu_, q') \<Rightarrow> q')"
  proof (cases ns)
    case Nil
    have "notify_one id [] q = Inr ([], q)"
      using ok Nil by (simp add: notify_one_def is_empty_or_locked_eq [of q "[]" id "[]"])
    with ok show ?thesis by auto
  next
    case (Cons x xs)
    have "wait_queue_ok (id q) (x # xs)" "\<not> q_locked (id q)" "ns \<noteq> []" using ok Cons by simp_all
    then obtain q' where "notify_one id [] q = Inr ([] @ [(waker_of (id q) x, False)], q')" "wait_queue_ok q' xs" "\<not> q_locked q'"
      by (rule notify_one_ok [where gap = id, OF ok(1)])
    then show ?thesis by auto
  qed
qed

theorem notify_many_bounded_witness:
  "\<exists>W q' ms. notify_many 40 id (\<lambda>q. case notify_one id [] q of Inr (_, q') \<Rightarrow> q' | Inl _ \<Rightarrow> q) [] two_waiters
      = Inr ([] @ W, q') \<and> length W \<le> 40 \<and> wait_queue_ok q' ms \<and> \<not> q_locked q'"
  using notify_many_bounded [OF notify_one_wait_env, of two_waiters "[4096, 8192]" id "[4096, 8192]" 40 "[]"] two_waiters_ok
  by simp

text \<open>
  \<^verbatim>\<open>notify_many\<close> wakes under the lock when its count is used up: with fewer than
  32 waiters to notify and at least as many in the queue, every waker is called while the caller
  still holds the queue's lock, unlike in all other notifications.
\<close>

theorem notify_many_wakes_locked:
  assumes "wait_env others" and "wait_queue_ok q ns" and "wait_queue_ok (gap q) ns'" and "\<not> q_locked (gap q)"
    and "ns \<noteq> []" and "ns' \<noteq> []" and "unat count < 32" and "unat count \<le> length ns'"
  shows "\<exists>q'. notify_many count gap others log q
    = Inr (log @ map (\<lambda>x. (waker_of (gap q) x, True)) (take (unat count) ns'), q')"
proof -
  obtain locked ws' q' ms W where r:
    "notify_many count gap others log q = Inr ((log @ map (\<lambda>w. (w, False)) W) @ map (\<lambda>w. (w, locked)) ws', unlock q')"
    "locked \<and> W = [] \<and> ws' = map (waker_of (gap q)) (take (unat count) ns')"
    by (rule notify_many_ok [where gap = gap and exact = False and count = count and log = log, OF assms(1) _ assms(2-6)])
      (use assms(7,8) in auto)
  then show ?thesis by (simp add: o_def)
qed

theorem notify_many_wakes_locked_witness:
  "\<exists>q'. notify_many 1 id id [] two_waiters = Inr ([] @ [(1, True)], q')"
proof -
  have "wait_env id" by (auto simp: wait_env_def)
  from notify_many_wakes_locked [OF this, of two_waiters "[4096, 8192]" id "[4096, 8192]" 1 "[]"] two_waiters_ok
  show ?thesis by simp
qed

text \<open>
  C25. \<^verbatim>\<open>notify_all\<close> wakes all waiters of the queue as it is when the lock is
  granted, each once, in queue order and without the lock, also if it has to release the lock many
  times on the way; new waiters that arrive meanwhile are not woken and keep waiting. It returns
  within one round per waiter plus one.
\<close>

theorem notify_all_exact:
  assumes "wait_queue_ok q ns" and "wait_queue_ok (gap q) ns'" and "\<not> q_locked (gap q)" and "ns \<noteq> []" and "ns' \<noteq> []"
    and "q_links (gap q) s = None" and "node_addr s" and "drain_env (=) usize_state s others" and "length ns' < n"
  shows "\<exists>q' pend ms. notify_all n s gap others log q
      = Inr (log @ map (\<lambda>x. (waker_of (gap q) x, False)) ns', q')
    \<and> queue_inv usize_state q' pend ms \<and> nodes_ok q' {} (set ms) \<and> \<not> q_locked q'"
proof -
  let ?q = "(gap q)\<lparr>q_locked := True\<rparr>"
  have okl: "wait_queue_ok ?q ns'" "q_locked ?q" "q_links ?q s = None" using assms by simp_all
  have "notify_all n s gap others log q = drain_queue n EMPTY s others log ?q"
    using assms(4,5) by (simp add: notify_all_def is_empty_or_locked_eq [where gap = gap, OF assms(1-3)])
  with drain_queue_ok [OF okl(1,2) assms(5) okl(3) assms(7) _ assms(8,9), of EMPTY log] show ?thesis by auto
qed

theorem notify_all_exact_witness:
  "\<exists>q' pend ms. notify_all 3 12288 id id [] two_waiters = Inr ([] @ [(1, False), (2, False)], q')
    \<and> queue_inv usize_state q' pend ms \<and> nodes_ok q' {} (set ms) \<and> \<not> q_locked q'"
proof -
  have env: "drain_env (=) usize_state 12288 id" unfolding drain_env_def by auto
  show ?thesis
    using notify_all_exact [OF two_waiters_ok _ _ _ _ _ _ env, of id "[4096, 8192]" 3 "[]"] two_waiters_ok by simp
qed

text \<open>
  \<^verbatim>\<open>close\<close> leaves the queue closed and wakes every waiter once, whether the queue
  is empty, becomes empty before the lock is granted, or has waiters to drain.
\<close>

theorem close_exact:
  assumes "wait_queue_ok q ns" and "\<not> q_locked q" and "wait_queue_ok (gap q) ns'" and "\<not> q_locked (gap q)"
    and "q_links (gap q) s = None" and "node_addr s" and "drain_env (=) usize_state s others"
    and "\<forall>q. q_tail (others q) = q_tail q" and "length ns' < n"
  shows "\<exists>q'. close n s gap others log q
      = Inr (log @ map (\<lambda>x. (waker_of (gap q) x, False)) (if ns = [] then [] else ns'), q')
    \<and> is_closed q' \<and> \<not> q_locked q'"
  by (rule close_ok [where gap = gap, OF assms(1-7) _ assms(9)]) (use assms(8) in blast)

theorem close_exact_witness:
  "\<exists>q'. close 3 12288 id id [] two_waiters = Inr ([] @ [(1, False), (2, False)], q') \<and> is_closed q' \<and> \<not> q_locked q'"
proof -
  have env: "drain_env (=) usize_state 12288 id" unfolding drain_env_def by auto
  show ?thesis
    using close_exact [OF two_waiters_ok _ _ _ _ _ env, of id "[4096, 8192]" 3 "[]"] two_waiters_ok by simp
qed

text \<open>
  C24. A poll that returns \<^verbatim>\<open>Pending\<close> has registered: the node is queued with the waker
  of the polling task, so the next notification that reaches it wakes this task; a poll that returns
  \<^verbatim>\<open>Ready\<close> leaves no queued node behind. It is ready exactly if the node was
  dequeued and is not to be requeued, or if the node is not queued and the queue is closed. The
  invariant that every queued waiter has a waker is kept, and the lock is released.
\<close>

theorem poll_wait_contract:
  assumes "wait_queue_ok (seen p gap q) ns" and "\<not> q_locked (seen p gap q)" and "q_data (seen p gap q) p \<noteq> None"
    and "node_states q p \<noteq> None" and "node_states (seen p gap q) p \<noteq> None"
    and "node_states q p = Some Queued \<Longrightarrow> node_states (seen p gap q) p \<noteq> Some Unqueued"
  shows "\<exists>poll q' ms. poll_wait p cx requeue gap [] q = Inr (poll, q') \<and> wait_queue_ok q' ms
    \<and> \<not> q_locked q' \<and> (poll = Pending \<longleftrightarrow> p \<in> set ms) \<and> (poll = Pending \<longrightarrow> waker_of q' p = cx)
    \<and> ms = (if p \<in> set ns \<or> poll = Ready () then ns else ns @ [p])
    \<and> (poll = Ready () \<longleftrightarrow> node_states (seen p gap q) p \<noteq> Some Queued
         \<and> (node_states (seen p gap q) p = Some Dequeued \<and> \<not> requeue \<or> is_closed (seen p gap q)))"
  using assms by (rule poll_wait_ok)

lemma two_waiters_seen:
  "seen 8192 id two_waiters = two_waiters" "q_data two_waiters 8192 \<noteq> None" "node_states two_waiters 8192 = Some Queued"
  by (simp_all add: seen_def two_waiters_def node_states_def link_state_iff)

theorem poll_wait_contract_witness:
  "\<exists>poll q' ms. poll_wait 8192 7 False id [] two_waiters = Inr (poll, q') \<and> wait_queue_ok q' ms
    \<and> \<not> q_locked q' \<and> (poll = Pending \<longleftrightarrow> 8192 \<in> set ms) \<and> waker_of q' 8192 = 7 \<and> ms = [4096, 8192]"
  using poll_wait_contract [of 8192 id two_waiters "[4096, 8192]" 7 False] two_waiters_ok two_waiters_seen
  by auto

text \<open>
  C28. \<^verbatim>\<open>WaitUntil\<close> never misses its condition. Unless the first call of the predicate
  gives a result, the poll registers and then calls the predicate again, at a moment at which the node
  has been queued with the task's waker (before whatever other threads do next); the poll is pending
  only if that second call fails, so a thread that makes the condition true after it finds the waiter
  in the queue. If the queue is closed the poll panics exactly if the second call fails, too.
\<close>

theorem wait_until_no_missed_condition:
  assumes "wait_queue_ok (seen p gap q) ns" and "\<not> q_locked (seen p gap q)" and "q_data (seen p gap q) p \<noteq> None"
    and "node_states q p \<noteq> None" and "node_states (seen p gap q) p \<noteq> None"
    and "node_states q p = Some Queued \<Longrightarrow> node_states (seen p gap q) p \<noteq> Some Unqueued"
  shows "case predicate e q of
      (Some r, e1) \<Rightarrow> wait_until_poll p predicate e cx gap [] mid q = Inr (Ready r, e1, q)
    | (None, e1) \<Rightarrow> \<exists>q1 ms closed. wait_queue_ok q1 ms \<and> \<not> q_locked q1
        \<and> (closed \<longleftrightarrow> node_states (seen p gap q) p \<noteq> Some Queued \<and> is_closed (seen p gap q))
        \<and> (if closed then p \<notin> set ms else p \<in> set ms \<and> waker_of q1 p = cx)
        \<and> wait_until_poll p predicate e cx gap [] mid q =
            (case predicate e1 (mid q1) of
               (Some r, e2) \<Rightarrow> Inr (Ready r, e2, mid q1)
             | (None, e2) \<Rightarrow> if closed then Inl (Panic UNTIL_CLOSED) else Inr (Pending, e2, mid q1))"
proof -
  obtain poll q' ms where r: "poll_wait p cx True gap [] q = Inr (poll, q')" "wait_queue_ok q' ms" "\<not> q_locked q'"
    "poll = Pending \<longleftrightarrow> p \<in> set ms" "poll = Pending \<longrightarrow> waker_of q' p = cx"
    "poll = Ready () \<longleftrightarrow> node_states (seen p gap q) p \<noteq> Some Queued \<and> is_closed (seen p gap q)"
    using poll_wait_ok [OF assms, of cx True] by auto
  show ?thesis
  proof (cases "predicate e q")
    case (Pair res e1)
    show ?thesis
    proof (cases res)
      case None
      have "wait_until_poll p predicate e cx gap [] mid q =
          (case predicate e1 (mid q') of
             (Some r, e2) \<Rightarrow> Inr (Ready r, e2, mid q')
           | (None, e2) \<Rightarrow> if poll = Ready () then Inl (Panic UNTIL_CLOSED) else Inr (Pending, e2, mid q'))"
        using Pair None r(1) by (simp add: wait_until_poll_def poll_cold_def Let_def)
      moreover have "poll = Pending \<longleftrightarrow> poll \<noteq> Ready ()" by (cases poll) auto
      ultimately have "\<exists>q1 ms closed. wait_queue_ok q1 ms \<and> \<not> q_locked q1
        \<and> (closed \<longleftrightarrow> node_states (seen p gap q) p \<noteq> Some Queued \<and> is_closed (seen p gap q))
        \<and> (if closed then p \<notin> set ms else p \<in> set ms \<and> waker_of q1 p = cx)
        \<and> wait_until_poll p predicate e cx gap [] mid q =
            (case predicate e1 (mid q1) of
               (Some r, e2) \<Rightarrow> Inr (Ready r, e2, mid q1)
             | (None, e2) \<Rightarrow> if closed then Inl (Panic UNTIL_CLOSED) else Inr (Pending, e2, mid q1))"
        using r(2-6) by (intro exI [of _ q'] exI [of _ ms] exI [of _ "poll = Ready ()"]) auto
      with Pair None show ?thesis by simp
    qed (use Pair in \<open>simp add: wait_until_poll_def\<close>)
  qed
qed

text \<open>
  A predicate that holds as long as the waker of its task is not in the queue: the poll is pending,
  since the predicate is called after the registration.
\<close>

theorem wait_until_no_missed_condition_witness:
  "\<exists>q1 ms. wait_queue_ok q1 ms \<and> 8192 \<in> set ms \<and> waker_of q1 8192 = 7
    \<and> wait_until_poll 8192 (\<lambda>calls q. (if calls = (0 :: nat) \<or> waker_of q 8192 = 7 then None else Some (), calls + 1)) 0 7 id [] id two_waiters
      = Inr (Pending, 2, q1)"
  using wait_until_no_missed_condition [where p = 8192 and gap = id and q = two_waiters and ns = "[4096, 8192]" and e = 0 and cx = 7 and mid = id
      and predicate = "\<lambda>calls q. (if calls = (0 :: nat) \<or> waker_of q 8192 = 7 then None else Some (), calls + 1)"]
    two_waiters_ok two_waiters_seen by auto

text \<open>
  C29. A notification is lost when its receiver is dropped. After \<^verbatim>\<open>notify_one\<close> has
  chosen the first of two or more waiters, dropping that waiter's node frees it and leaves the next
  one queued and asleep, although the hook that the wait queue declares for dropped nodes would pass
  the notification on to it; nothing calls the hook.
\<close>

theorem dropped_waiter_loses_notification:
  assumes ok: "wait_queue_ok q (x # y # ys)" and lk: "\<not> q_locked q"
  shows "\<exists>q1 q2 w q3. notify_one id [] q = Inr ([(waker_of q x, False)], q1)
    \<and> node_drop usize_state x id q1 = Inr q2 \<and> q_links q2 x = None \<and> wait_queue_ok q2 (y # ys)
    \<and> node_states q2 y = Some Queued \<and> waker_of q2 y = waker_of q y
    \<and> q_data q1 x = Some w \<and> wait_drop_node w id [] q1 = Inr ([(waker_of q y, False)], q3)"
proof -
  have ne: "x \<noteq> y" "x \<notin> set (y # ys)"
    using queue_inv_distinct [OF queue_wf_inv] ok by (fastforce simp: wait_queue_ok_def)+
  obtain q1 where q1: "notify_one id [] q = Inr ([(waker_of q x, False)], q1)" "wait_queue_ok q1 (y # ys)"
    "q_data q1 = (q_data q)(x \<mapsto> notified NotificationOne)" "\<not> q_locked q1"
    "node_states q1 = (node_states q)(x \<mapsto> Dequeued)"
    using notify_one_ok [where gap = id and log = "[]" and x = x and xs = "y # ys", OF ok] ok lk by auto
  have wf1: "queue_wf usize_state q1 (y # ys)" using q1(2) by (simp add: wait_queue_ok_def)
  have drop: "node_drop usize_state x id q1 = Inr (node_free x q1)"
    using raw_state_eq [of q1 x Dequeued] q1(5) by (simp add: node_drop_def)
  have wf2: "queue_wf usize_state (node_free x q1) (y # ys)" using usize_qs.wf_free(1) [OF wf1] ne by blast
  then have ok2: "wait_queue_ok (node_free x q1) (y # ys)"
    using q1(2) ne by (auto simp: wait_queue_ok_def waiters_ok_def node_free_def)
  have "waker_of q1 y = waker_of q y" using waker_of_cong [OF q1(3)] ne by metis
  moreover obtain q3 where "notify_one id [] q1 = Inr ([(waker_of q1 y, False)], q3)"
    using notify_one_ok [where gap = id and log = "[]" and x = y and xs = ys, OF q1(2)] q1(2,4) by auto
  moreover have "node_states (node_free x q1) y = Some Queued" using queue_wf_queued_iff [OF wf2] by simp
  ultimately show ?thesis using q1 drop ok2 ne
    by (intro exI [of _ q1] exI [of _ "node_free x q1"] exI [of _ "notified NotificationOne"] exI [of _ q3])
      (simp add: wait_drop_node_def waker_of_def node_free_def)
qed

theorem dropped_waiter_loses_notification_witness:
  "\<exists>q1 q2 w q3. notify_one id [] two_waiters = Inr ([(1, False)], q1)
    \<and> node_drop usize_state 4096 id q1 = Inr q2 \<and> q_links q2 4096 = None \<and> wait_queue_ok q2 [8192]
    \<and> node_states q2 8192 = Some Queued \<and> waker_of q2 8192 = 2
    \<and> q_data q1 4096 = Some w \<and> wait_drop_node w id [] q1 = Inr ([(2, False)], q3)"
  using dropped_waiter_loses_notification [of two_waiters 4096 8192 "[]"] two_waiters_ok by simp

end
