(* ===== verification/Wait_Client.thy ===== *)
theory Wait_Client
  imports Wait_Queue
begin

text \<open>
  A wait queue and its clients: any sequence of calls of the interface of
  \<^verbatim>\<open>WaitQueue\<close> by any number of futures, compared with an abstract wait queue that is
  a list of waiting futures in order of arrival and a closed flag. The calls run one after the other.
\<close>

section \<open>Clients\<close>

text \<open>
  The futures: \<^verbatim>\<open>Wait\<close>, \<^verbatim>\<open>WaitIf\<close> with whether it still has its
  predicate, and \<^verbatim>\<open>WaitUntil\<close>. Each is at the address of its node.
\<close>

datatype wait_kind = WaitPlain | WaitIf bool | WaitUntil

record wait_system =
  wq_queue :: "waiter queue"
  wq_futures :: "(addr \<times> wait_kind) list"

text \<open>
  \<open>WqPollIf p cx b\<close> polls a \<^verbatim>\<open>WaitIf\<close> whose predicate returns
  \<open>b\<close> if it is called; \<open>WqPollUntil p cx r r'\<close> a \<^verbatim>\<open>WaitUntil\<close>
  whose predicate returns \<open>r\<close> and, called again, \<open>r'\<close>. \<open>WqNotifyAll\<close>
  and \<open>WqClose\<close> carry the address of the sentinel of their drain.
\<close>

datatype wait_op =
    WqWait addr | WqWaitIf addr | WqWaitUntil addr
  | WqPoll addr waker | WqPollIf addr waker bool | WqPollUntil addr waker "nat option" "nat option" | WqDrop addr
  | WqNotifyOne | WqNotifyLast | WqNotifyMany usize | WqNotifyManyConst usize | WqNotifyAll addr | WqClose addr | WqIsClosed

datatype wait_result = WqNothing | WqPending | WqReady | WqValue nat | WqFlag bool

fun wq_poll_result :: "unit poll \<Rightarrow> wait_result" where
  "wq_poll_result Pending = WqPending"
| "wq_poll_result (Ready _) = WqReady"

fun wq_value_result :: "nat poll \<Rightarrow> wait_result" where
  "wq_value_result Pending = WqPending"
| "wq_value_result (Ready r) = WqValue r"

definition wq_log :: "wait_system \<Rightarrow> (wakeups \<times> waiter queue) res \<Rightarrow> ((wait_result \<times> wakeups) \<times> wait_system) res" where
  "wq_log s r = bind_res r (\<lambda>(log, q). Inr ((WqNothing, log), s\<lparr>wq_queue := q\<rparr>))"

text \<open>The predicate of a \<^verbatim>\<open>WaitUntil\<close>: what it returns, call by call.\<close>

fun scripted :: "nat option list \<Rightarrow> waiter queue \<Rightarrow> nat option \<times> nat option list" where
  "scripted [] q = (None, [])"
| "scripted (r # rs) q = (r, rs)"

text \<open>
  One call. Calls that the types of the interface rule out do nothing here: a node address in use, a
  future that is not there or is of another kind.
\<close>

fun wait_op_step :: "wait_op \<Rightarrow> wait_system \<Rightarrow> ((wait_result \<times> wakeups) \<times> wait_system) res" where
  "wait_op_step (WqWait p) s =
     (if \<not> (node_addr p \<and> q_links (wq_queue s) p = None) then Inr ((WqNothing, []), s)
      else Inr ((WqNothing, []), \<lparr>wq_queue = wait p (wq_queue s), wq_futures = wq_futures s @ [(p, WaitPlain)]\<rparr>))"
| "wait_op_step (WqWaitIf p) s =
     (if \<not> (node_addr p \<and> q_links (wq_queue s) p = None) then Inr ((WqNothing, []), s)
      else case wait_if p () (wq_queue s) of (predicate, q) \<Rightarrow>
        Inr ((WqNothing, []), \<lparr>wq_queue = q, wq_futures = wq_futures s @ [(p, WaitIf (predicate \<noteq> None))]\<rparr>))"
| "wait_op_step (WqWaitUntil p) s =
     (if \<not> (node_addr p \<and> q_links (wq_queue s) p = None) then Inr ((WqNothing, []), s)
      else case wait_until p () (wq_queue s) of (_, q) \<Rightarrow>
        Inr ((WqNothing, []), \<lparr>wq_queue = q, wq_futures = wq_futures s @ [(p, WaitUntil)]\<rparr>))"
| "wait_op_step (WqPoll p cx) s =
     (case map_of (wq_futures s) p of
        Some WaitPlain \<Rightarrow> bind_res (wait_poll p cx id [] (wq_queue s)) (\<lambda>(r, q).
          Inr ((wq_poll_result r, []), s\<lparr>wq_queue := q\<rparr>))
      | _ \<Rightarrow> Inr ((WqNothing, []), s))"
| "wait_op_step (WqPollIf p cx b) s =
     (case map_of (wq_futures s) p of
        Some (WaitIf armed) \<Rightarrow> bind_res (wait_if_poll p (if armed then Some (\<lambda>_. b) else None) cx id [] id (wq_queue s)) (\<lambda>(r, predicate, q).
          Inr ((wq_poll_result r, []), \<lparr>wq_queue = q, wq_futures = assign p (WaitIf (predicate \<noteq> None)) (wq_futures s)\<rparr>))
      | _ \<Rightarrow> Inr ((WqNothing, []), s))"
| "wait_op_step (WqPollUntil p cx first second) s =
     (case map_of (wq_futures s) p of
        Some WaitUntil \<Rightarrow> bind_res (wait_until_poll p scripted [first, second] cx id [] id (wq_queue s)) (\<lambda>(r, _, q).
          Inr ((wq_value_result r, []), s\<lparr>wq_queue := q\<rparr>))
      | _ \<Rightarrow> Inr ((WqNothing, []), s))"
| "wait_op_step (WqDrop p) s =
     (case map_of (wq_futures s) p of
        Some _ \<Rightarrow> bind_res (node_drop usize_state p id (wq_queue s)) (\<lambda>q.
          Inr ((WqNothing, []), \<lparr>wq_queue = q, wq_futures = without p (wq_futures s)\<rparr>))
      | None \<Rightarrow> Inr ((WqNothing, []), s))"
| "wait_op_step WqNotifyOne s = wq_log s (notify_one id [] (wq_queue s))"
| "wait_op_step WqNotifyLast s = wq_log s (notify_last id [] (wq_queue s))"
| "wait_op_step (WqNotifyMany n) s = wq_log s (notify_many n id id [] (wq_queue s))"
| "wait_op_step (WqNotifyManyConst n) s = wq_log s (notify_many_const n id id [] (wq_queue s))"
| "wait_op_step (WqNotifyAll d) s =
     (if \<not> (node_addr d \<and> q_links (wq_queue s) d = None) then Inr ((WqNothing, []), s)
      else wq_log s (notify_all (Suc (length (wq_futures s))) d id id [] (wq_queue s)))"
| "wait_op_step (WqClose d) s =
     (if \<not> (node_addr d \<and> q_links (wq_queue s) d = None) then Inr ((WqNothing, []), s)
      else wq_log s (close (Suc (length (wq_futures s))) d id id [] (wq_queue s)))"
| "wait_op_step WqIsClosed s = Inr ((WqFlag (is_closed (wq_queue s)), []), s)"

definition wait_start :: "waiter queue \<Rightarrow> wait_system" where
  "wait_start q = \<lparr>wq_queue = q, wq_futures = []\<rparr>"

section \<open>The abstract wait queue\<close>

text \<open>
  The waiting futures in order of arrival with the task to wake, the futures that have been notified
  since they were last registered, and all futures there are.
\<close>

record abs_wait =
  aw_closed :: bool
  aw_waiting :: "(addr \<times> waker) list"
  aw_notified :: "addr set"
  aw_futures :: "(addr \<times> wait_kind) list"

text \<open>A future registers, unless it waits already or has been notified; only with
  \<open>requeue\<close> a notified future registers anew. The result says whether it waits then.\<close>

definition abs_register :: "addr \<Rightarrow> waker \<Rightarrow> bool \<Rightarrow> abs_wait \<Rightarrow> bool \<times> abs_wait" where
  "abs_register p cx requeue a =
     (if p \<in> fst ` set (aw_waiting a) then (True, a\<lparr>aw_waiting := assign p cx (aw_waiting a)\<rparr>)
      else if p \<in> aw_notified a \<and> \<not> requeue then (False, a)
      else if aw_closed a then (False, a\<lparr>aw_notified := aw_notified a - {p}\<rparr>)
      else (True, a\<lparr>aw_waiting := aw_waiting a @ [(p, cx)], aw_notified := aw_notified a - {p}\<rparr>))"

text \<open>The waiters \<open>ws\<close> are taken off the list, and the others keep waiting.\<close>

definition abs_notify :: "(addr \<times> waker) list \<Rightarrow> (addr \<times> waker) list \<Rightarrow> abs_wait \<Rightarrow> abs_wait" where
  "abs_notify ws others a = a\<lparr>aw_waiting := others, aw_notified := aw_notified a \<union> fst ` set ws\<rparr>"

definition abs_notify_one :: "abs_wait \<Rightarrow> (wait_result \<times> wakeups) \<times> abs_wait" where
  "abs_notify_one a =
     (case aw_waiting a of
        [] \<Rightarrow> ((WqNothing, []), a)
      | (p, w) # ws \<Rightarrow> ((WqNothing, [(w, False)]), abs_notify [(p, w)] ws a))"

definition abs_notify_many :: "nat \<Rightarrow> abs_wait \<Rightarrow> (wait_result \<times> wakeups) \<times> abs_wait" where
  "abs_notify_many n a = ((WqNothing, many_wakes n (map snd (aw_waiting a))),
     abs_notify (take n (aw_waiting a)) (drop n (aw_waiting a)) a)"

definition abs_create :: "addr \<Rightarrow> wait_kind \<Rightarrow> abs_wait \<Rightarrow> abs_wait" where
  "abs_create p k a =
     (if node_addr p \<and> p \<notin> fst ` set (aw_futures a) then a\<lparr>aw_futures := aw_futures a @ [(p, k)]\<rparr> else a)"

definition wq_wait_result :: "bool \<Rightarrow> wait_result" where
  "wq_wait_result waits = (if waits then WqPending else WqReady)"

fun wait_op_spec :: "wait_op \<Rightarrow> abs_wait \<Rightarrow> (wait_result \<times> wakeups) \<times> abs_wait" where
  "wait_op_spec (WqWait p) a = ((WqNothing, []), abs_create p WaitPlain a)"
| "wait_op_spec (WqWaitIf p) a = ((WqNothing, []), abs_create p (WaitIf True) a)"
| "wait_op_spec (WqWaitUntil p) a = ((WqNothing, []), abs_create p WaitUntil a)"
| "wait_op_spec (WqPoll p cx) a =
     (case map_of (aw_futures a) p of
        Some WaitPlain \<Rightarrow> let (waits, a) = abs_register p cx False a in ((wq_wait_result waits, []), a)
      | _ \<Rightarrow> ((WqNothing, []), a))"
| "wait_op_spec (WqPollIf p cx b) a =
     (case map_of (aw_futures a) p of
        Some (WaitIf armed) \<Rightarrow> let (waits, a) = abs_register p cx False a in
          if waits then ((wq_wait_result (armed \<longrightarrow> b), []), a\<lparr>aw_futures := assign p (WaitIf False) (aw_futures a)\<rparr>)
          else ((WqReady, []), a)
      | _ \<Rightarrow> ((WqNothing, []), a))"
| "wait_op_spec (WqPollUntil p cx first second) a =
     (case map_of (aw_futures a) p of
        Some WaitUntil \<Rightarrow>
          (case first of
             Some r \<Rightarrow> ((WqValue r, []), a)
           | None \<Rightarrow> ((case second of Some r \<Rightarrow> WqValue r | None \<Rightarrow> WqPending, []), snd (abs_register p cx True a)))
      | _ \<Rightarrow> ((WqNothing, []), a))"
| "wait_op_spec (WqDrop p) a = ((WqNothing, []), a\<lparr>aw_waiting := without p (aw_waiting a),
     aw_notified := aw_notified a - {p}, aw_futures := without p (aw_futures a)\<rparr>)"
| "wait_op_spec WqNotifyOne a = abs_notify_one a"
| "wait_op_spec WqNotifyLast a =
     (if aw_waiting a = [] then ((WqNothing, []), a)
      else ((WqNothing, [(snd (last (aw_waiting a)), False)]), abs_notify [last (aw_waiting a)] (butlast (aw_waiting a)) a))"
| "wait_op_spec (WqNotifyMany n) a = abs_notify_many (unat n) a"
| "wait_op_spec (WqNotifyManyConst n) a =
     (if n = 1 then abs_notify_one a else abs_notify_many (unat n) a)"
| "wait_op_spec (WqNotifyAll d) a =
     (if \<not> (node_addr d \<and> d \<notin> fst ` set (aw_futures a)) then ((WqNothing, []), a)
      else ((WqNothing, map (\<lambda>(_, w). (w, False)) (aw_waiting a)), abs_notify (aw_waiting a) [] a))"
| "wait_op_spec (WqClose d) a =
     (if \<not> (node_addr d \<and> d \<notin> fst ` set (aw_futures a)) then ((WqNothing, []), a)
      else ((WqNothing, map (\<lambda>(_, w). (w, False)) (aw_waiting a)), abs_notify (aw_waiting a) [] (a\<lparr>aw_closed := True\<rparr>)))"
| "wait_op_spec WqIsClosed a = ((WqFlag (aw_closed a), []), a)"

text \<open>
  The only call that faults: a poll of a \<^verbatim>\<open>WaitUntil\<close> on a closed queue whose predicate
  returns nothing. It panics.
\<close>

fun wait_op_fault :: "wait_op \<Rightarrow> abs_wait \<Rightarrow> fault option" where
  "wait_op_fault (WqPollUntil p cx first second) a =
     (if map_of (aw_futures a) p = Some WaitUntil \<and> aw_closed a \<and> first = None \<and> second = None
      then Some (Panic UNTIL_CLOSED) else None)"
| "wait_op_fault _ a = None"

definition abs_wait_start :: abs_wait where
  "abs_wait_start = \<lparr>aw_closed = False, aw_waiting = [], aw_notified = {}, aw_futures = []\<rparr>"

section \<open>The relation\<close>

definition wait_queue_rel :: "addr set \<Rightarrow> waiter queue \<Rightarrow> bool \<Rightarrow> (addr \<times> waker) list \<Rightarrow> addr set \<Rightarrow> bool" where
  "wait_queue_rel fs q closed ws notif \<longleftrightarrow> wait_queue_ok q (map fst ws) \<and> \<not> q_locked q \<and> is_closed q = closed
     \<and> map (waker_of q) (map fst ws) = map snd ws \<and> node_states q = abs_states (fst ` set ws) notif fs
     \<and> (\<forall>p\<in>fs. q_data q p \<noteq> None) \<and> fst ` set ws \<union> notif \<subseteq> fs"

definition wait_rel :: "wait_system \<Rightarrow> abs_wait \<Rightarrow> bool" where
  "wait_rel s a \<longleftrightarrow> wait_queue_rel (fst ` set (wq_futures s)) (wq_queue s) (aw_closed a) (aw_waiting a) (aw_notified a)
     \<and> aw_futures a = wq_futures s \<and> distinct (map fst (wq_futures s))"

lemma wait_queue_relD:
  assumes "wait_queue_rel fs q closed ws notif"
  shows "wait_queue_ok q (map fst ws)" "\<not> q_locked q" "is_closed q = closed" "map (waker_of q) (map fst ws) = map snd ws"
    "node_states q = abs_states (fst ` set ws) notif fs" "p \<in> fs \<Longrightarrow> q_data q p \<noteq> None" "fst ` set ws \<subseteq> fs" "notif \<subseteq> fs"
    "distinct (map fst ws)" "ws \<noteq> [] \<Longrightarrow> \<not> closed"
proof -
  show d: "wait_queue_ok q (map fst ws)" "\<not> q_locked q" "is_closed q = closed" "map (waker_of q) (map fst ws) = map snd ws"
    "node_states q = abs_states (fst ` set ws) notif fs" "p \<in> fs \<Longrightarrow> q_data q p \<noteq> None" "fst ` set ws \<subseteq> fs" "notif \<subseteq> fs"
    using assms by (simp_all add: wait_queue_rel_def)
  show "distinct (map fst ws)" using d(1) queue_inv_distinct queue_wf_inv unfolding wait_queue_ok_def by blast
  show "ws \<noteq> [] \<Longrightarrow> \<not> closed" using is_closed_wf [OF d(1)] d(3) by simp
qed

lemma wait_relD:
  "wait_rel s a \<Longrightarrow> wait_queue_rel (fst ` set (wq_futures s)) (wq_queue s) (aw_closed a) (aw_waiting a) (aw_notified a)"
  by (simp add: wait_rel_def)

text \<open>A free address is one that is no future's.\<close>

lemma wait_rel_free: "wait_queue_rel fs q closed ws notif \<Longrightarrow> q_links q p = None \<longleftrightarrow> p \<notin> fs"
proof -
  assume rel: "wait_queue_rel fs q closed ws notif"
  have "q_links q p = None \<longleftrightarrow> node_states q p = None" by (auto simp: node_states_def split: option.splits)
  also have "\<dots> \<longleftrightarrow> p \<notin> fs"
    unfolding wait_queue_relD(5) [OF rel] using wait_queue_relD(7,8) [OF rel] by (auto simp: abs_states_def)
  finally show ?thesis .
qed

text \<open>
  Waiters leave the queue: each of \<open>gone\<close> is dequeued and keeps some data, nothing else
  changes.
\<close>

lemma wait_rel_notified:
  assumes rel: "wait_queue_rel fs q closed ws notif" and ok: "wait_queue_ok q' (map fst rest)" and lk: "\<not> q_locked q'"
    and ws: "set ws = set gone \<union> set rest" "set (map fst gone) \<inter> set (map fst rest) = {}"
    and st: "node_states q' = (\<lambda>x. if x \<in> fst ` set gone then Some Dequeued else node_states q x)"
    and live: "\<And>x. x \<in> fs \<Longrightarrow> q_data q' x \<noteq> None" and same: "\<And>x. x \<notin> fst ` set gone \<Longrightarrow> q_data q' x = q_data q x"
    and cl: "is_closed q' = closed'"
  shows "wait_queue_rel fs q' closed' rest (notif \<union> fst ` set gone)"
proof -
  note d = wait_queue_relD [OF rel]
  have keys: "fst ` set ws = fst ` set gone \<union> fst ` set rest" using ws(1) by (simp add: image_Un)
  have "waker_of q' (fst x) = snd x" if "x \<in> set rest" for x
  proof -
    have "waker_of q (fst x) = snd x" using d(4) that ws(1) by (auto simp: map_eq_conv [of "waker_of q \<circ> fst" ws snd, unfolded o_def])
    moreover have "fst x \<notin> fst ` set gone" using ws(2) that by auto
    ultimately show ?thesis using same by (simp add: waker_of_def)
  qed
  moreover have "node_states q' = abs_states (fst ` set rest) (notif \<union> fst ` set gone) fs"
    unfolding st d(5) using ws(2) keys by (auto simp: abs_states_def fun_eq_iff)
  ultimately show ?thesis using ok lk cl live d(7,8) keys by (auto simp: wait_queue_rel_def)
qed


abbreviation abs_rel :: "addr set \<Rightarrow> waiter queue \<Rightarrow> abs_wait \<Rightarrow> bool" where
  "abs_rel fs q a \<equiv> wait_queue_rel fs q (aw_closed a) (aw_waiting a) (aw_notified a)"

section \<open>The operations\<close>

lemma create_rel:
  assumes rel: "wait_queue_rel fs q closed ws notif" and p: "node_addr p" "p \<notin> fs"
  shows "wait_queue_rel (insert p fs) (wait p q) closed ws notif"
proof -
  note d = wait_queue_relD [OF rel]
  have free: "q_links q p = None" using wait_rel_free [OF rel] p(2) by simp
  have wf: "queue_wf usize_state q (map fst ws)" using d(1) by (simp add: wait_queue_ok_def)
  note al = usize_qs.wf_alloc [OF wf p(1) free, of waiter_default]
  have n: "p \<notin> fst ` set ws" "p \<notin> notif" using d(7,8) p(2) by auto
  have data: "q_data (wait p q) = (q_data q)(p \<mapsto> waiter_default)" "q_locked (wait p q) = q_locked q" "q_tail (wait p q) = q_tail q"
    by (simp_all add: wait_def node_with_data_def)
  have "wait_queue_ok (wait p q) (map fst ws)"
    using d(1) al(1) n(1) data by (auto simp: wait_queue_ok_def waiters_ok_def wait_def)
  moreover have "waker_of (wait p q) x = waker_of q x" if "x \<in> fst ` set ws" for x
    using that n(1) data by (auto simp: waker_of_def)
  then have "map (waker_of (wait p q)) (map fst ws) = map snd ws" using d(4) by force
  moreover have "node_states (wait p q) = abs_states (fst ` set ws) notif (insert p fs)"
    using al(2) n p(2) by (auto simp: wait_def d(5) abs_states_def fun_eq_iff)
  ultimately show ?thesis using d data by (auto simp: wait_queue_rel_def is_closed_def state_of_def)
qed

text \<open>The three cases of a poll: the future waits already, it was notified, it registers.\<close>

lemma rewake_rel:
  assumes rel: "wait_queue_rel fs q closed ws notif" and p: "p \<in> fst ` set ws" and w: "q_data q p = Some w"
  shows "wait_queue_rel fs (q\<lparr>q_data := (q_data q)(p \<mapsto> w\<lparr>w_waker := Some cx\<rparr>)\<rparr>) closed (assign p cx ws) notif"
proof -
  note d = wait_queue_relD [OF rel]
  let ?q = "q\<lparr>q_data := (q_data q)(p \<mapsto> w\<lparr>w_waker := Some cx\<rparr>)\<rparr>"
  have "wait_queue_ok ?q (map fst ws)" using d(1) by (auto simp: wait_queue_ok_def waiters_ok_def)
  moreover have "waker_of ?q x = (if x = p then cx else waker_of q x)" for x by (simp add: waker_of_def)
  then have "map (waker_of ?q) (map fst ws) = map snd (assign p cx ws)" using d(4) by (auto simp: assign_def)
  moreover have "is_closed ?q = is_closed q" by (simp add: is_closed_def)
  ultimately show ?thesis using d by (simp add: wait_queue_rel_def)
qed

lemma requeue_rel:
  assumes rel: "wait_queue_rel fs q closed ws notif" and p: "p \<in> fs" "p \<notin> fst ` set ws"
    and ok: "wait_queue_ok q' (if closed then map fst ws else map fst ws @ [p])" and lk: "\<not> q_locked q'"
    and data: "q_data q' = (q_data q)(p \<mapsto> w\<lparr>w_waker := Some cx\<rparr>)" and cl: "is_closed q' = closed"
    and st: "node_states q' = (node_states q)(p \<mapsto> (if closed then Unqueued else Queued))"
  shows "wait_queue_rel fs q' closed (if closed then ws else ws @ [(p, cx)]) (notif - {p})"
proof -
  note d = wait_queue_relD [OF rel]
  have "waker_of q' x = (if x = p then cx else waker_of q x)" for x using data by (simp add: waker_of_def)
  moreover have "x \<noteq> p" if "x \<in> fst ` set ws" for x using that p(2) by auto
  ultimately have "map (waker_of q') (map fst ws) = map snd ws" "waker_of q' p = cx" using d(4) by force+
  moreover have "node_states q' = abs_states (fst ` set (if closed then ws else ws @ [(p, cx)])) (notif - {p}) fs"
    unfolding st d(5) using p d(8) by (auto simp: abs_states_def fun_eq_iff)
  ultimately show ?thesis using d p ok lk cl data by (auto simp: wait_queue_rel_def)
qed

lemma register_ok:
  assumes rel: "abs_rel fs q a" and p: "p \<in> fs"
  obtains q' where "poll_wait p cx requeue id [] q = Inr (if fst (abs_register p cx requeue a) then Pending else Ready (), q')"
    "abs_rel fs q' (snd (abs_register p cx requeue a))"
proof -
  note d = wait_queue_relD [OF rel]
  have seen: "seen p id q = q" by (simp add: seen_def)
  obtain w where w: "q_data q p = Some w" using d(6) p by blast
  have live: "node_states q p \<noteq> None" using p by (simp add: d(5) abs_states_def)
  consider (waits) "p \<in> fst ` set (aw_waiting a)"
    | (notif) "p \<notin> fst ` set (aw_waiting a)" "p \<in> aw_notified a" "\<not> requeue"
    | (new) "p \<notin> fst ` set (aw_waiting a)" "p \<in> aw_notified a \<longrightarrow> requeue" by blast
  then show ?thesis
  proof cases
    case waits
    then have "node_states q p = Some Queued" by (simp add: d(5) abs_states_def)
    with poll_wait_queued [where p = p and q = q and gap = id and cx = cx and requeue = requeue, unfolded seen, OF d(2) live _ w]
    show ?thesis using waits rewake_rel [OF rel waits w, of cx] by (intro that) (simp_all add: abs_register_def)
  next
    case notif
    then have "node_states q p = Some Dequeued" by (simp add: d(5) abs_states_def)
    with poll_wait_notified [where p = p and q = q and gap = id and cx = cx, unfolded seen, OF d(2) live]
    show ?thesis using notif rel by (intro that [of q]) (simp_all add: abs_register_def)
  next
    case new
    let ?st = "if p \<in> aw_notified a then Dequeued else Unqueued"
    have st: "node_states q p = Some ?st" "?st = Unqueued \<or> ?st = Dequeued \<and> requeue" using new p by (auto simp: d(5) abs_states_def)
    obtain q' where q': "poll_wait p cx requeue id [] q = Inr (if aw_closed a then Ready () else Pending, q')"
      "wait_queue_ok q' (if aw_closed a then map fst (aw_waiting a) else map fst (aw_waiting a) @ [p])" "\<not> q_locked q'"
      "q_data q' = (q_data q)(p \<mapsto> w\<lparr>w_waker := Some cx\<rparr>)" "is_closed q' = aw_closed a"
      "node_states q' = (node_states q)(p \<mapsto> (if aw_closed a then Unqueued else Queued))"
      by (rule poll_wait_enqueues [where p = p and q = q and gap = id and cx = cx, unfolded seen, OF d(1,2) live st w, unfolded d(3)])
        (use st(1) in auto)
    have "wait_queue_rel fs q' (aw_closed a) (if aw_closed a then aw_waiting a else aw_waiting a @ [(p, cx)]) (aw_notified a - {p})"
      by (rule requeue_rel [OF rel p new(1) q'(2-)])
    with q'(1) new show ?thesis by (intro that) (auto simp: abs_register_def)
  qed
qed

text \<open>A future is dropped.\<close>

lemma unlink_waiter:
  assumes rel: "wait_queue_rel fs q closed ws notif" and p: "p \<in> fs"
  obtains q1 where "node_drop usize_state p id q = Inr (node_free p q1)" "queue_wf usize_state q1 (map fst (without p ws))"
    "\<not> q_locked q1" "q_data q1 = q_data q" "is_closed q1 = closed" "\<forall>x. x \<noteq> p \<longrightarrow> node_states q1 x = node_states q x"
proof (cases "p \<in> fst ` set ws")
  case True
  note d = wait_queue_relD [OF rel]
  let ?q = "q\<lparr>q_locked := True\<rparr>" and ?ns = "map fst ws"
  have st: "node_states q p = Some Queued" using True by (simp add: d(5) abs_states_def)
  have wf: "queue_wf usize_state ?q ?ns" and mem: "p \<in> set ?ns" using d(1) True by (simp_all add: wait_queue_ok_def)
  obtain q1 where q1: "remove usize_state p 0 False ?q = Inr (p = last ?ns, q1)" "queue_wf usize_state q1 (remove1 p ?ns)"
    "node_states q1 = (node_states ?q)(p \<mapsto> Dequeued)" "frame ?q q1" "remove1 p ?ns = [] \<longrightarrow> state_of usize_state q1 = Some 0"
    by (rule usize_qs.wf_remove [OF wf mem usize_qs.null_is_state])
  have ns: "map fst (without p ws) = remove1 p ?ns" using d(9) by (simp add: remove1_filter)
  have "\<not> is_closed q1"
  proof (cases "remove1 p ?ns = []")
    case False
    then show ?thesis using is_empty_wf [OF q1(2)] by (auto simp: is_empty_def is_closed_def)
  qed (use q1(5) in \<open>simp add: is_closed_def EMPTY_def\<close>)
  moreover have "\<not> closed" using d(10) True by (cases ws) auto
  moreover have "raw_state p ?q = Inr Queued" using st by (intro raw_state_eq) simp
  then have "node_drop usize_state p id q = Inr (node_free p (unlock q1))"
    using raw_state_eq [OF st] d(2) q1(1) by (simp add: node_drop_def node_dequeue_def lock_def)
  ultimately show ?thesis using q1(2-4) ns
    by (intro that [of "unlock q1"]) (simp_all add: frame_def, simp_all add: unlock_def)
next
  case False
  note d = wait_queue_relD [OF rel]
  have "node_states q p = Some (if p \<in> notif then Dequeued else Unqueued)" using False p by (simp add: d(5) abs_states_def)
  then have "node_drop usize_state p id q = Inr (node_free p q)" by (auto simp: node_drop_def dest!: raw_state_eq)
  moreover have "queue_wf usize_state q (map fst ws)" using d(1) by (simp add: wait_queue_ok_def)
  ultimately show ?thesis using False d by (intro that [of q]) (simp_all add: without_id)
qed

lemma drop_rel:
  assumes rel: "wait_queue_rel fs q closed ws notif" and p: "p \<in> fs"
  obtains q' where "node_drop usize_state p id q = Inr q'"
    "wait_queue_rel (fs - {p}) q' closed (without p ws) (notif - {p})"
proof -
  note d = wait_queue_relD [OF rel]
  let ?ns = "map fst (without p ws)"
  obtain q1 where q1: "node_drop usize_state p id q = Inr (node_free p q1)" "queue_wf usize_state q1 ?ns" "\<not> q_locked q1"
    "q_data q1 = q_data q" "is_closed q1 = closed" "\<forall>x. x \<noteq> p \<longrightarrow> node_states q1 x = node_states q x"
    by (rule unlink_waiter [OF rel p])
  have n: "p \<notin> set ?ns" by simp
  note fr = usize_qs.wf_free [OF q1(2) n]
  have data: "q_data (node_free p q1) = (q_data q)(p := None)" "q_locked (node_free p q1) = q_locked q1" "is_closed (node_free p q1) = is_closed q1"
    using q1(4) by (simp_all add: node_free_def is_closed_def state_of_def)
  have "wait_queue_ok (node_free p q1) ?ns"
    using d(1) fr(1) data by (auto simp: wait_queue_ok_def waiters_ok_def)
  moreover have "waker_of (node_free p q1) x = waker_of q x" if "x \<noteq> p" for x using that data by (simp add: waker_of_def)
  then have "map (waker_of (node_free p q1)) ?ns = map snd (without p ws)"
    using d(4) by (auto simp: set_without simp del: without_keys)
  moreover have "node_states (node_free p q1) = abs_states (fst ` set (without p ws)) (notif - {p}) (fs - {p})"
    using fr(2) q1(6) d(5,7,8) by (auto simp: abs_states_def fun_eq_iff)
  ultimately show ?thesis using q1 data d by (intro that [of "node_free p q1"]) (auto simp: wait_queue_rel_def)
qed


text \<open>Notifications. What an operation on the queue does to the list of waiters:\<close>

definition notifies ::
  "addr set \<Rightarrow> abs_wait \<Rightarrow> (wakeups \<times> waiter queue) res \<Rightarrow> wakeups \<times> abs_wait \<Rightarrow> bool" where
  "notifies fs a r spec \<longleftrightarrow> (\<exists>q'. r = Inr (fst spec, q') \<and> abs_rel fs q' (snd spec) \<and> aw_futures (snd spec) = aw_futures a)"

lemma notify_none:
  assumes "abs_rel fs q a" and "aw_waiting a = []"
  shows "notify_one id [] q = Inr ([], q)" "notify_last id [] q = Inr ([], q)" "notify_many n id id [] q = Inr ([], q)"
    "notify_all k d id id [] q = Inr ([], q)"
  using wait_queue_relD(1) [OF assms(1)] wait_queue_relD(2) [OF assms(1)] assms(2)
  by (simp_all add: notify_one_def notify_last_def notify_many_def notify_all_def is_empty_or_locked_eq [where ns = "[]" and ns' = "[]"])

lemma notify_one_notifies:
  assumes rel: "abs_rel fs q a"
  shows "notifies fs a (notify_one id [] q) (snd (fst (abs_notify_one a)), snd (abs_notify_one a))"
proof (cases "aw_waiting a")
  case Nil
  then show ?thesis using notify_none(1) [OF rel Nil] rel by (simp add: notifies_def abs_notify_one_def)
next
  case (Cons x ws)
  obtain p w where x: "x = (p, w)" by (cases x)
  note d = wait_queue_relD [OF rel]
  have ok: "wait_queue_ok q (p # map fst ws)" and w: "waker_of q p = w" and dist: "p \<notin> fst ` set ws"
    using d(1,4,9) by (simp_all add: Cons x)
  obtain q' where q': "notify_one id [] q = Inr ([] @ [(waker_of (id q) p, False)], q')" "wait_queue_ok q' (map fst ws)"
    "q_data q' = (q_data (id q))(p \<mapsto> notified NotificationOne)" "\<not> q_locked q'"
    "node_states q' = (node_states (id q))(p \<mapsto> Dequeued)" "\<not> is_closed q'"
    by (rule notify_one_ok [where gap = id and q = q and log = "[]", OF ok]) (use ok d(2) in simp_all)
  have "wait_queue_rel fs q' (aw_closed a) ws (aw_notified a \<union> fst ` set [(p, w)])"
    by (rule wait_rel_notified [OF rel q'(2,4)]) (use q' d(6,10) dist Cons x in \<open>auto simp: fun_eq_iff\<close>)
  then show ?thesis using q'(1) w Cons x by (simp add: notifies_def abs_notify_one_def abs_notify_def)
qed

lemma notify_last_notifies:
  assumes rel: "abs_rel fs q a" and ne: "aw_waiting a \<noteq> []"
  shows "notifies fs a (notify_last id [] q)
    ([(snd (last (aw_waiting a)), False)], abs_notify [last (aw_waiting a)] (butlast (aw_waiting a)) a)"
proof -
  obtain ws p w where x: "aw_waiting a = ws @ [(p, w)]" using ne by (metis append_butlast_last_id surj_pair)
  note d = wait_queue_relD [OF rel]
  have ok: "wait_queue_ok q (map fst ws @ [p])" and w: "waker_of q p = w" and dist: "p \<notin> fst ` set ws"
    using d(1,4,9) by (simp_all add: x)
  obtain q' where q': "notify_last id [] q = Inr ([] @ [(waker_of (id q) p, False)], q')" "wait_queue_ok q' (map fst ws)"
    "q_data q' = (q_data (id q))(p \<mapsto> notified NotificationLast)" "\<not> q_locked q'"
    "node_states q' = (node_states (id q))(p \<mapsto> Dequeued)" "\<not> is_closed q'"
    by (rule notify_last_ok [where gap = id and q = q and log = "[]", OF ok]) (use ok d(2) in simp_all)
  have "wait_queue_rel fs q' (aw_closed a) ws (aw_notified a \<union> fst ` set [(p, w)])"
    by (rule wait_rel_notified [OF rel q'(2,4)]) (use q' d(6,10) dist x in \<open>auto simp: fun_eq_iff\<close>)
  then show ?thesis using q'(1) w x by (simp add: notifies_def abs_notify_def)
qed

lemma notify_many_notifies:
  assumes rel: "abs_rel fs q a"
  shows "notifies fs a (notify_many n id id [] q) (snd (fst (abs_notify_many (unat n) a)), snd (abs_notify_many (unat n) a))"
proof (cases "aw_waiting a = []")
  case True
  then show ?thesis using notify_none(3) [OF rel True] rel
    by (simp add: notifies_def abs_notify_many_def abs_notify_def many_wakes_def)
next
  case False
  note d = wait_queue_relD [OF rel]
  let ?ws = "aw_waiting a" and ?n = "unat n"
  have ok: "wait_queue_ok (id q) (map fst ?ws)" "\<not> q_locked (id q)" "map fst ?ws \<noteq> []" using d(1,2) False by simp_all
  obtain q' where q': "notify_many n id id [] q = Inr ([] @ many_wakes ?n (map (waker_of (id q)) (map fst ?ws)), q')"
    "wait_queue_ok q' (drop ?n (map fst ?ws))" "\<not> q_locked q'" "notified_first (take ?n (map fst ?ws)) (id q) q'"
    by (rule notify_many_undisturbed [where gap = id and q = q and count = n and log = "[]", OF d(1) ok(1,2,3,3)])
  have ws: "set ?ws = set (take ?n ?ws) \<union> set (drop ?n ?ws)" by (metis append_take_drop_id set_append)
  have dist: "set (map fst (take ?n ?ws)) \<inter> set (map fst (drop ?n ?ws)) = {}"
    using d(9) by (metis append_take_drop_id distinct_append map_append)
  have ok': "wait_queue_ok q' (map fst (drop ?n ?ws))" using q'(2) by (simp add: drop_map)
  have "wait_queue_rel fs q' (aw_closed a) (drop ?n ?ws) (aw_notified a \<union> fst ` set (take ?n ?ws))"
    by (rule wait_rel_notified [OF rel ok' q'(3) ws dist])
      (use q'(4) d(3,6,10) False in \<open>auto simp: notified_first_def take_map fun_eq_iff\<close>)
  moreover have "notify_many n id id [] q = Inr (many_wakes ?n (map snd ?ws), q')" using q'(1) by (simp only: id_apply d(4) append_Nil)
  ultimately show ?thesis by (simp add: notifies_def abs_notify_many_def abs_notify_def)
qed

lemma drain_notifies:
  assumes rel: "abs_rel fs q a" and ne: "aw_waiting a \<noteq> []" and s: "node_addr s" "s \<notin> fs" and n: "length (aw_waiting a) < n"
    and st: "STATE = EMPTY \<or> STATE = CLOSED"
  shows "notifies fs a (drain_queue n STATE s id [] (q\<lparr>q_locked := True\<rparr>))
    (map (\<lambda>(_, w). (w, False)) (aw_waiting a), abs_notify (aw_waiting a) [] (a\<lparr>aw_closed := (STATE = CLOSED)\<rparr>))"
proof -
  note d = wait_queue_relD [OF rel]
  let ?q = "q\<lparr>q_locked := True\<rparr>" and ?ns = "map fst (aw_waiting a)"
  have pre: "wait_queue_ok ?q ?ns" "q_locked ?q" "?ns \<noteq> []" "q_links ?q s = None" "length ?ns < n" "STATE \<le> INTRUSIVE_QUEUE_MAX_STATE"
    using d(1) ne wait_rel_free [OF rel] s n st by auto
  obtain q' where q': "drain_queue n STATE s id [] ?q = Inr ([] @ map (\<lambda>x. (waker_of ?q x, False)) ?ns, q')"
    "queue_wf usize_state q' []" "\<not> q_locked q'" "state_of usize_state q' = Some STATE"
    "q_data q' = (\<lambda>x. if x \<in> set ?ns then map_option (\<lambda>w. w\<lparr>w_waker := None\<rparr>) (q_data ?q x) else q_data ?q x)"
    "node_states q' = (\<lambda>x. if x \<in> set ?ns then Some Dequeued else node_states ?q x)"
    by (rule drain_queue_alone [OF pre(1-4) s(1) pre(6,5)])
  have "wait_queue_ok q' (map fst [])" using q'(2) by (simp add: wait_queue_ok_def waiters_ok_def)
  then have "wait_queue_rel fs q' (STATE = CLOSED) [] (aw_notified a \<union> fst ` set (aw_waiting a))"
    by (rule wait_rel_notified [OF rel _ q'(3)])
      (use q'(4-6) d(6) st in \<open>auto simp: is_closed_def EMPTY_def CLOSED_def fun_eq_iff\<close>)
  moreover have "map (\<lambda>x. (waker_of q x, False)) ?ns = map (\<lambda>(_, w). (w, False)) (aw_waiting a)"
    using arg_cong [OF d(4), of "map (\<lambda>w. (w, False))"] by (simp add: o_def split_beta)
  ultimately show ?thesis using q'(1) by (simp add: notifies_def abs_notify_def)
qed

lemma notify_all_notifies:
  assumes rel: "abs_rel fs q a" and s: "node_addr s" "s \<notin> fs" and n: "length (aw_waiting a) < n"
  shows "notifies fs a (notify_all n s id id [] q) (map (\<lambda>(_, w). (w, False)) (aw_waiting a), abs_notify (aw_waiting a) [] a)"
proof (cases "aw_waiting a = []")
  case True
  then show ?thesis using notify_none(4) [OF rel True] rel by (simp add: notifies_def abs_notify_def)
next
  case False
  note d = wait_queue_relD [OF rel]
  have "notify_all n s id id [] q = drain_queue n EMPTY s id [] (q\<lparr>q_locked := True\<rparr>)"
    using d(1,2) False by (simp add: notify_all_def is_empty_or_locked_eq [where ns = "map fst (aw_waiting a)" and ns' = "map fst (aw_waiting a)"])
  moreover have "abs_notify (aw_waiting a) [] (a\<lparr>aw_closed := (EMPTY = CLOSED)\<rparr>) = abs_notify (aw_waiting a) [] a"
    using d(10) False by (simp add: abs_notify_def EMPTY_def CLOSED_def)
  ultimately show ?thesis using drain_notifies [OF rel False s n, of EMPTY] by simp
qed

lemma close_notifies:
  assumes rel: "abs_rel fs q a" and s: "node_addr s" "s \<notin> fs" and n: "length (aw_waiting a) < n"
  shows "notifies fs a (close n s id id [] q)
    (map (\<lambda>(_, w). (w, False)) (aw_waiting a), abs_notify (aw_waiting a) [] (a\<lparr>aw_closed := True\<rparr>))"
proof -
  note d = wait_queue_relD [OF rel]
  obtain st w where w: "tail_to_enum usize_state w = State CLOSED" and f:
    "fetch_update_state usize_state (\<lambda>s. bind_res ((\<lambda>_. Inr CLOSED) s) (\<lambda>t. Inr (Some t))) [] q
     = (if map fst (aw_waiting a) = [] then Inr (Inr st, q\<lparr>q_tail := w\<rparr>) else Inr (Inl None, q))"
    by (rule fetch_close [OF d(1)])
  show ?thesis
  proof (cases "aw_waiting a = []")
    case True
    have "close n s id id [] q = Inr ([], q\<lparr>q_tail := w\<rparr>)" using f True by (simp add: close_def fetch_update_state_or_lock_def)
    moreover have "wait_queue_rel fs (q\<lparr>q_tail := w\<rparr>) True [] (aw_notified a)"
    proof -
      have "queue_wf usize_state q []" using d(1) True by (simp add: wait_queue_ok_def)
      then have "queue_wf usize_state (q\<lparr>q_tail := w\<rparr>) []" using w by (simp add: queue_wf_def queue_inv_def nodes_ok_def tail_node_def)
      moreover have "node_states (q\<lparr>q_tail := w\<rparr>) = node_states q" by (simp add: node_states_def fun_eq_iff)
      ultimately show ?thesis using d True is_closed_tail [OF w]
        by (simp add: wait_queue_rel_def wait_queue_ok_def waiters_ok_def)
    qed
    ultimately show ?thesis using True by (simp add: notifies_def abs_notify_def)
  next
    case False
    let ?q = "q\<lparr>q_locked := True\<rparr>"
    have okl: "wait_queue_ok ?q (map fst (aw_waiting a))" using d(1) by simp
    obtain st' w' where
      "fetch_update_state usize_state (\<lambda>s. bind_res ((\<lambda>_. Inr CLOSED) s) (\<lambda>t. Inr (Some t))) [] ?q
       = (if map fst (aw_waiting a) = [] then Inr (Inr st', ?q\<lparr>q_tail := w'\<rparr>) else Inr (Inl None, ?q))"
      by (rule fetch_close [OF okl])
    then have "close n s id id [] q = drain_queue n CLOSED s id [] ?q"
      using f d(2) False by (simp add: close_def fetch_update_state_or_lock_def lock_def)
    with drain_notifies [OF rel False s n, of CLOSED] show ?thesis by simp
  qed
qed


section \<open>The simulation\<close>

definition wait_step_ok :: "wait_op \<Rightarrow> wait_system \<Rightarrow> abs_wait \<Rightarrow> bool" where
  "wait_step_ok op s a \<longleftrightarrow> (\<exists>s'. wait_op_step op s = Inr (fst (wait_op_spec op a), s') \<and> wait_rel s' (snd (wait_op_spec op a)))"

lemma wait_futures_future: "map_of fs p = Some k \<Longrightarrow> p \<in> fst ` set fs"
  by (force dest: map_of_SomeD)

lemma register_futures [simp]: "aw_futures (snd (abs_register p cx requeue a)) = aw_futures a"
  by (simp add: abs_register_def)

lemma create_step:
  assumes r: "wait_rel s a"
  shows "wait_step_ok (WqWait p) s a" "wait_step_ok (WqWaitIf p) s a" "wait_step_ok (WqWaitUntil p) s a"
proof -
  note rel = wait_relD [OF r]
  have g: "q_links (wq_queue s) p = None \<longleftrightarrow> p \<notin> fst ` set (aw_futures a)"
    using wait_rel_free [OF rel, of p] r by (simp add: wait_rel_def)
  have new: "wait_rel \<lparr>wq_queue = wait p (wq_queue s), wq_futures = wq_futures s @ [(p, k)]\<rparr> (abs_create p k a)"
    if "node_addr p" "p \<notin> fst ` set (aw_futures a)" for k
    using create_rel [OF rel, of p] r that by (simp add: wait_rel_def abs_create_def)
  have old: "abs_create p k a = a" if "\<not> (node_addr p \<and> p \<notin> fst ` set (aw_futures a))" for k
    using that by (simp add: abs_create_def)
  show "wait_step_ok (WqWait p) s a" "wait_step_ok (WqWaitIf p) s a" "wait_step_ok (WqWaitUntil p) s a"
    unfolding wait_step_ok_def
    by (cases "node_addr p \<and> p \<notin> fst ` set (aw_futures a)"; use r g new old in \<open>simp add: wait_if_def wait_until_def\<close>)+
qed

lemma wait_poll_step:
  assumes r: "wait_rel s a"
  shows "wait_step_ok (WqPoll p cx) s a"
proof (cases "map_of (wq_futures s) p = Some WaitPlain")
  case True
  have f: "aw_futures a = wq_futures s" using r by (simp add: wait_rel_def)
  let ?a = "abs_register p cx False a"
  obtain q' where q': "poll_wait p cx False id [] (wq_queue s) = Inr (if fst ?a then Pending else Ready (), q')"
    "abs_rel (fst ` set (wq_futures s)) q' (snd ?a)"
    by (rule register_ok [OF wait_relD [OF r] wait_futures_future [OF True]])
  then have "wait_rel (s\<lparr>wq_queue := q'\<rparr>) (snd ?a)" using r by (simp add: wait_rel_def)
  then show ?thesis unfolding wait_step_ok_def using True q'(1) f
    by (intro exI [of _ "s\<lparr>wq_queue := q'\<rparr>"]) (simp add: wait_poll_def wq_wait_result_def split_beta)
next
  case False
  then show ?thesis using r by (auto simp: wait_step_ok_def wait_rel_def split: option.splits wait_kind.splits)
qed

lemma poll_if_step:
  assumes r: "wait_rel s a"
  shows "wait_step_ok (WqPollIf p cx b) s a"
proof (cases "\<exists>armed. map_of (wq_futures s) p = Some (WaitIf armed)")
  case True
  then obtain armed where k: "map_of (wq_futures s) p = Some (WaitIf armed)" by blast
  have f: "aw_futures a = wq_futures s" "distinct (map fst (wq_futures s))" using r by (simp_all add: wait_rel_def)
  let ?a = "abs_register p cx False a"
  obtain q' where q': "poll_wait p cx False id [] (wq_queue s) = Inr (if fst ?a then Pending else Ready (), q')"
    "abs_rel (fst ` set (wq_futures s)) q' (snd ?a)"
    by (rule register_ok [OF wait_relD [OF r] wait_futures_future [OF k]])
  let ?s = "\<lparr>wq_queue = q', wq_futures = assign p (WaitIf (armed \<and> \<not> fst ?a)) (wq_futures s)\<rparr>"
  have same: "assign p (WaitIf armed) (wq_futures s) = wq_futures s" by (rule assign_same [OF k f(2)])
  have "wait_rel ?s (snd (wait_op_spec (WqPollIf p cx b) a))"
    using q'(2) f k same by (auto simp: wait_rel_def split_beta)
  then show ?thesis unfolding wait_step_ok_def
    by (intro exI [of _ ?s]) (use k q'(1) f in \<open>auto simp: wait_if_poll_def wq_wait_result_def split_beta simp del: not_None_eq\<close>)
next
  case False
  then show ?thesis using r by (auto simp: wait_step_ok_def wait_rel_def split: option.splits wait_kind.splits)
qed

lemma until_registers:
  assumes r: "wait_rel s a" and k: "map_of (wq_futures s) p = Some WaitUntil"
  obtains q' where "poll_wait p cx True id [] (wq_queue s) = Inr (if aw_closed a then Ready () else Pending, q')"
    "wait_rel (s\<lparr>wq_queue := q'\<rparr>) (snd (abs_register p cx True a))"
proof -
  let ?a = "abs_register p cx True a"
  obtain q' where q': "poll_wait p cx True id [] (wq_queue s) = Inr (if fst ?a then Pending else Ready (), q')"
    "abs_rel (fst ` set (wq_futures s)) q' (snd ?a)"
    by (rule register_ok [OF wait_relD [OF r] wait_futures_future [OF k]])
  moreover have "wait_rel (s\<lparr>wq_queue := q'\<rparr>) (snd ?a)" using q'(2) r by (simp add: wait_rel_def)
  moreover have "fst ?a \<longleftrightarrow> \<not> aw_closed a" using wait_queue_relD(10) [OF wait_relD [OF r]] by (cases "aw_waiting a") (auto simp: abs_register_def)
  ultimately show ?thesis by (intro that [of q']) simp_all
qed

lemma poll_until_step:
  assumes r: "wait_rel s a" and op: "wait_op_fault (WqPollUntil p cx first second) a = None"
  shows "wait_step_ok (WqPollUntil p cx first second) s a"
proof (cases "map_of (wq_futures s) p = Some WaitUntil")
  case True
  have f: "aw_futures a = wq_futures s" using r by (simp add: wait_rel_def)
  obtain q' where q': "poll_wait p cx True id [] (wq_queue s) = Inr (if aw_closed a then Ready () else Pending, q')"
    "wait_rel (s\<lparr>wq_queue := q'\<rparr>) (snd (abs_register p cx True a))"
    by (rule until_registers [OF r True])
  then show ?thesis unfolding wait_step_ok_def using True f r op
    by (cases first; cases second) (auto simp: wait_until_poll_def poll_cold_def)
next
  case False
  then show ?thesis using r by (auto simp: wait_step_ok_def wait_rel_def split: option.splits wait_kind.splits)
qed

lemma poll_until_panics:
  assumes r: "wait_rel s a" and op: "wait_op_fault op a = Some e"
  shows "wait_op_step op s = Inl e"
proof (cases op)
  case (WqPollUntil p cx first second)
  then have k: "map_of (wq_futures s) p = Some WaitUntil" and c: "aw_closed a" "first = None" "second = None" "e = Panic UNTIL_CLOSED"
    using op r by (auto simp: wait_rel_def split: if_splits)
  obtain q' where "poll_wait p cx True id [] (wq_queue s) = Inr (if aw_closed a then Ready () else Pending, q')"
    by (rule until_registers [OF r k])
  then show ?thesis using WqPollUntil k c by (simp add: wait_until_poll_def poll_cold_def)
qed (use op in simp_all)

lemma wait_drop_step:
  assumes r: "wait_rel s a"
  shows "wait_step_ok (WqDrop p) s a"
proof (cases "map_of (wq_futures s) p")
  case None
  then have n: "p \<notin> fst ` set (wq_futures s)" by (simp add: map_of_eq_None_iff)
  with wait_queue_relD(7,8) [OF wait_relD [OF r]] have "p \<notin> fst ` set (aw_waiting a)" "p \<notin> aw_notified a" by auto
  with None n show ?thesis using r by (auto simp: wait_step_ok_def wait_rel_def without_id)
next
  case (Some k)
  obtain q' where q': "node_drop usize_state p id (wq_queue s) = Inr q'"
    "wait_queue_rel (fst ` set (wq_futures s) - {p}) q' (aw_closed a) (without p (aw_waiting a)) (aw_notified a - {p})"
    by (rule drop_rel [OF wait_relD [OF r] wait_futures_future [OF Some]])
  let ?s = "\<lparr>wq_queue = q', wq_futures = without p (wq_futures s)\<rparr>"
  have "wait_rel ?s (snd (wait_op_spec (WqDrop p) a))" using q'(2) r by (simp add: wait_rel_def)
  then show ?thesis unfolding wait_step_ok_def by (intro exI [of _ ?s]) (use Some q'(1) in simp)
qed

lemma wq_log_step:
  assumes r: "wait_rel s a" and n: "notifies (fst ` set (wq_futures s)) a res (log, a')"
  shows "\<exists>s'. wq_log s res = Inr ((WqNothing, log), s') \<and> wait_rel s' a'"
proof -
  obtain q' where "res = Inr (log, q')" "abs_rel (fst ` set (wq_futures s)) q' a'" "aw_futures a' = aw_futures a"
    using n by (auto simp: notifies_def)
  then show ?thesis using r by (intro exI [of _ "s\<lparr>wq_queue := q'\<rparr>"]) (simp add: wq_log_def wait_rel_def)
qed

lemma notify_single_step:
  assumes r: "wait_rel s a"
  shows "wait_step_ok WqNotifyOne s a" "wait_step_ok WqNotifyLast s a"
proof -
  have e: "abs_notify_one a = ((WqNothing, snd (fst (abs_notify_one a))), snd (abs_notify_one a))"
    by (simp add: abs_notify_one_def split: list.split)
  show "wait_step_ok WqNotifyOne s a"
    using wq_log_step [OF r notify_one_notifies [OF wait_relD [OF r]]] e by (simp add: wait_step_ok_def) (metis fst_conv)
  show "wait_step_ok WqNotifyLast s a"
  proof (cases "aw_waiting a = []")
    case True
    then show ?thesis using notify_none(2) [OF wait_relD [OF r]] r by (simp add: wait_step_ok_def wq_log_def)
  next
    case False
    then show ?thesis using wq_log_step [OF r notify_last_notifies [OF wait_relD [OF r] False]] by (simp add: wait_step_ok_def)
  qed
qed


lemma notify_many_step:
  assumes r: "wait_rel s a"
  shows "wait_step_ok (WqNotifyMany n) s a" "wait_step_ok (WqNotifyManyConst n) s a"
proof -
  have many: "\<exists>s'. wq_log s (notify_many n id id [] (wq_queue s)) = Inr (fst (abs_notify_many (unat n) a), s')
      \<and> wait_rel s' (snd (abs_notify_many (unat n) a))"
    using wq_log_step [OF r notify_many_notifies [OF wait_relD [OF r]]] by (simp add: abs_notify_many_def)
  then show "wait_step_ok (WqNotifyMany n) s a" by (simp add: wait_step_ok_def)
  show "wait_step_ok (WqNotifyManyConst n) s a"
  proof (cases "n = 1")
    case True
    then show ?thesis using notify_single_step(1) [OF r] by (simp add: wait_step_ok_def notify_many_const_def)
  next
    case False
    then show ?thesis using many by (simp add: wait_step_ok_def notify_many_const_def notify_many_def)
  qed
qed

lemma drain_step:
  assumes r: "wait_rel s a"
  shows "wait_step_ok (WqNotifyAll d) s a" "wait_step_ok (WqClose d) s a"
proof -
  note rel = wait_relD [OF r] and n = keys_fewer [OF wait_queue_relD(9,7) [OF wait_relD [OF r]]]
  have f: "aw_futures a = wq_futures s" using r by (simp add: wait_rel_def)
  have g: "q_links (wq_queue s) d = None \<longleftrightarrow> d \<notin> fst ` set (wq_futures s)" by (rule wait_rel_free [OF rel])
  show "wait_step_ok (WqNotifyAll d) s a"
    using wq_log_step [OF r notify_all_notifies [OF rel _ _ n, of d]] r f g
    by (cases "node_addr d \<and> d \<notin> fst ` set (wq_futures s)") (auto simp: wait_step_ok_def)
  show "wait_step_ok (WqClose d) s a"
    using wq_log_step [OF r close_notifies [OF rel _ _ n, of d]] r f g
    by (cases "node_addr d \<and> d \<notin> fst ` set (wq_futures s)") (auto simp: wait_step_ok_def)
qed

lemma is_closed_step: "wait_rel s a \<Longrightarrow> wait_step_ok WqIsClosed s a"
  using wait_queue_relD(3) [OF wait_relD] by (simp add: wait_step_ok_def)

lemma wait_step_refines: "wait_rel s a \<Longrightarrow> wait_op_fault op a = None \<Longrightarrow> wait_step_ok op s a"
  by (cases op) (simp_all only: create_step wait_poll_step poll_if_step poll_until_step wait_drop_step notify_single_step
      notify_many_step drain_step is_closed_step)

lemma wait_new_start:
  obtains q where "wait_queue_new = Inr q" "wait_rel (wait_start q) abs_wait_start"
proof -
  have e: "wait_queue_new = Inr (new_impl 0)"
    by (simp add: wait_queue_new_def with_state_const_def state_to_ptr_def EMPTY_def)
  have t: "tail_to_enum usize_state 0 = State EMPTY" using usize_qs.null_is_state by (simp add: EMPTY_def)
  then have "queue_wf usize_state (new_impl 0 :: waiter queue) []"
    by (simp add: queue_wf_def queue_inv_def nodes_ok_def chain_def refs_def cell_def prev_of_def tail_node_def new_impl_def)
  then have "wait_queue_rel {} (new_impl 0) False [] {}"
    using t by (simp add: wait_queue_rel_def wait_queue_ok_def waiters_ok_def is_closed_def state_of_def)
      (simp add: new_impl_def node_states_def abs_states_def fun_eq_iff)
  then show ?thesis by (intro that [OF e]) (simp add: wait_rel_def wait_start_def abs_wait_start_def)
qed

section \<open>Wake-ups\<close>

text \<open>A call of the future at \<open>p\<close>, and one that polls it on behalf of the task \<open>cx\<close>.\<close>

fun polls :: "addr \<Rightarrow> waker \<Rightarrow> wait_op \<Rightarrow> bool" where
  "polls p cx (WqPoll x w) \<longleftrightarrow> x = p \<and> w = cx"
| "polls p cx (WqPollIf x w _) \<longleftrightarrow> x = p \<and> w = cx"
| "polls p cx (WqPollUntil x w _ _) \<longleftrightarrow> x = p \<and> w = cx"
| "polls p cx _ \<longleftrightarrow> False"

definition concerns :: "addr \<Rightarrow> wait_op \<Rightarrow> bool" where
  "concerns p op \<longleftrightarrow> (\<exists>cx. polls p cx op) \<or> op = WqDrop p"

text \<open>The task \<open>cx\<close> waits at \<open>p\<close>, or the future has been notified since.\<close>

definition wq_waits :: "addr \<Rightarrow> waker \<Rightarrow> abs_wait \<Rightarrow> bool \<Rightarrow> bool" where
  "wq_waits p cx a b \<longleftrightarrow> is_served (aw_waiting a) (aw_notified a) p cx b"

lemma many_wakes_tasks: "fst ` set (many_wakes n ws) = set (take n ws)"
proof -
  let ?m = "32 * (min n (length ws) div 32)"
  have "take ?m ws @ drop ?m (take n ws) = take n ws"
  proof -
    have "?m \<le> n" using div_times_less_eq_dividend [of "min n (length ws)" 32] by simp
    then have e: "take ?m ws = take ?m (take n ws)" by (simp add: min_absorb1)
    show ?thesis unfolding e by (rule append_take_drop_id)
  qed
  then have "map fst (many_wakes n ws) = take n ws" by (simp add: many_wakes_def Let_def o_def)
  then show ?thesis by (metis list.set_map)
qed

lemma wq_waits_notify:
  assumes "wq_waits p cx a b" and "distinct (map fst (aw_waiting a))" and "aw_waiting a = gone @ rest \<or> aw_waiting a = rest @ gone"
  shows "wq_waits p cx (abs_notify gone rest (a\<lparr>aw_closed := c\<rparr>)) (b \<or> cx \<in> snd ` set gone)"
    "wq_waits p cx (abs_notify gone rest a) (b \<or> cx \<in> snd ` set gone)"
  using assms served_take [of "aw_waiting a" "aw_notified a" p cx b gone rest "b \<or> cx \<in> snd ` set gone" "aw_notified a \<union> fst ` set gone"]
  by (simp_all add: wq_waits_def abs_notify_def)

lemma wq_waits_register: "wq_waits p cx a b \<Longrightarrow> x \<noteq> p \<Longrightarrow> wq_waits p cx (snd (abs_register x w requeue a)) b"
  by (auto simp: wq_waits_def abs_register_def served_other intro: served_mono)

lemma wq_waits_step:
  assumes s: "wq_waits p cx a b" and d: "distinct (map fst (aw_waiting a))" and op: "\<not> concerns p op"
  shows "wq_waits p cx (snd (wait_op_spec op a)) (b \<or> cx \<in> fst ` set (snd (fst (wait_op_spec op a))))"
proof (cases op)
  case (WqPoll x w)
  then have "x \<noteq> p" using op by (auto simp: concerns_def)
  from wq_waits_register [OF s this, of w False] s WqPoll show ?thesis
    by (simp add: split_beta split: option.split wait_kind.split)
next
  case (WqPollIf x w e)
  then have "x \<noteq> p" using op by (auto simp: concerns_def)
  from wq_waits_register [OF s this, of w False] s WqPollIf show ?thesis
    by (simp add: split_beta wq_waits_def split: option.split wait_kind.split)
next
  case (WqPollUntil x w r r')
  then have "x \<noteq> p" using op by (auto simp: concerns_def)
  from wq_waits_register [OF s this, of w True] s WqPollUntil show ?thesis
    by (simp split: option.split wait_kind.split)
next
  case (WqDrop x)
  then have "x \<noteq> p" using op by (auto simp: concerns_def)
  then show ?thesis using s WqDrop by (auto simp: wq_waits_def served_other intro: served_mono)
next
  case WqNotifyOne
  then show ?thesis using wq_waits_notify(2) [OF s d, of "[hd (aw_waiting a)]" "tl (aw_waiting a)"] s
    by (auto simp: abs_notify_one_def split: list.split)
next
  case WqNotifyLast
  then show ?thesis using wq_waits_notify(2) [OF s d, of "[last (aw_waiting a)]" "butlast (aw_waiting a)"] s by simp
next
  case (WqNotifyMany n)
  then show ?thesis using wq_waits_notify(2) [OF s d, of "take (unat n) (aw_waiting a)" "drop (unat n) (aw_waiting a)"]
    by (simp add: abs_notify_many_def many_wakes_tasks take_map)
next
  case (WqNotifyManyConst n)
  then show ?thesis using wq_waits_notify(2) [OF s d, of "take (unat n) (aw_waiting a)" "drop (unat n) (aw_waiting a)"]
      wq_waits_notify(2) [OF s d, of "[hd (aw_waiting a)]" "tl (aw_waiting a)"] s
    by (auto simp: abs_notify_many_def many_wakes_tasks take_map abs_notify_one_def split: list.split)
next
  case (WqNotifyAll x)
  then show ?thesis using wq_waits_notify(2) [OF s d, of "aw_waiting a" "[]"] s by (simp add: image_image split_beta)
next
  case (WqClose x)
  then show ?thesis using wq_waits_notify(1) [OF s d, of "aw_waiting a" "[]" True] s by (simp add: image_image split_beta)
qed (use s in \<open>auto simp: abs_create_def wq_waits_def\<close>)

text \<open>A poll that is pending has registered its task.\<close>

lemma register_waits:
  "distinct (map fst (aw_waiting a)) \<Longrightarrow> fst (abs_register p cx requeue a) \<Longrightarrow> wq_waits p cx (snd (abs_register p cx requeue a)) False"
  using assign_mem [of p "aw_waiting a" cx] by (auto simp: abs_register_def wq_waits_def is_served_def split: if_splits)

lemma wq_pending:
  assumes d: "distinct (map fst (aw_waiting a))" and n: "wait_op_fault op a = None" and op: "polls p cx op"
    and r: "fst (fst (wait_op_spec op a)) = WqPending"
  shows "wq_waits p cx (snd (wait_op_spec op a)) False"
proof (cases op)
  case (WqPoll x w)
  then show ?thesis using op r register_waits [OF d, of p cx False]
    by (simp add: split_beta wq_wait_result_def split: option.splits wait_kind.splits if_splits)
next
  case (WqPollIf x w b)
  then show ?thesis using op r register_waits [OF d, of p cx False]
    by (simp add: split_beta wq_wait_result_def wq_waits_def split: option.splits wait_kind.splits if_splits)
next
  case (WqPollUntil x w first second)
  then have f: "map_of (aw_futures a) p = Some WaitUntil" "first = None" "second = None" "\<not> aw_closed a"
    using op r n by (simp_all split: option.splits wait_kind.splits if_splits)
  then have "fst (abs_register p cx True a)" by (simp add: abs_register_def)
  then show ?thesis using WqPollUntil op f register_waits [OF d, of p cx True] by simp
qed (use op in simp_all)

interpretation waiters: waking wait_rel wait_op_step wait_op_spec wait_op_fault wq_waits polls concerns WqPending
proof
  fix s a op
  assume r: "wait_rel s a"
  show "wait_op_fault op a = None \<Longrightarrow> \<exists>s'. wait_op_step op s = Inr (fst (wait_op_spec op a), s') \<and> wait_rel s' (snd (wait_op_spec op a))"
    using wait_step_refines [OF r] by (simp add: wait_step_ok_def)
  show "wait_op_fault op a = Some e \<Longrightarrow> wait_op_step op s = Inl e" for e
    by (rule poll_until_panics [OF r])
  fix p cx
  note d = wait_queue_relD(9) [OF wait_relD [OF r]]
  show "wait_op_fault op a = None \<Longrightarrow> polls p cx op \<Longrightarrow> fst (fst (wait_op_spec op a)) = WqPending \<Longrightarrow> wq_waits p cx (snd (wait_op_spec op a)) False"
    by (rule wq_pending [OF d])
  show "wq_waits p cx a b \<Longrightarrow> \<not> concerns p op \<Longrightarrow> wq_waits p cx (snd (wait_op_spec op a)) (b \<or> cx \<in> fst ` set (snd (fst (wait_op_spec op a))))" for b
    using wq_waits_step [OF _ d] .
qed

section \<open>Properties\<close>

text \<open>
  C4. A wait queue is a list of waiters: whatever sequence of calls its clients make on a new queue
  (futures of the three kinds created, polled by any task and dropped in any state, notifications of
  one, the last, many or all waiters, closing), the calls give the results and wake the tasks that the
  abstract queue does, in the same order and with the lock held exactly where the abstract one says so.
  The one call that does not return is the poll of a \<^verbatim>\<open>WaitUntil\<close> on a closed queue whose
  predicate returns nothing: it panics, which ends the run on both sides (\<open>wait_op_fault\<close>).
\<close>

theorem wait_queue_refines_list:
  "\<exists>q. wait_queue_new = Inr q \<and>
    outcome (run_impl wait_op_step ops (wait_start q)) = outcome (run_impl (faulty wait_op_fault wait_op_spec) ops abs_wait_start)"
proof -
  obtain q where q: "wait_queue_new = Inr q" "wait_rel (wait_start q) abs_wait_start" by (rule wait_new_start)
  with waiters.run_outcome [OF q(2), of ops] show ?thesis by blast
qed

text \<open>
  C5. No wake-up is lost: after a poll of the future at \<open>p\<close> has returned
  \<^verbatim>\<open>Pending\<close> to the task \<open>cx\<close>, and as long as the future is not polled again
  or dropped, whatever the other clients do, its node is queued with the waker of \<open>cx\<close>, or
  it has been dequeued and \<open>cx\<close> was woken since that poll.
\<close>

theorem wait_no_lost_wakeup:
  assumes "wait_queue_new = Inr q" and "run_impl wait_op_step (before @ op # after) (wait_start q) = Inr (outs, s)"
    and "polls p cx op" and "fst (outs ! length before) = WqPending" and "\<forall>x\<in>set after. \<not> concerns p x"
  shows "node_states (wq_queue s) p = Some Queued \<and> waker_of (wq_queue s) p = cx
    \<or> node_states (wq_queue s) p = Some Dequeued \<and> cx \<in> woken (drop (Suc (length before)) outs)"
proof -
  have "wait_rel (wait_start q) abs_wait_start" using assms(1) by (metis wait_new_start sum.inject(2))
  then obtain a where a: "wait_rel s a" "wq_waits p cx a (cx \<in> woken (drop (Suc (length before)) outs))"
    by (rule waiters.no_lost_wakeup [OF _ assms(2-5)])
  note d = wait_queue_relD [OF wait_relD [OF a(1)]]
  have "waker_of (wq_queue s) (fst x) = snd x" if "x \<in> set (aw_waiting a)" for x
    using d(4) that by (auto simp: map_eq_conv [of "waker_of (wq_queue s) \<circ> fst" "aw_waiting a" snd, unfolded o_def])
  with a(2) show ?thesis by (force simp: wq_waits_def is_served_def d(5) abs_states_def)
qed

text \<open>
  A future registers, a second one as well; the first is notified. The first task has been woken, the
  second one is still registered.
\<close>

theorem wait_no_lost_wakeup_witness:
  "\<exists>q outs s. wait_queue_new = Inr q
    \<and> run_impl wait_op_step ([WqWait 4096] @ WqPoll 4096 9 # [WqWait 8192, WqPoll 8192 7, WqNotifyOne]) (wait_start q) = Inr (outs, s)
    \<and> (node_states (wq_queue s) 4096 = Some Queued \<and> waker_of (wq_queue s) 4096 = 9
      \<or> node_states (wq_queue s) 4096 = Some Dequeued \<and> 9 \<in> woken (drop 2 outs))"
proof -
  let ?ops = "[WqWait 4096] @ WqPoll 4096 9 # [WqWait 8192, WqPoll 8192 7, WqNotifyOne]"
  obtain q where q: "wait_queue_new = Inr q" "wait_rel (wait_start q) abs_wait_start" by (rule wait_new_start)
  have "\<exists>outs a. run_impl (faulty wait_op_fault wait_op_spec) ?ops abs_wait_start = Inr (outs, a) \<and> fst (outs ! length [WqWait 4096]) = WqPending"
    by (simp add: faulty_def abs_wait_start_def abs_create_def abs_register_def abs_notify_one_def example_addrs wq_wait_result_def Let_def split_beta)
  then obtain outs s where s: "run_impl wait_op_step ?ops (wait_start q) = Inr (outs, s)" "fst (outs ! length [WqWait 4096]) = WqPending"
    using waiters.run_succeeds [OF q(2)] by blast
  moreover have "polls 4096 9 (WqPoll 4096 9)" "\<forall>x\<in>set [WqWait 8192, WqPoll 8192 7, WqNotifyOne]. \<not> concerns 4096 x"
    by (simp_all add: concerns_def)
  moreover have two: "Suc (length [WqWait 4096]) = 2" by simp
  ultimately show ?thesis using wait_no_lost_wakeup [OF q(1) s(1), unfolded two] q(1) s by blast
qed

end
