(* ===== verification/Sync.thy ===== *)
theory Sync
  imports Aiq_Prelude
begin

text \<open>
  \<^verbatim>\<open>src/sync\<close>: the mutex and the parker that a queue is built on. Each is a machine
  of threads that take atomic steps in any order, sequentially consistent: a thread's program
  counter says which atomic access it does next. The contracts of the two traits are locales.
\<close>

section \<open>Constants\<close>

definition SPIN_BEFORE_PARK :: usize where "SPIN_BEFORE_PARK = 100"

definition SpinParker_NEVER_BLOCKS :: bool where "SpinParker_NEVER_BLOCKS = True"

definition StdParker_NEVER_BLOCKS :: bool where "StdParker_NEVER_BLOCKS = False"

section \<open>Contracts\<close>

text \<open>The trait \<^verbatim>\<open>Mutex\<close> promises that two threads never hold the lock together.\<close>

locale mutex_contract =
  fixes init :: "'s \<Rightarrow> bool" and step :: "'s \<Rightarrow> 's \<Rightarrow> bool" and holds :: "nat \<Rightarrow> 's \<Rightarrow> bool"
  assumes exclusive: "reach init step s \<Longrightarrow> holds t s \<Longrightarrow> holds u s \<Longrightarrow> t = u"
begin

lemma at_most_one: "reach init step s \<Longrightarrow> \<exists>t. {u. holds u s} \<subseteq> {t}"
  using exclusive by blast

end

text \<open>
  The trait \<^verbatim>\<open>Parker\<close>, as the queue uses it: \<^verbatim>\<open>park\<close> returns only by
  consuming a token that an \<^verbatim>\<open>unpark\<close> left, and a thread that sleeps although a token is
  there is about to be woken.
\<close>

locale parker_contract =
  fixes init :: "'s \<Rightarrow> bool" and step :: "'s \<Rightarrow> 's \<Rightarrow> bool" and asleep token waking :: "'s \<Rightarrow> bool"
    and returned unparked :: "'s \<Rightarrow> nat"
  assumes no_lost_wakeup: "reach init step s \<Longrightarrow> asleep s \<Longrightarrow> token s \<Longrightarrow> waking s"
    and no_free_return: "reach init step s \<Longrightarrow> returned s + (if token s then 1 else 0) \<le> unparked s"
begin

lemma returned_le: "reach init step s \<Longrightarrow> returned s \<le> unparked s"
  using no_free_return [of s] by simp

lemma quiet_asleep: "reach init step s \<Longrightarrow> asleep s \<Longrightarrow> \<not> waking s \<Longrightarrow> \<not> token s"
  using no_lost_wakeup by blast

end

section \<open>SpinMutex\<close>

datatype spin_pc = SpinIdle | SpinSwap | SpinLoad | SpinHeld

record spin_mutex =
  sm_flag :: bool
  sm_pc :: "nat \<Rightarrow> spin_pc"

definition spin_init :: "spin_mutex \<Rightarrow> bool" where
  "spin_init s \<longleftrightarrow> \<not> sm_flag s \<and> sm_pc s = (\<lambda>_. SpinIdle)"

definition spin_lock_call :: "nat \<Rightarrow> spin_mutex \<Rightarrow> spin_mutex" where
  "spin_lock_call t s = (if sm_pc s t = SpinIdle then s\<lparr>sm_pc := (sm_pc s)(t := SpinSwap)\<rparr> else s)"

definition spin_lock_step :: "nat \<Rightarrow> spin_mutex \<Rightarrow> spin_mutex" where
  "spin_lock_step t s =
     (case sm_pc s t of
        SpinSwap \<Rightarrow> s\<lparr>sm_flag := True, sm_pc := (sm_pc s)(t := if sm_flag s then SpinLoad else SpinHeld)\<rparr>
      | SpinLoad \<Rightarrow> if \<not> sm_flag s then s else s\<lparr>sm_pc := (sm_pc s)(t := SpinSwap)\<rparr>
      | _ \<Rightarrow> s)"

definition spin_unlock :: "nat \<Rightarrow> spin_mutex \<Rightarrow> spin_mutex" where
  "spin_unlock t s =
     (if sm_pc s t = SpinHeld then s\<lparr>sm_flag := False, sm_pc := (sm_pc s)(t := SpinIdle)\<rparr> else s)"

inductive spin_step :: "spin_mutex \<Rightarrow> spin_mutex \<Rightarrow> bool" where
  "spin_step s (spin_lock_call t s)"
| "spin_step s (spin_lock_step t s)"
| "spin_step s (spin_unlock t s)"

definition spin_inv :: "spin_mutex \<Rightarrow> bool" where
  "spin_inv s \<longleftrightarrow> (\<forall>t. sm_pc s t = SpinHeld \<longrightarrow> sm_flag s)
     \<and> (\<forall>t u. sm_pc s t = SpinHeld \<longrightarrow> sm_pc s u = SpinHeld \<longrightarrow> t = u)"

lemmas spin_defs = spin_init_def spin_lock_call_def spin_lock_step_def spin_unlock_def spin_inv_def

interpretation spin_machine: invariant_of spin_init spin_step spin_inv
proof
  show "spin_init s \<Longrightarrow> spin_inv s" for s by (simp add: spin_defs)
  show "spin_inv s \<Longrightarrow> spin_step s s' \<Longrightarrow> spin_inv s'" for s s'
    by (erule spin_step.cases) (auto simp: spin_defs split: spin_pc.splits if_splits)
qed

interpretation spin_mutex: mutex_contract spin_init spin_step "\<lambda>t s. sm_pc s t = SpinHeld"
  by unfold_locales (auto dest!: spin_machine.reach_inv simp: spin_inv_def)

section \<open>StdParker\<close>

definition StdParker_EMPTY :: usize where "StdParker_EMPTY = 0"
definition StdParker_NOTIFIED :: usize where "StdParker_NOTIFIED = 1"
definition StdParker_PARKED :: usize where "StdParker_PARKED = - 1"

lemma std_parker_states [simp]:
  "StdParker_EMPTY \<noteq> StdParker_NOTIFIED" "StdParker_NOTIFIED \<noteq> StdParker_EMPTY"
  "StdParker_PARKED \<noteq> StdParker_NOTIFIED" "StdParker_NOTIFIED \<noteq> StdParker_PARKED"
  "StdParker_PARKED \<noteq> StdParker_EMPTY" "StdParker_EMPTY \<noteq> StdParker_PARKED"
  "StdParker_EMPTY - 1 = StdParker_PARKED" "StdParker_NOTIFIED - 1 = StdParker_EMPTY"
  by (simp_all add: StdParker_EMPTY_def StdParker_NOTIFIED_def StdParker_PARKED_def)

text \<open>
  One thread parks (the contract of \<^verbatim>\<open>park\<close>), any number of threads unpark.
  \<open>ParkLock\<close> waits for the mutex, \<open>ParkCheck\<close> evaluates the condition of
  \<^verbatim>\<open>wait_while\<close>, \<open>ParkWait\<close> is about to wait on the condition variable, which
  releases the mutex and falls asleep in one step. The ghost counters count the calls of
  \<^verbatim>\<open>unpark\<close> and the returns of \<^verbatim>\<open>park\<close>.
\<close>

datatype holder = ByParker | ByUnparker nat
datatype park_pc = ParkIdle | ParkLock | ParkCheck | ParkWait | ParkAsleep
datatype unpark_pc = UnparkIdle | UnparkLock | UnparkHold | UnparkNotify

record std_parker =
  sp_state :: usize
  sp_mutex :: "holder option"
  sp_park :: park_pc
  sp_unpark :: "nat \<Rightarrow> unpark_pc"
  sp_returned :: nat
  sp_unparked :: nat

definition std_parker_init :: "std_parker \<Rightarrow> bool" where
  "std_parker_init s \<longleftrightarrow> sp_state s = StdParker_EMPTY \<and> sp_mutex s = None \<and> sp_park s = ParkIdle
     \<and> sp_unpark s = (\<lambda>_. UnparkIdle) \<and> sp_returned s = 0 \<and> sp_unparked s = 0"

definition park_step :: "std_parker \<Rightarrow> std_parker" where
  "park_step s =
     (case sp_park s of
        ParkIdle \<Rightarrow>
          if sp_state s = StdParker_NOTIFIED
          then s\<lparr>sp_state := sp_state s - 1, sp_returned := Suc (sp_returned s)\<rparr>
          else s\<lparr>sp_state := sp_state s - 1, sp_park := ParkLock\<rparr>
      | ParkLock \<Rightarrow> if sp_mutex s = None then s\<lparr>sp_mutex := Some ByParker, sp_park := ParkCheck\<rparr> else s
      | ParkCheck \<Rightarrow>
          if sp_state s = StdParker_NOTIFIED
          then s\<lparr>sp_state := StdParker_EMPTY, sp_mutex := None, sp_park := ParkIdle,
                 sp_returned := Suc (sp_returned s)\<rparr>
          else s\<lparr>sp_park := ParkWait\<rparr>
      | ParkWait \<Rightarrow> s\<lparr>sp_mutex := None, sp_park := ParkAsleep\<rparr>
      | ParkAsleep \<Rightarrow> s)"

definition spurious_wakeup :: "std_parker \<Rightarrow> std_parker" where
  "spurious_wakeup s = (if sp_park s = ParkAsleep then s\<lparr>sp_park := ParkLock\<rparr> else s)"

definition unpark_step :: "nat \<Rightarrow> std_parker \<Rightarrow> std_parker" where
  "unpark_step i s =
     (case sp_unpark s i of
        UnparkIdle \<Rightarrow>
          s\<lparr>sp_state := StdParker_NOTIFIED, sp_unparked := Suc (sp_unparked s),
            sp_unpark := (sp_unpark s)(i := if sp_state s = StdParker_PARKED then UnparkLock else UnparkIdle)\<rparr>
      | UnparkLock \<Rightarrow>
          if sp_mutex s = None
          then s\<lparr>sp_mutex := Some (ByUnparker i), sp_unpark := (sp_unpark s)(i := UnparkHold)\<rparr> else s
      | UnparkHold \<Rightarrow> s\<lparr>sp_mutex := None, sp_unpark := (sp_unpark s)(i := UnparkNotify)\<rparr>
      | UnparkNotify \<Rightarrow> (spurious_wakeup s)\<lparr>sp_unpark := (sp_unpark s)(i := UnparkIdle)\<rparr>)"

inductive std_parker_step :: "std_parker \<Rightarrow> std_parker \<Rightarrow> bool" where
  std_park: "std_parker_step s (park_step s)"
| std_unpark: "std_parker_step s (unpark_step i s)"
| std_spurious: "std_parker_step s (spurious_wakeup s)"

definition std_parker_inv :: "std_parker \<Rightarrow> bool" where
  "std_parker_inv s \<longleftrightarrow>
     (if sp_park s = ParkIdle then sp_state s = StdParker_EMPTY \<or> sp_state s = StdParker_NOTIFIED
      else sp_state s = StdParker_PARKED \<or> sp_state s = StdParker_NOTIFIED)
   \<and> (sp_mutex s = Some ByParker \<longleftrightarrow> sp_park s = ParkCheck \<or> sp_park s = ParkWait)
   \<and> (\<forall>i. sp_mutex s = Some (ByUnparker i) \<longleftrightarrow> sp_unpark s i = UnparkHold)
   \<and> (sp_park s = ParkWait \<longrightarrow> sp_state s = StdParker_NOTIFIED \<longrightarrow> (\<exists>i. sp_unpark s i = UnparkLock))
   \<and> (sp_park s = ParkAsleep \<longrightarrow> sp_state s = StdParker_NOTIFIED \<longrightarrow> (\<exists>i. sp_unpark s i \<noteq> UnparkIdle))
   \<and> sp_returned s + (if sp_state s = StdParker_NOTIFIED then 1 else 0) \<le> sp_unparked s"

lemma spurious_wakeup_simps [simp]:
  "sp_state (spurious_wakeup s) = sp_state s" "sp_mutex (spurious_wakeup s) = sp_mutex s"
  "sp_unpark (spurious_wakeup s) = sp_unpark s" "sp_returned (spurious_wakeup s) = sp_returned s"
  "sp_unparked (spurious_wakeup s) = sp_unparked s"
  by (simp_all add: spurious_wakeup_def)

lemma unpark_not_idle: "f i = UnparkLock \<Longrightarrow> \<exists>i. f i \<noteq> UnparkIdle"
  by (metis unpark_pc.distinct(1))

lemma park_step_inv: "std_parker_inv s \<Longrightarrow> std_parker_inv (park_step s)"
  by (cases "sp_park s") (auto simp: std_parker_inv_def park_step_def dest: unpark_not_idle split: if_splits)

lemma spurious_inv: "std_parker_inv s \<Longrightarrow> std_parker_inv (spurious_wakeup s)"
  by (auto simp: std_parker_inv_def spurious_wakeup_def)

lemma unpark_step_inv:
  assumes inv: "std_parker_inv s"
  shows "std_parker_inv (unpark_step i s)"
proof (cases "sp_unpark s i")
  case UnparkIdle
  with inv show ?thesis
    by (cases "sp_park s") (auto simp: std_parker_inv_def unpark_step_def, metis unpark_pc.distinct(1))
next
  case UnparkLock
  have "std_parker_inv (s\<lparr>sp_mutex := Some (ByUnparker i), sp_unpark := (sp_unpark s)(i := UnparkHold)\<rparr>)"
    if "sp_mutex s = None"
    using inv that unfolding std_parker_inv_def by (auto split: if_splits)
  with inv UnparkLock show ?thesis by (simp add: unpark_step_def)
next
  case UnparkHold
  then have m: "sp_mutex s = Some (ByUnparker i)" using inv by (simp add: std_parker_inv_def)
  have uniq: "sp_unpark s j = UnparkHold \<longleftrightarrow> j = i" for j
  proof -
    have "sp_unpark s j = UnparkHold \<longleftrightarrow> sp_mutex s = Some (ByUnparker j)" using inv by (simp add: std_parker_inv_def)
    also have "\<dots> \<longleftrightarrow> j = i" using m by auto
    finally show ?thesis .
  qed
  have hold: "((sp_unpark s)(i := UnparkNotify)) j \<noteq> UnparkHold" for j using uniq by simp
  have pc: "sp_park s \<noteq> ParkCheck" "sp_park s \<noteq> ParkWait" using inv m by (auto simp: std_parker_inv_def)
  have awk: "\<exists>j. ((sp_unpark s)(i := UnparkNotify)) j \<noteq> UnparkIdle" by (rule exI [of _ i]) simp
  have rest: "if sp_park s = ParkIdle then sp_state s = StdParker_EMPTY \<or> sp_state s = StdParker_NOTIFIED
      else sp_state s = StdParker_PARKED \<or> sp_state s = StdParker_NOTIFIED"
    "sp_returned s + (if sp_state s = StdParker_NOTIFIED then 1 else 0) \<le> sp_unparked s"
    using inv by (simp_all add: std_parker_inv_def)
  show ?thesis using hold pc awk rest
    by (simp add: std_parker_inv_def unpark_step_def UnparkHold)
next
  case UnparkNotify
  have hold: "((sp_unpark s)(i := UnparkIdle)) j = UnparkHold \<longleftrightarrow> sp_unpark s j = UnparkHold" for j
    using UnparkNotify by simp
  have lock: "(\<exists>j. ((sp_unpark s)(i := UnparkIdle)) j = UnparkLock) \<longleftrightarrow> (\<exists>j. sp_unpark s j = UnparkLock)"
    using UnparkNotify by (metis fun_upd_apply unpark_pc.distinct(1,9))
  have awake: "sp_park (spurious_wakeup s) \<noteq> ParkAsleep" by (simp add: spurious_wakeup_def)
  from inv have "std_parker_inv (spurious_wakeup s)" by (rule spurious_inv)
  with awake hold lock show ?thesis
    by (simp add: std_parker_inv_def unpark_step_def UnparkNotify split: if_splits)
qed

interpretation std_parker_machine: invariant_of std_parker_init std_parker_step std_parker_inv
proof
  show "std_parker_init s \<Longrightarrow> std_parker_inv s" for s by (simp add: std_parker_init_def std_parker_inv_def)
  show "std_parker_inv s \<Longrightarrow> std_parker_step s s' \<Longrightarrow> std_parker_inv s'" for s s'
    by (erule std_parker_step.cases) (auto intro: park_step_inv unpark_step_inv spurious_inv)
qed

interpretation std_parker: parker_contract std_parker_init std_parker_step
  "\<lambda>s. sp_park s = ParkAsleep" "\<lambda>s. sp_state s = StdParker_NOTIFIED"
  "\<lambda>s. \<exists>i. sp_unpark s i \<noteq> UnparkIdle" sp_returned sp_unparked
  by unfold_locales (auto dest!: std_parker_machine.reach_inv simp: std_parker_inv_def)

lemma std_parker_holder:
  "std_parker_inv s \<Longrightarrow> sp_mutex s = Some (ByUnparker i) \<longleftrightarrow> sp_unpark s i = UnparkHold"
  unfolding std_parker_inv_def by blast

text \<open>
  From every state with a token the parked thread can get out, by finitely many steps of the threads
  involved. First the mutex is set free, then a waking thread is run to its end if one is needed.
\<close>

abbreviation std_parker_steps :: "std_parker \<Rightarrow> std_parker \<Rightarrow> bool" where
  "std_parker_steps \<equiv> std_parker_step\<^sup>*\<^sup>*"

lemma park_steps: "std_parker_steps (park_step s) s' \<Longrightarrow> std_parker_steps s s'"
  and unpark_steps: "std_parker_steps (unpark_step i s) s' \<Longrightarrow> std_parker_steps s s'"
  by (auto intro: converse_rtranclp_into_rtranclp std_parker_step.intros)

lemma exit_from_check:
  assumes "sp_park s = ParkCheck" "sp_state s = StdParker_NOTIFIED"
  shows "\<exists>s'. std_parker_steps s s' \<and> sp_park s' = ParkIdle \<and> sp_returned s' = Suc (sp_returned s)"
  using assms park_steps [of s "park_step s"]
  by (intro exI [of _ "park_step s"]) (auto simp: park_step_def)

lemma exit_from_lock_free:
  assumes "sp_park s = ParkLock" "sp_state s = StdParker_NOTIFIED" "sp_mutex s = None"
  shows "\<exists>s'. std_parker_steps s s' \<and> sp_park s' = ParkIdle \<and> sp_returned s' = Suc (sp_returned s)"
proof -
  have "sp_park (park_step s) = ParkCheck" "sp_state (park_step s) = StdParker_NOTIFIED"
    "sp_returned (park_step s) = sp_returned s"
    using assms by (simp_all add: park_step_def)
  then show ?thesis using exit_from_check [of "park_step s"] park_steps by metis
qed

lemma free_mutex:
  assumes inv: "std_parker_inv s" and pc: "sp_park s \<noteq> ParkCheck" "sp_park s \<noteq> ParkWait"
  obtains s' where "std_parker_steps s s'" "std_parker_inv s'" "sp_mutex s' = None" "sp_park s' = sp_park s"
    "sp_state s' = sp_state s" "sp_returned s' = sp_returned s"
proof (cases "sp_mutex s")
  case None
  with inv that [of s] show ?thesis by simp
next
  case (Some h)
  have "h \<noteq> ByParker" using inv pc Some by (auto simp: std_parker_inv_def)
  then obtain i where i: "sp_mutex s = Some (ByUnparker i)" using Some by (cases h) auto
  then have u: "sp_unpark s i = UnparkHold" using std_parker_holder [OF inv] by blast
  have "std_parker_steps s (unpark_step i s)" by (rule unpark_steps [of i]) simp
  moreover have "sp_mutex (unpark_step i s) = None" "sp_park (unpark_step i s) = sp_park s"
    "sp_state (unpark_step i s) = sp_state s" "sp_returned (unpark_step i s) = sp_returned s"
    using u by (simp_all add: unpark_step_def)
  ultimately show ?thesis using that unpark_step_inv [OF inv, of i] by blast
qed

lemma exit_from_lock:
  assumes inv: "std_parker_inv s" and s: "sp_park s = ParkLock" "sp_state s = StdParker_NOTIFIED"
  shows "\<exists>s'. std_parker_steps s s' \<and> sp_park s' = ParkIdle \<and> sp_returned s' = Suc (sp_returned s)"
proof -
  have "sp_park s \<noteq> ParkCheck" "sp_park s \<noteq> ParkWait" using s by simp_all
  with inv obtain s1 where s1: "std_parker_steps s s1" "sp_mutex s1 = None" "sp_park s1 = sp_park s"
    "sp_state s1 = sp_state s" "sp_returned s1 = sp_returned s" by (rule free_mutex)
  have "sp_park s1 = ParkLock" "sp_state s1 = StdParker_NOTIFIED" using s s1 by simp_all
  with exit_from_lock_free s1(2) obtain s' where "std_parker_steps s1 s'" "sp_park s' = ParkIdle"
    "sp_returned s' = Suc (sp_returned s1)" by blast
  with s1 show ?thesis using rtranclp_trans [of std_parker_step s s1 s'] by auto
qed

lemma exit_from_asleep:
  assumes inv: "std_parker_inv s" and s: "sp_park s = ParkAsleep" "sp_state s = StdParker_NOTIFIED"
  shows "\<exists>s'. std_parker_steps s s' \<and> sp_park s' = ParkIdle \<and> sp_returned s' = Suc (sp_returned s)"
proof -
  have notify: "\<exists>s'. std_parker_steps r s' \<and> sp_park s' = ParkIdle \<and> sp_returned s' = Suc (sp_returned r)"
    if r: "std_parker_inv r" "sp_park r = ParkAsleep" "sp_state r = StdParker_NOTIFIED" "sp_unpark r i = UnparkNotify" for r i
  proof -
    have "sp_park (unpark_step i r) = ParkLock" "sp_state (unpark_step i r) = StdParker_NOTIFIED"
      "sp_returned (unpark_step i r) = sp_returned r"
      using r by (simp_all add: unpark_step_def spurious_wakeup_def)
    then show ?thesis using exit_from_lock [OF unpark_step_inv [OF r(1), of i]] unpark_steps by metis
  qed
  have hold: "\<exists>s'. std_parker_steps r s' \<and> sp_park s' = ParkIdle \<and> sp_returned s' = Suc (sp_returned r)"
    if r: "std_parker_inv r" "sp_park r = ParkAsleep" "sp_state r = StdParker_NOTIFIED" "sp_unpark r i = UnparkHold" for r i
  proof -
    have "sp_park (unpark_step i r) = ParkAsleep" "sp_state (unpark_step i r) = StdParker_NOTIFIED"
      "sp_unpark (unpark_step i r) i = UnparkNotify" "sp_returned (unpark_step i r) = sp_returned r"
      using r by (simp_all add: unpark_step_def)
    then show ?thesis using notify [OF unpark_step_inv [OF r(1), of i]] unpark_steps by metis
  qed
  have lock: "\<exists>s'. std_parker_steps r s' \<and> sp_park s' = ParkIdle \<and> sp_returned s' = Suc (sp_returned r)"
    if r: "std_parker_inv r" "sp_park r = ParkAsleep" "sp_state r = StdParker_NOTIFIED" "sp_unpark r i = UnparkLock"
      "sp_mutex r = None" for r i
  proof -
    have "sp_park (unpark_step i r) = ParkAsleep" "sp_state (unpark_step i r) = StdParker_NOTIFIED"
      "sp_unpark (unpark_step i r) i = UnparkHold" "sp_returned (unpark_step i r) = sp_returned r"
      using r by (simp_all add: unpark_step_def)
    then show ?thesis using hold [OF unpark_step_inv [OF r(1), of i]] unpark_steps by metis
  qed
  obtain i where i: "sp_unpark s i \<noteq> UnparkIdle" using inv s by (auto simp: std_parker_inv_def)
  show ?thesis
  proof (cases "sp_mutex s")
    case None
    then have "sp_unpark s i \<noteq> UnparkHold" using std_parker_holder [OF inv, of i] by simp
    with i lock [OF inv s _ None] notify [OF inv s] show ?thesis by (cases "sp_unpark s i") auto
  next
    case (Some h)
    then obtain j where "sp_mutex s = Some (ByUnparker j)" using inv s by (cases h) (auto simp: std_parker_inv_def)
    then have "sp_unpark s j = UnparkHold" using std_parker_holder [OF inv] by blast
    with hold [OF inv s] show ?thesis by blast
  qed
qed

lemma parked_can_exit:
  assumes inv: "std_parker_inv s" and s: "sp_park s \<noteq> ParkIdle" "sp_state s = StdParker_NOTIFIED"
  shows "\<exists>s'. std_parker_steps s s' \<and> sp_park s' = ParkIdle \<and> sp_returned s' = Suc (sp_returned s)"
proof (cases "sp_park s")
  case ParkWait
  have "sp_park (park_step s) = ParkAsleep" "sp_state (park_step s) = StdParker_NOTIFIED"
    "sp_returned (park_step s) = sp_returned s"
    using ParkWait s by (simp_all add: park_step_def)
  then show ?thesis using exit_from_asleep [OF park_step_inv [OF inv]] park_steps by metis
qed (use inv s exit_from_lock exit_from_check exit_from_asleep in auto)

section \<open>LazyBox\<close>

text \<open>
  The lazily allocated box behind the pthread primitives: the pointer and the boxes on the heap.
  Between the load and the exchange other threads may install a box of their own (\<open>gap\<close>).
\<close>

record lazy_box =
  lb_ptr :: addr
  lb_boxes :: "addr set"

definition lazy_box_new :: lazy_box where
  "lazy_box_new = \<lparr>lb_ptr = 0, lb_boxes = {}\<rparr>"

definition lazy_init :: "addr \<Rightarrow> (lazy_box \<Rightarrow> lazy_box) \<Rightarrow> lazy_box \<Rightarrow> (addr \<times> lazy_box) res" where
  "lazy_init new_ptr gap b =
     (let b = gap (b\<lparr>lb_boxes := insert new_ptr (lb_boxes b)\<rparr>) in
      if lb_ptr b \<noteq> 0
      then let ptr = lb_ptr b in Inr (ptr, b\<lparr>lb_boxes := lb_boxes b - {new_ptr}\<rparr>)
      else Inr (new_ptr, b\<lparr>lb_ptr := new_ptr\<rparr>))"

definition lazy_get_or_init :: "addr \<Rightarrow> (lazy_box \<Rightarrow> lazy_box) \<Rightarrow> lazy_box \<Rightarrow> (addr \<times> lazy_box) res" where
  "lazy_get_or_init new_ptr gap b = (if lb_ptr b \<noteq> 0 then Inr (lb_ptr b, b) else lazy_init new_ptr gap b)"

definition lazy_box_drop :: "lazy_box \<Rightarrow> lazy_box" where
  "lazy_box_drop b = (if lb_ptr b \<noteq> 0 then b\<lparr>lb_boxes := lb_boxes b - {lb_ptr b}\<rparr> else b)"

definition lazy_box_ok :: "addr set \<Rightarrow> lazy_box \<Rightarrow> bool" where
  "lazy_box_ok others b \<longleftrightarrow> lb_boxes b = others \<union> (if lb_ptr b = 0 then {} else {lb_ptr b})
     \<and> lb_ptr b \<notin> others"

section \<open>Properties\<close>

text \<open>
  C36. \<^verbatim>\<open>SpinMutex\<close> is exclusive: however the threads interleave, at most one of them
  is between a \<^verbatim>\<open>lock\<close> that returned and its \<^verbatim>\<open>unlock\<close>, and the flag is
  set then.
\<close>

theorem spin_mutex_exclusive:
  assumes "reach spin_init spin_step s" and "sm_pc s t = SpinHeld"
  shows "sm_flag s \<and> (\<forall>u. sm_pc s u = SpinHeld \<longrightarrow> u = t)"
  using assms spin_mutex.exclusive [OF assms(1)] spin_machine.reach_inv [OF assms(1)]
  by (auto simp: spin_inv_def)

text \<open>Two threads contend for the mutex; the first one gets it and gives it back.\<close>

definition spin_free :: spin_mutex where
  "spin_free = \<lparr>sm_flag = False, sm_pc = \<lambda>_. SpinIdle\<rparr>"

definition spin_contended :: spin_mutex where
  "spin_contended = spin_lock_step 1 (spin_lock_call 1 (spin_lock_step 0 (spin_lock_call 0 spin_free)))"

lemma reach_spin:
  "reach spin_init spin_step s \<Longrightarrow> reach spin_init spin_step (spin_lock_call t s)"
  "reach spin_init spin_step s \<Longrightarrow> reach spin_init spin_step (spin_lock_step t s)"
  "reach spin_init spin_step s \<Longrightarrow> reach spin_init spin_step (spin_unlock t s)"
  by (erule reach_step, rule spin_step.intros)+

lemma spin_contended_reach: "reach spin_init spin_step spin_contended"
  unfolding spin_contended_def
  by (intro reach_spin reach_init) (simp add: spin_init_def spin_free_def)

theorem spin_mutex_exclusive_witness:
  "sm_flag spin_contended \<and> {u. sm_pc spin_contended u = SpinHeld} = {0}"
proof -
  have "sm_pc spin_contended 0 = SpinHeld"
    by (simp add: spin_contended_def spin_free_def spin_lock_call_def spin_lock_step_def)
  with spin_mutex_exclusive [OF spin_contended_reach this] show ?thesis by auto
qed

text \<open>
  C37. A waiter of \<^verbatim>\<open>SpinMutex\<close> misses the release of the lock. In a reachable state the
  mutex is free and a thread that lost the first exchange is in the inner loop; the loop's condition
  is inverted, so that however long the thread runs it stays there while nobody holds the lock. It
  leaves the loop only when somebody has the lock.
\<close>

theorem spin_mutex_waiter_stuck:
  "reach spin_init spin_step (spin_unlock 0 spin_contended)
   \<and> \<not> sm_flag (spin_unlock 0 spin_contended)
   \<and> sm_pc (spin_unlock 0 spin_contended) = (\<lambda>_. SpinIdle)(1 := SpinLoad)
   \<and> (\<forall>k. (spin_lock_step 1 ^^ k) (spin_unlock 0 spin_contended) = spin_unlock 0 spin_contended)"
proof -
  let ?s = "spin_unlock 0 spin_contended"
  have r: "reach spin_init spin_step ?s"
    by (intro reach_spin spin_contended_reach)
  have s: "\<not> sm_flag ?s" "sm_pc ?s = (\<lambda>_. SpinIdle)(1 := SpinLoad)"
    by (auto simp: spin_contended_def spin_free_def spin_lock_call_def spin_lock_step_def spin_unlock_def fun_eq_iff)
  then have "spin_lock_step 1 ?s = ?s" by (simp add: spin_lock_step_def)
  then have "(spin_lock_step 1 ^^ k) ?s = ?s" for k by (induction k) simp_all
  with r s show ?thesis by blast
qed

text \<open>
  C38. \<^verbatim>\<open>StdParker\<close> neither loses a wakeup nor returns for nothing. The number of
  returns of \<^verbatim>\<open>park\<close>, plus the token that is left, is at most the number of calls of
  \<^verbatim>\<open>unpark\<close>, also with spurious wakeups of the condition variable, and the state word
  is always one of its three values, so that the decrement in \<^verbatim>\<open>park\<close> wraps from
  \<^verbatim>\<open>EMPTY\<close> to \<^verbatim>\<open>PARKED\<close> and nowhere else. In every reachable state in
  which a token is there and the parking thread has not returned, some schedule of finitely many steps
  makes \<^verbatim>\<open>park\<close> return; and while it sleeps some unparking thread is on its way to
  notify it, so it does not depend on spurious wakeups.
\<close>

theorem std_parker_no_lost_wakeup:
  assumes "reach std_parker_init std_parker_step s"
  shows "sp_returned s + (if sp_state s = StdParker_NOTIFIED then 1 else 0) \<le> sp_unparked s
    \<and> sp_state s \<in> {StdParker_EMPTY, StdParker_NOTIFIED, StdParker_PARKED}
    \<and> (sp_state s = StdParker_PARKED \<longrightarrow> sp_park s \<noteq> ParkIdle)
    \<and> (sp_state s = StdParker_NOTIFIED \<and> sp_park s \<noteq> ParkIdle \<longrightarrow>
        (\<exists>s'. std_parker_step\<^sup>*\<^sup>* s s' \<and> sp_park s' = ParkIdle \<and> sp_returned s' = Suc (sp_returned s))
        \<and> (sp_park s = ParkAsleep \<longrightarrow> (\<exists>i. sp_unpark s i \<noteq> UnparkIdle)))"
proof -
  note inv = std_parker_machine.reach_inv [OF assms]
  have "sp_state s \<in> {StdParker_EMPTY, StdParker_NOTIFIED, StdParker_PARKED} \<and> (sp_state s = StdParker_PARKED \<longrightarrow> sp_park s \<noteq> ParkIdle)"
    using inv by (auto simp: std_parker_inv_def split: if_splits)
  with std_parker.no_free_return [OF assms] parked_can_exit [OF inv] std_parker.no_lost_wakeup [OF assms] show ?thesis by blast
qed

definition std_parker_new :: std_parker where
  "std_parker_new = \<lparr>sp_state = StdParker_EMPTY, sp_mutex = None, sp_park = ParkIdle,
     sp_unpark = \<lambda>_. UnparkIdle, sp_returned = 0, sp_unparked = 0\<rparr>"

text \<open>A park that falls asleep, and an unpark that has left its token but not notified yet.\<close>

definition std_parker_asleep :: std_parker where
  "std_parker_asleep = unpark_step 3 (park_step (park_step (park_step (park_step std_parker_new))))"

lemma reach_std_parker:
  "reach std_parker_init std_parker_step s \<Longrightarrow> reach std_parker_init std_parker_step (park_step s)"
  "reach std_parker_init std_parker_step s \<Longrightarrow> reach std_parker_init std_parker_step (unpark_step i s)"
  by (erule reach_step, rule std_parker_step.intros)+

lemma std_parker_asleep_reach: "reach std_parker_init std_parker_step std_parker_asleep"
  unfolding std_parker_asleep_def
  by (intro reach_std_parker reach_init)
    (simp add: std_parker_init_def std_parker_new_def)

lemma std_parker_asleep_eq:
  "std_parker_asleep = \<lparr>sp_state = StdParker_NOTIFIED, sp_mutex = None, sp_park = ParkAsleep,
     sp_unpark = (\<lambda>_. UnparkIdle)(3 := UnparkLock), sp_returned = 0, sp_unparked = 1\<rparr>"
  by (simp add: std_parker_asleep_def std_parker_new_def park_step_def unpark_step_def)

theorem std_parker_no_lost_wakeup_witness:
  "sp_returned std_parker_asleep + 1 \<le> sp_unparked std_parker_asleep
   \<and> (\<exists>s'. std_parker_step\<^sup>*\<^sup>* std_parker_asleep s' \<and> sp_park s' = ParkIdle \<and> sp_returned s' = 1)
   \<and> (\<exists>i. sp_unpark std_parker_asleep i \<noteq> UnparkIdle)"
  using std_parker_no_lost_wakeup [OF std_parker_asleep_reach] by (simp add: std_parker_asleep_eq)

text \<open>
  \<^verbatim>\<open>LazyBox\<close> allocates for good only once. A caller that loses the race to another
  thread frees its own box and returns the winner's; in every case the result is the pointer that
  stays installed, it is not null, exactly this box is left on the heap, and dropping the
  \<^verbatim>\<open>LazyBox\<close> frees it.
\<close>

lemma lazy_box_single:
  assumes ok: "lazy_box_ok others b" and new: "new_ptr \<noteq> 0" "new_ptr \<notin> others" "new_ptr \<noteq> lb_ptr b"
    and gap: "\<And>b. lb_ptr b = 0 \<Longrightarrow> gap b = b \<or> (\<exists>p. p \<noteq> 0 \<and> p \<notin> lb_boxes b
      \<and> gap b = b\<lparr>lb_ptr := p, lb_boxes := insert p (lb_boxes b)\<rparr>)"
  shows "\<exists>p b'. lazy_get_or_init new_ptr gap b = Inr (p, b') \<and> p \<noteq> 0 \<and> lb_ptr b' = p
    \<and> lazy_box_ok others b' \<and> lb_boxes (lazy_box_drop b') = others"
proof (cases "lb_ptr b = 0")
  case False
  with ok show ?thesis by (auto simp: lazy_get_or_init_def lazy_box_ok_def lazy_box_drop_def)
next
  case True
  let ?b = "b\<lparr>lb_boxes := insert new_ptr (lb_boxes b)\<rparr>"
  have "gap ?b = ?b \<or> (\<exists>p. p \<noteq> 0 \<and> p \<notin> lb_boxes ?b \<and> gap ?b = ?b\<lparr>lb_ptr := p, lb_boxes := insert p (lb_boxes ?b)\<rparr>)"
    using gap [of ?b] True by simp
  then show ?thesis
  proof (elim disjE exE conjE)
    assume "gap ?b = ?b"
    with True ok new show ?thesis
      by (auto simp: lazy_get_or_init_def lazy_init_def Let_def lazy_box_ok_def lazy_box_drop_def)
  next
    fix p
    assume "p \<noteq> 0" "p \<notin> lb_boxes ?b" "gap ?b = ?b\<lparr>lb_ptr := p, lb_boxes := insert p (lb_boxes ?b)\<rparr>"
    with True ok new show ?thesis
      by (auto simp: lazy_get_or_init_def lazy_init_def Let_def lazy_box_ok_def lazy_box_drop_def)
  qed
qed

end
