(* ===== verification/Parking.thy ===== *)
theory Parking
  imports Queue_State Sync
begin

text \<open>
  Waiting for a link that is announced but not stored yet: \<^verbatim>\<open>get_next\<close> and
  \<^verbatim>\<open>wait_for_next\<close> of the lock holder against the end of
  \<^verbatim>\<open>enqueue\<close> (\<^verbatim>\<open>src/queue.rs\<close>), on top of a parker. Both sides are cut at
  every atomic access and interleaved arbitrarily, sequentially consistent; other threads may call
  \<^verbatim>\<open>unpark\<close> for reasons of their own and the operating system may wake a sleeping thread
  for none.

  A parker is the record \<open>parker_ops\<close> of its steps with the contract \<open>token_parker\<close>; the
  parkers of \<^verbatim>\<open>sync/std.rs\<close> and \<^verbatim>\<open>sync/atomic_wait.rs\<close> keep it. The
  functions of the crate \<^verbatim>\<open>atomic_wait\<close>, which is not part of this repository, are a
  parameter of the latter.
\<close>

section \<open>Parkers\<close>

text \<open>
  One step of \<^verbatim>\<open>park\<close>, one step of the \<^verbatim>\<open>unpark\<close> of thread
  \<open>i\<close>, each with whether the call has returned, and a wake-up without a reason.
\<close>

record 'p parker_ops =
  pk_park :: "'p \<Rightarrow> bool \<times> 'p"
  pk_unpark :: "nat \<Rightarrow> 'p \<Rightarrow> bool \<times> 'p"
  pk_noise :: "'p \<Rightarrow> 'p"

text \<open>
  \<open>calling p i\<close> says that thread \<open>i\<close> is inside \<^verbatim>\<open>unpark\<close>. The first step
  of \<^verbatim>\<open>unpark\<close> leaves a token, which nothing but a return of \<^verbatim>\<open>park\<close>
  takes away, and with a token and nobody inside \<^verbatim>\<open>unpark\<close> any more
  \<^verbatim>\<open>park\<close> returns within three steps.
\<close>

locale token_parker =
  fixes P :: "'p parker_ops" and ok token :: "'p \<Rightarrow> bool" and calling :: "'p \<Rightarrow> nat \<Rightarrow> bool"
  assumes park_inv: "ok p \<Longrightarrow> ok (snd (pk_park P p))"
    and unpark_inv: "ok p \<Longrightarrow> ok (snd (pk_unpark P i p))"
    and noise_inv: "ok p \<Longrightarrow> ok (pk_noise P p)"
    and park_keeps: "ok p \<Longrightarrow> token p \<Longrightarrow> \<not> fst (pk_park P p) \<Longrightarrow> token (snd (pk_park P p))"
    and park_calling: "calling (snd (pk_park P p)) i = calling p i"
    and noise_token: "token (pk_noise P p) = token p" "calling (pk_noise P p) i = calling p i"
    and unpark_token: "\<not> calling p i \<or> token p \<Longrightarrow> token (snd (pk_unpark P i p))"
    and unpark_calling: "calling (snd (pk_unpark P i p)) j = (if j = i then \<not> fst (pk_unpark P i p) else calling p j)"
    and park_exits: "ok p \<Longrightarrow> token p \<Longrightarrow> \<forall>i. \<not> calling p i \<Longrightarrow>
      (let p1 = snd (pk_park P p); p2 = snd (pk_park P p1) in
       fst (pk_park P p) \<or> fst (pk_park P p1) \<or> fst (pk_park P p2))"

subsection \<open>StdParker\<close>

definition std_parker_ops :: "std_parker parker_ops" where
  "std_parker_ops = \<lparr>pk_park = \<lambda>p. (sp_park (park_step p) = ParkIdle, park_step p),
     pk_unpark = \<lambda>i p. (sp_unpark (unpark_step i p) i = UnparkIdle, unpark_step i p), pk_noise = spurious_wakeup\<rparr>"

interpretation std_tokens: token_parker std_parker_ops std_parker_inv "\<lambda>p. sp_state p = StdParker_NOTIFIED"
  "\<lambda>p i. sp_unpark p i \<noteq> UnparkIdle"
proof
  fix p i j
  show "std_parker_inv p \<Longrightarrow> std_parker_inv (snd (pk_park std_parker_ops p))"
    "std_parker_inv p \<Longrightarrow> std_parker_inv (snd (pk_unpark std_parker_ops i p))"
    "std_parker_inv p \<Longrightarrow> std_parker_inv (pk_noise std_parker_ops p)"
    by (simp_all add: std_parker_ops_def park_step_inv unpark_step_inv spurious_inv)
  show "sp_state (snd (pk_park std_parker_ops p)) = StdParker_NOTIFIED"
    if "std_parker_inv p" "sp_state p = StdParker_NOTIFIED" "\<not> fst (pk_park std_parker_ops p)"
    using that by (auto simp: std_parker_ops_def park_step_def split: park_pc.splits if_splits)
  show "(sp_unpark (snd (pk_park std_parker_ops p)) i \<noteq> UnparkIdle) = (sp_unpark p i \<noteq> UnparkIdle)"
    by (auto simp: std_parker_ops_def park_step_def split: park_pc.splits)
  show "(sp_state (pk_noise std_parker_ops p) = StdParker_NOTIFIED) = (sp_state p = StdParker_NOTIFIED)"
    "(sp_unpark (pk_noise std_parker_ops p) i \<noteq> UnparkIdle) = (sp_unpark p i \<noteq> UnparkIdle)"
    by (simp_all add: std_parker_ops_def)
  show "sp_state (snd (pk_unpark std_parker_ops i p)) = StdParker_NOTIFIED"
    if "\<not> sp_unpark p i \<noteq> UnparkIdle \<or> sp_state p = StdParker_NOTIFIED"
    using that by (auto simp: std_parker_ops_def unpark_step_def split: unpark_pc.splits)
  show "(sp_unpark (snd (pk_unpark std_parker_ops i p)) j \<noteq> UnparkIdle)
      = (if j = i then \<not> fst (pk_unpark std_parker_ops i p) else sp_unpark p j \<noteq> UnparkIdle)"
    by (auto simp: std_parker_ops_def unpark_step_def split: unpark_pc.splits)
  show "let p1 = snd (pk_park std_parker_ops p); p2 = snd (pk_park std_parker_ops p1) in
      fst (pk_park std_parker_ops p) \<or> fst (pk_park std_parker_ops p1) \<or> fst (pk_park std_parker_ops p2)"
    if inv: "std_parker_inv p" and t: "sp_state p = StdParker_NOTIFIED" and idle: "\<forall>i. \<not> sp_unpark p i \<noteq> UnparkIdle"
  proof -
    have "sp_park p \<noteq> ParkWait" "sp_park p \<noteq> ParkAsleep" using inv t idle by (auto simp: std_parker_inv_def)
    moreover have "sp_mutex p = None \<or> sp_mutex p = Some ByParker"
      using inv idle by (cases "sp_mutex p"; cases "the (sp_mutex p)") (auto simp: std_parker_inv_def)
    moreover have "sp_park p = ParkLock \<Longrightarrow> sp_mutex p \<noteq> Some ByParker" using inv by (auto simp: std_parker_inv_def)
    ultimately show ?thesis using t by (cases "sp_park p") (auto simp: std_parker_ops_def park_step_def Let_def)
  qed
qed

subsection \<open>AtomicParker\<close>

definition AtomicParker_EMPTY :: u32 where "AtomicParker_EMPTY = 0"
definition AtomicParker_NOTIFIED :: u32 where "AtomicParker_NOTIFIED = 1"
definition AtomicParker_PARKED :: u32 where "AtomicParker_PARKED = - 1"

text \<open>
  The crate \<^verbatim>\<open>atomic_wait\<close>: whether a call of \<^verbatim>\<open>wait\<close> with the
  expected value \<open>e\<close> goes to sleep on a word that holds \<open>v\<close>, and whether the sleeping
  thread still sleeps after \<^verbatim>\<open>wake_one\<close>. Its documentation promises that
  \<^verbatim>\<open>wait\<close> returns at once if the word is not the expected one, and that
  \<^verbatim>\<open>wake_one\<close> wakes a thread that waits.
\<close>

record futex_ops =
  fx_wait :: "u32 \<Rightarrow> u32 \<Rightarrow> bool"
  fx_wake_one :: "bool \<Rightarrow> bool"

datatype atomic_park_pc = AParkIdle | AParkWait | AParkAsleep | AParkCheck

record atomic_parker =
  ap_state :: u32
  ap_park :: atomic_park_pc
  ap_waking :: "nat \<Rightarrow> bool"

definition atomic_parker_new :: atomic_parker where
  "atomic_parker_new = \<lparr>ap_state = 0, ap_park = AParkIdle, ap_waking = \<lambda>_. False\<rparr>"

definition atomic_park_step :: "futex_ops \<Rightarrow> atomic_parker \<Rightarrow> bool \<times> atomic_parker" where
  "atomic_park_step F p =
     (case ap_park p of
        AParkIdle \<Rightarrow>
          (ap_state p = AtomicParker_NOTIFIED,
           p\<lparr>ap_state := ap_state p - 1, ap_park := if ap_state p = AtomicParker_NOTIFIED then AParkIdle else AParkWait\<rparr>)
      | AParkWait \<Rightarrow> (False, p\<lparr>ap_park := if fx_wait F (ap_state p) AtomicParker_PARKED then AParkAsleep else AParkCheck\<rparr>)
      | AParkAsleep \<Rightarrow> (False, p)
      | AParkCheck \<Rightarrow>
          if ap_state p = AtomicParker_NOTIFIED then (True, p\<lparr>ap_state := AtomicParker_EMPTY, ap_park := AParkIdle\<rparr>)
          else (False, p\<lparr>ap_park := AParkWait\<rparr>))"

definition atomic_unpark_step :: "futex_ops \<Rightarrow> nat \<Rightarrow> atomic_parker \<Rightarrow> bool \<times> atomic_parker" where
  "atomic_unpark_step F i p =
     (if \<not> ap_waking p i
      then (ap_state p \<noteq> AtomicParker_PARKED,
            p\<lparr>ap_state := AtomicParker_NOTIFIED, ap_waking := (ap_waking p)(i := ap_state p = AtomicParker_PARKED)\<rparr>)
      else (True, p\<lparr>ap_park := if ap_park p = AParkAsleep \<and> \<not> fx_wake_one F True then AParkCheck else ap_park p,
                    ap_waking := (ap_waking p)(i := False)\<rparr>))"

definition atomic_parker_ops :: "futex_ops \<Rightarrow> atomic_parker parker_ops" where
  "atomic_parker_ops F = \<lparr>pk_park = atomic_park_step F, pk_unpark = atomic_unpark_step F,
     pk_noise = \<lambda>p. if ap_park p = AParkAsleep then p\<lparr>ap_park := AParkCheck\<rparr> else p\<rparr>"

definition atomic_parker_inv :: "atomic_parker \<Rightarrow> bool" where
  "atomic_parker_inv p \<longleftrightarrow>
     (if ap_park p = AParkIdle then ap_state p = AtomicParker_EMPTY \<or> ap_state p = AtomicParker_NOTIFIED
      else ap_state p = AtomicParker_PARKED \<or> ap_state p = AtomicParker_NOTIFIED)
   \<and> (ap_park p = AParkAsleep \<longrightarrow> ap_state p = AtomicParker_NOTIFIED \<longrightarrow> (\<exists>i. ap_waking p i))"

lemma atomic_states [simp]:
  "AtomicParker_EMPTY \<noteq> AtomicParker_NOTIFIED" "AtomicParker_NOTIFIED \<noteq> AtomicParker_EMPTY"
  "AtomicParker_PARKED \<noteq> AtomicParker_NOTIFIED" "AtomicParker_NOTIFIED \<noteq> AtomicParker_PARKED"
  "AtomicParker_PARKED \<noteq> AtomicParker_EMPTY" "AtomicParker_EMPTY \<noteq> AtomicParker_PARKED"
  "AtomicParker_EMPTY - 1 = AtomicParker_PARKED" "AtomicParker_NOTIFIED - 1 = AtomicParker_EMPTY"
  by (simp_all add: AtomicParker_EMPTY_def AtomicParker_NOTIFIED_def AtomicParker_PARKED_def)

locale futex =
  fixes F :: futex_ops
  assumes wait_expected: "fx_wait F v e \<Longrightarrow> v = e" and wake_one_wakes: "\<not> fx_wake_one F True"

sublocale futex \<subseteq> atomic_tokens: token_parker "atomic_parker_ops F" atomic_parker_inv
  "\<lambda>p. ap_state p = AtomicParker_NOTIFIED" ap_waking
proof
  fix p i j
  show "atomic_parker_inv p \<Longrightarrow> atomic_parker_inv (snd (pk_park (atomic_parker_ops F) p))"
    using wait_expected [of "ap_state p" AtomicParker_PARKED]
    by (auto simp: atomic_parker_ops_def atomic_park_step_def atomic_parker_inv_def split: atomic_park_pc.splits if_splits)
  show "atomic_parker_inv p \<Longrightarrow> atomic_parker_inv (snd (pk_unpark (atomic_parker_ops F) i p))"
    using wake_one_wakes
    by (cases "ap_park p") (auto simp: atomic_parker_ops_def atomic_unpark_step_def atomic_parker_inv_def)
  show "atomic_parker_inv p \<Longrightarrow> atomic_parker_inv (pk_noise (atomic_parker_ops F) p)"
    by (auto simp: atomic_parker_ops_def atomic_parker_inv_def)
  show "ap_state (snd (pk_park (atomic_parker_ops F) p)) = AtomicParker_NOTIFIED"
    if "atomic_parker_inv p" "ap_state p = AtomicParker_NOTIFIED" "\<not> fst (pk_park (atomic_parker_ops F) p)"
    using that by (auto simp: atomic_parker_ops_def atomic_park_step_def split: atomic_park_pc.splits)
  show "ap_waking (snd (pk_park (atomic_parker_ops F) p)) i = ap_waking p i"
    by (auto simp: atomic_parker_ops_def atomic_park_step_def split: atomic_park_pc.splits)
  show "(ap_state (pk_noise (atomic_parker_ops F) p) = AtomicParker_NOTIFIED) = (ap_state p = AtomicParker_NOTIFIED)"
    "ap_waking (pk_noise (atomic_parker_ops F) p) i = ap_waking p i"
    by (simp_all add: atomic_parker_ops_def)
  show "\<not> ap_waking p i \<or> ap_state p = AtomicParker_NOTIFIED
      \<Longrightarrow> ap_state (snd (pk_unpark (atomic_parker_ops F) i p)) = AtomicParker_NOTIFIED"
    by (auto simp: atomic_parker_ops_def atomic_unpark_step_def)
  show "ap_waking (snd (pk_unpark (atomic_parker_ops F) i p)) j
      = (if j = i then \<not> fst (pk_unpark (atomic_parker_ops F) i p) else ap_waking p j)"
    by (auto simp: atomic_parker_ops_def atomic_unpark_step_def)
  show "let p1 = snd (pk_park (atomic_parker_ops F) p); p2 = snd (pk_park (atomic_parker_ops F) p1) in
      fst (pk_park (atomic_parker_ops F) p) \<or> fst (pk_park (atomic_parker_ops F) p1) \<or> fst (pk_park (atomic_parker_ops F) p2)"
    if "atomic_parker_inv p" "ap_state p = AtomicParker_NOTIFIED" "\<forall>i. \<not> ap_waking p i"
    using that wait_expected [of "ap_state p" AtomicParker_PARKED]
    by (cases "ap_park p") (auto simp: atomic_parker_ops_def atomic_park_step_def atomic_parker_inv_def Let_def)
qed

text \<open>The documented behaviour itself: a call sleeps exactly on the expected value.\<close>

definition futex_documented :: futex_ops where
  "futex_documented = \<lparr>fx_wait = (=), fx_wake_one = \<lambda>_. False\<rparr>"

interpretation documented: futex futex_documented
  by unfold_locales (simp_all add: futex_documented_def)

section \<open>The handshake\<close>

text \<open>
  What the code is compiled for: the target, the parker's \<^verbatim>\<open>NEVER_BLOCKS\<close> and
  \<^verbatim>\<open>SPIN_BEFORE_PARK\<close>. On x86-64 the waiter announces itself in the cell it waits for,
  elsewhere in the queue's field \<^verbatim>\<open>parked_next\<close>.
\<close>

record target =
  t_x86_64 :: bool
  t_never_blocks :: bool
  t_spin_before_park :: nat

definition PARKED :: addr where "PARKED = 1"

text \<open>
  The program points of \<^verbatim>\<open>get_next\<close> and \<^verbatim>\<open>wait_for_next\<close>:
  \<open>WaitSpin k\<close> has \<open>k\<close> rounds of spinning left and announces itself then,
  \<open>WaitPark\<close> is inside \<^verbatim>\<open>park\<close>, \<open>WaitReturn\<close> is done.
\<close>

datatype wait_pc = WaitFirst | WaitYield | WaitSpin nat | WaitCheck | WaitPark | WaitReload | WaitClear addr | WaitReturn addr

text \<open>The end of \<^verbatim>\<open>enqueue\<close>: the store of the link and what follows it.\<close>

datatype publish_pc = PublishStore | PublishLoad | PublishUnpark | PublishReturn

record 'p handshake =
  hs_next :: addr
  hs_parked_next :: addr
  hs_parker :: 'p
  hs_wait :: wait_pc
  hs_publish :: publish_pc

definition wait_step :: "target \<Rightarrow> 'p parker_ops \<Rightarrow> addr \<Rightarrow> 'p handshake \<Rightarrow> 'p handshake" where
  "wait_step T P next_ref s =
     (case hs_wait s of
        WaitFirst \<Rightarrow>
          s\<lparr>hs_wait := if hs_next s \<noteq> 0 then WaitReturn (hs_next s)
                       else if t_never_blocks T then WaitYield else WaitSpin (t_spin_before_park T)\<rparr>
      | WaitYield \<Rightarrow> if hs_next s \<noteq> 0 then s\<lparr>hs_wait := WaitReturn (hs_next s)\<rparr> else s
      | WaitSpin (Suc k) \<Rightarrow> s\<lparr>hs_wait := if hs_next s \<noteq> 0 then WaitReturn (hs_next s) else WaitSpin k\<rparr>
      | WaitSpin 0 \<Rightarrow>
          if t_x86_64 T
          then if hs_next s = 0 then s\<lparr>hs_next := PARKED, hs_wait := WaitPark\<rparr>
               else s\<lparr>hs_wait := WaitReturn (hs_next s)\<rparr>
          else s\<lparr>hs_parked_next := next_ref, hs_wait := WaitCheck\<rparr>
      | WaitCheck \<Rightarrow> s\<lparr>hs_wait := if hs_next s \<noteq> 0 then WaitClear (hs_next s) else WaitPark\<rparr>
      | WaitPark \<Rightarrow>
          (let (returned, p) = pk_park P (hs_parker s) in
           s\<lparr>hs_parker := p, hs_wait := if \<not> returned then WaitPark else if t_x86_64 T then WaitReload else WaitCheck\<rparr>)
      | WaitReload \<Rightarrow> s\<lparr>hs_wait := if hs_next s \<noteq> PARKED then WaitReturn (hs_next s) else WaitPark\<rparr>
      | WaitClear node \<Rightarrow> s\<lparr>hs_parked_next := 0, hs_wait := WaitReturn node\<rparr>
      | WaitReturn node \<Rightarrow> s)"

text \<open>The publishing thread is the unparker with the number 0.\<close>

definition publish_step :: "target \<Rightarrow> 'p parker_ops \<Rightarrow> addr \<Rightarrow> addr \<Rightarrow> 'p handshake \<Rightarrow> 'p handshake" where
  "publish_step T P prev_next node s =
     (case hs_publish s of
        PublishStore \<Rightarrow>
          s\<lparr>hs_next := node,
            hs_publish := if t_never_blocks T then PublishReturn
                          else if \<not> t_x86_64 T then PublishLoad
                          else if hs_next s \<noteq> 0 then PublishUnpark else PublishReturn\<rparr>
      | PublishLoad \<Rightarrow> s\<lparr>hs_publish := if hs_parked_next s = prev_next then PublishUnpark else PublishReturn\<rparr>
      | PublishUnpark \<Rightarrow>
          (let (returned, p) = pk_unpark P 0 (hs_parker s) in
           s\<lparr>hs_parker := p, hs_publish := if returned then PublishReturn else PublishUnpark\<rparr>)
      | PublishReturn \<Rightarrow> s)"

inductive handshake_step :: "target \<Rightarrow> 'p parker_ops \<Rightarrow> addr \<Rightarrow> addr \<Rightarrow> 'p handshake \<Rightarrow> 'p handshake \<Rightarrow> bool"
  for T P c node where
  step_wait: "handshake_step T P c node s (wait_step T P c s)"
| step_publish: "handshake_step T P c node s (publish_step T P c node s)"
| step_other: "i \<noteq> 0 \<Longrightarrow> handshake_step T P c node s (s\<lparr>hs_parker := snd (pk_unpark P i (hs_parker s))\<rparr>)"
| step_noise: "handshake_step T P c node s (s\<lparr>hs_parker := pk_noise P (hs_parker s)\<rparr>)"

text \<open>
  The start: the cell is empty and neither side has begun; other threads may be anywhere, and an
  earlier wait may have left a token.
\<close>

definition handshake_init :: "('p \<Rightarrow> bool) \<Rightarrow> ('p \<Rightarrow> nat \<Rightarrow> bool) \<Rightarrow> 'p handshake \<Rightarrow> bool" where
  "handshake_init ok calling s \<longleftrightarrow> hs_next s = 0 \<and> hs_parked_next s = 0 \<and> ok (hs_parker s)
     \<and> \<not> calling (hs_parker s) 0 \<and> hs_wait s = WaitFirst \<and> hs_publish s = PublishStore"

definition handshake_inv ::
  "target \<Rightarrow> addr \<Rightarrow> addr \<Rightarrow> ('p \<Rightarrow> bool) \<Rightarrow> ('p \<Rightarrow> bool) \<Rightarrow> ('p \<Rightarrow> nat \<Rightarrow> bool) \<Rightarrow> 'p handshake \<Rightarrow> bool" where
  "handshake_inv T c node ok token calling s \<longleftrightarrow> ok (hs_parker s)
   \<and> (hs_publish s \<noteq> PublishUnpark \<longrightarrow> \<not> calling (hs_parker s) 0)
   \<and> (if hs_publish s = PublishStore
      then hs_next s = (if t_x86_64 T \<and> (hs_wait s = WaitPark \<or> hs_wait s = WaitReload) then PARKED else 0)
      else hs_next s = node)
   \<and> (hs_publish s = PublishLoad \<longrightarrow> \<not> t_x86_64 T)
   \<and> (hs_wait s = WaitReload \<longrightarrow> t_x86_64 T) \<and> (hs_wait s = WaitCheck \<longrightarrow> \<not> t_x86_64 T)
   \<and> (hs_wait s \<in> {WaitPark, WaitCheck, WaitReload} \<longrightarrow> \<not> t_never_blocks T) \<and> (\<forall>k. hs_wait s = WaitSpin k \<longrightarrow> \<not> t_never_blocks T)
   \<and> (hs_wait s \<in> {WaitPark, WaitCheck} \<longrightarrow> \<not> t_x86_64 T \<longrightarrow> hs_parked_next s = c)
   \<and> (\<forall>v. hs_wait s = WaitReturn v \<or> hs_wait s = WaitClear v \<longrightarrow> v = node \<and> hs_publish s \<noteq> PublishStore)
   \<and> (hs_wait s = WaitPark \<longrightarrow> hs_publish s \<noteq> PublishStore \<longrightarrow>
        token (hs_parker s) \<or> hs_publish s = PublishLoad
        \<or> hs_publish s = PublishUnpark \<and> \<not> calling (hs_parker s) 0)"

context token_parker
begin

lemma handshake_wait_inv:
  assumes "handshake_inv T c node ok token calling s" and "node \<noteq> 0" and "node \<noteq> PARKED"
  shows "handshake_inv T c node ok token calling (wait_step T P c s)"
proof (cases "hs_wait s")
  case WaitPark
  obtain r p where p: "pk_park P (hs_parker s) = (r, p)" by fastforce
  then have "ok p" "calling p i = calling (hs_parker s) i" "token (hs_parker s) \<Longrightarrow> \<not> r \<Longrightarrow> token p" for i
    using assms(1) park_inv [of "hs_parker s"] park_calling [of "hs_parker s"] park_keeps [of "hs_parker s"]
    by (auto simp: handshake_inv_def)
  with assms WaitPark p show ?thesis
    by (cases r) (auto simp: handshake_inv_def wait_step_def)
next
  case (WaitSpin k)
  with assms show ?thesis by (cases k) (auto simp: handshake_inv_def wait_step_def PARKED_def split: if_splits)
qed (use assms in \<open>auto simp: handshake_inv_def wait_step_def PARKED_def split: if_splits\<close>)

lemma handshake_publish_inv:
  assumes "handshake_inv T c node ok token calling s" and "node \<noteq> 0" and "node \<noteq> PARKED"
  shows "handshake_inv T c node ok token calling (publish_step T P c node s)"
proof (cases "hs_publish s")
  case PublishUnpark
  obtain r p where p: "pk_unpark P 0 (hs_parker s) = (r, p)" by fastforce
  then have "ok p" "calling p 0 = (\<not> r)" "\<not> calling (hs_parker s) 0 \<or> token (hs_parker s) \<Longrightarrow> token p"
    using assms(1) unpark_inv [of "hs_parker s" 0] unpark_calling [of 0 "hs_parker s" 0] unpark_token [of "hs_parker s" 0]
    by (auto simp: handshake_inv_def)
  with assms PublishUnpark p show ?thesis
    by (cases r) (auto simp: handshake_inv_def publish_step_def)
qed (use assms in \<open>auto simp: handshake_inv_def publish_step_def PARKED_def split: if_splits\<close>)

lemma handshake_machine:
  assumes "node \<noteq> 0" and "node \<noteq> PARKED"
  shows "invariant_of (handshake_init ok calling) (handshake_step T P c node) (handshake_inv T c node ok token calling)"
proof
  show "handshake_init ok calling s \<Longrightarrow> handshake_inv T c node ok token calling s" for s
    by (auto simp: handshake_init_def handshake_inv_def)
  show "handshake_inv T c node ok token calling s'"
    if "handshake_inv T c node ok token calling s" "handshake_step T P c node s s'" for s s'
    using that(2,1)
  proof cases
    case (step_other i)
    with that(1) show ?thesis by (auto simp: handshake_inv_def unpark_inv unpark_token unpark_calling)
  next
    case step_noise
    with that(1) show ?thesis by (simp add: handshake_inv_def noise_inv noise_token)
  qed (use assms handshake_wait_inv handshake_publish_inv in auto)
qed

end

text \<open>The waiter returns \<open>v\<close> within \<open>n\<close> steps of its own.\<close>

fun returns_within :: "target \<Rightarrow> 'p parker_ops \<Rightarrow> addr \<Rightarrow> nat \<Rightarrow> addr \<Rightarrow> 'p handshake \<Rightarrow> bool" where
  "returns_within T P c 0 v s \<longleftrightarrow> hs_wait s = WaitReturn v"
| "returns_within T P c (Suc n) v s \<longleftrightarrow> hs_wait s = WaitReturn v \<or> returns_within T P c n v (wait_step T P c s)"

lemma returns_within_mono: "returns_within T P c n v s \<Longrightarrow> n \<le> m \<Longrightarrow> returns_within T P c m v s"
proof (induction n arbitrary: m s)
  case 0
  then show ?case by (cases m) simp_all
next
  case (Suc n)
  then show ?case by (cases m) auto
qed

lemma returned_within: "hs_wait s = WaitReturn v \<Longrightarrow> returns_within T P c n v s"
  by (cases n) simp_all

lemma cleared_within: "hs_wait s = WaitClear v \<Longrightarrow> returns_within T P c (Suc n) v s"
  by (simp add: wait_step_def returned_within)

lemma checked_within: "hs_wait s = WaitCheck \<Longrightarrow> hs_next s = v \<Longrightarrow> v \<noteq> 0 \<Longrightarrow> returns_within T P c (Suc (Suc n)) v s"
  by (simp only: returns_within.simps(2) [of T P c "Suc n"], rule disjI2, rule cleared_within) (simp add: wait_step_def)

lemma published_within:
  assumes next_set: "hs_next s = v" "v \<noteq> 0" "v \<noteq> PARKED" and pc: "hs_wait s \<noteq> WaitPark"
    and done_right: "\<And>u. hs_wait s = WaitReturn u \<or> hs_wait s = WaitClear u \<Longrightarrow> u = v"
  shows "returns_within T P c 3 v s"
proof (cases "hs_wait s")
  case (WaitSpin k)
  have "returns_within T P c (Suc (Suc 0)) v (wait_step T P c s)"
  proof (cases "k = 0 \<and> \<not> t_x86_64 T")
    case True
    with next_set WaitSpin show ?thesis by (intro checked_within) (simp_all add: wait_step_def)
  next
    case False
    with next_set WaitSpin show ?thesis
      by (intro returned_within) (auto simp: wait_step_def split: nat.split)
  qed
  then show ?thesis by (simp add: numeral_3_eq_3)
next
  case WaitCheck
  then show ?thesis using checked_within [of s v T P c 1] next_set by (simp add: numeral_3_eq_3)
next
  case (WaitClear u)
  then show ?thesis using cleared_within [of s v T P c 2] done_right by (simp add: numeral_3_eq_3)
qed (use next_set pc done_right in \<open>auto intro!: returned_within simp: numeral_3_eq_3 wait_step_def\<close>)

context token_parker
begin

text \<open>A parked waiter whose token is there and whose unparkers are gone gets out of \<^verbatim>\<open>park\<close>.\<close>

lemma woken_within:
  assumes s: "hs_wait s = WaitPark" "hs_next s = v" "v \<noteq> 0" "v \<noteq> PARKED"
    and p: "ok (hs_parker s)" "token (hs_parker s)" "\<forall>i. \<not> calling (hs_parker s) i"
  shows "returns_within T P c 6 v s"
proof -
  have out: "returns_within T P c 4 v r" if "hs_wait r = WaitPark" "hs_next r = v" "fst (pk_park P (hs_parker r))" for r
  proof -
    have "returns_within T P c 3 v (wait_step T P c r)"
      by (rule published_within) (use that s(3,4) in \<open>auto simp: wait_step_def split: prod.splits if_splits\<close>)
    then show ?thesis by (simp add: numeral_eq_Suc)
  qed
  have stay: "hs_wait (wait_step T P c r) = WaitPark" "hs_next (wait_step T P c r) = v"
    "hs_parker (wait_step T P c r) = snd (pk_park P (hs_parker r))"
    if "hs_wait r = WaitPark" "hs_next r = v" "\<not> fst (pk_park P (hs_parker r))" for r
    using that by (auto simp: wait_step_def split: prod.split)
  have more: "returns_within T P c (Suc n) v r" if "returns_within T P c n v (wait_step T P c r)" for n r
    using that by simp
  let ?r1 = "wait_step T P c s"
  show ?thesis
  proof (cases "fst (pk_park P (hs_parker s))")
    case True
    from out [OF s(1,2) this] show ?thesis by (rule returns_within_mono) simp
  next
    case f1: False
    note r1 = stay [OF s(1,2) f1]
    show ?thesis
    proof (cases "fst (pk_park P (hs_parker ?r1))")
      case True
      from more [OF out [OF r1(1,2) this]] show ?thesis by (rule returns_within_mono) simp
    next
      case f2: False
      note r2 = stay [OF r1(1,2) f2]
      have "fst (pk_park P (hs_parker (wait_step T P c ?r1)))"
        using park_exits [OF p] f1 f2 r1(3) r2(3) by (simp add: Let_def)
      from more [OF more [OF out [OF r2(1,2) this]]] show ?thesis by (rule returns_within_mono) simp
    qed
  qed
qed

lemma handshake_ends:
  assumes "handshake_inv T c node ok token calling s" and "node \<noteq> 0" and "node \<noteq> PARKED"
    and "hs_publish s = PublishReturn" and "\<forall>i. \<not> calling (hs_parker s) i"
  shows "returns_within T P c 6 node s"
proof (cases "hs_wait s = WaitPark")
  case True
  with assms show ?thesis by (intro woken_within) (auto simp: handshake_inv_def)
next
  case False
  have "returns_within T P c 3 node s"
    by (rule published_within) (use assms False in \<open>auto simp: handshake_inv_def\<close>)
  then show ?thesis by (rule returns_within_mono) simp
qed

end

section \<open>Property\<close>

text \<open>
  C15. The lock holder that waits for a link neither misses its wake-up nor returns too early, on
  both targets and with any parker that keeps the contract (so with \<^verbatim>\<open>StdParker\<close>,
  \<^verbatim>\<open>AtomicParker\<close> and \<^verbatim>\<open>PthreadParker\<close>), whatever other threads' \<^verbatim>\<open>unpark\<close> calls and spurious
  wake-ups come in between: it returns nothing but the node that the enqueueing thread stores, never
  null or the marker of a parked waiter, and only after it was stored; and once that thread has
  returned and no \<^verbatim>\<open>unpark\<close> is in flight, six more steps of the waiter alone are
  enough, wherever it is.
\<close>

theorem wait_for_next_no_lost_wakeup:
  assumes "token_parker P ok token calling" and "node_addr node"
    and "reach (handshake_init ok calling) (handshake_step T P c node) s"
  shows "(\<forall>v. hs_wait s = WaitReturn v \<longrightarrow> v = node \<and> hs_publish s \<noteq> PublishStore)
    \<and> (hs_publish s = PublishReturn \<and> (\<forall>i. \<not> calling (hs_parker s) i) \<longrightarrow> returns_within T P c 6 node s)"
proof -
  have n: "node \<noteq> 0" "node \<noteq> PARKED" using assms(2) unfolding PARKED_def by (blast dest: node_addr_nonzero(1), metis node_addr_not_marker(1))
  have inv: "handshake_inv T c node ok token calling s"
    using invariant_of.reach_inv [OF token_parker.handshake_machine [OF assms(1) n] assms(3)] .
  then have "\<forall>v. hs_wait s = WaitReturn v \<longrightarrow> v = node \<and> hs_publish s \<noteq> PublishStore"
    by (simp add: handshake_inv_def)
  with token_parker.handshake_ends [OF assms(1) inv n] show ?thesis by blast
qed

text \<open>
  On x86-64 with a \<^verbatim>\<open>StdParker\<close>: the waiter goes to sleep first, then the enqueueing
  thread stores the link and wakes it.
\<close>

definition idle_std_parker :: std_parker where
  "idle_std_parker = \<lparr>sp_state = StdParker_EMPTY, sp_mutex = None, sp_park = ParkIdle, sp_unpark = \<lambda>_. UnparkIdle,
     sp_returned = 0, sp_unparked = 0\<rparr>"

definition x86_target :: target where
  "x86_target = \<lparr>t_x86_64 = True, t_never_blocks = False, t_spin_before_park = 0\<rparr>"

definition handshake_start :: "std_parker handshake" where
  "handshake_start = \<lparr>hs_next = 0, hs_parked_next = 0, hs_parker = idle_std_parker, hs_wait = WaitFirst, hs_publish = PublishStore\<rparr>"

definition asleep_then_published :: "std_parker handshake" where
  "asleep_then_published = (publish_step x86_target std_parker_ops 64 4096 ^^ 5) ((wait_step x86_target std_parker_ops 64 ^^ 6) handshake_start)"

lemma reach_wait: "reach I (handshake_step T P c node) s \<Longrightarrow> reach I (handshake_step T P c node) ((wait_step T P c ^^ k) s)"
  by (induction k) (auto intro: reach_step handshake_step.intros)

lemma reach_publish:
  "reach I (handshake_step T P c node) s \<Longrightarrow> reach I (handshake_step T P c node) ((publish_step T P c node ^^ k) s)"
  by (induction k) (auto intro: reach_step handshake_step.intros)

theorem wait_for_next_no_lost_wakeup_witness:
  "sp_park (hs_parker ((wait_step x86_target std_parker_ops 64 ^^ 6) handshake_start)) = ParkAsleep
   \<and> returns_within x86_target std_parker_ops 64 6 4096 asleep_then_published"
proof -
  let ?w = "(wait_step x86_target std_parker_ops 64 ^^ 6) handshake_start"
  have asleep: "hs_wait ?w = WaitPark \<and> hs_next ?w = PARKED \<and> hs_publish ?w = PublishStore
    \<and> hs_parker ?w = idle_std_parker\<lparr>sp_state := StdParker_PARKED, sp_park := ParkAsleep\<rparr>"
    by (simp add: numeral_eq_Suc wait_step_def handshake_start_def x86_target_def std_parker_ops_def park_step_def idle_std_parker_def)
  then have published: "hs_publish asleep_then_published = PublishReturn \<and> sp_unpark (hs_parker asleep_then_published) = (\<lambda>_. UnparkIdle)"
    unfolding asleep_then_published_def
    by (simp add: numeral_eq_Suc publish_step_def x86_target_def std_parker_ops_def unpark_step_def idle_std_parker_def
        spurious_wakeup_def PARKED_def fun_eq_iff)
  have "handshake_init std_parker_inv (\<lambda>p i. sp_unpark p i \<noteq> UnparkIdle) handshake_start"
    by (simp add: handshake_init_def handshake_start_def idle_std_parker_def std_parker_inv_def)
  then have "reach (handshake_init std_parker_inv (\<lambda>p i. sp_unpark p i \<noteq> UnparkIdle))
      (handshake_step x86_target std_parker_ops 64 4096) asleep_then_published"
    unfolding asleep_then_published_def by (intro reach_publish reach_wait reach_init)
  moreover have "node_addr 4096" by (simp add: node_addr_def)
  ultimately show ?thesis
    using wait_for_next_no_lost_wakeup [OF std_tokens.token_parker_axioms] asleep published by (simp add: idle_std_parker_def)
qed

end
