(* ===== verification/Pthread_Parker.thy ===== *)
theory Pthread_Parker
  imports Parking
begin

text \<open>
  \<^verbatim>\<open>src/sync/pthread.rs\<close>: the parker on a pthread mutex and condition variable. The
  functions of \<^verbatim>\<open>libc\<close> are a parameter, the record \<open>pthread_ops\<close>, with the
  locale \<open>pthread_api\<close> of what POSIX promises for a mutex of the kind
  \<^verbatim>\<open>PTHREAD_MUTEX_NORMAL\<close> that is used correctly. Mutex and condition variable are in
  boxes that are allocated at their first use, the same one for all threads (\<open>Sync\<close>). The
  parker keeps the contract \<open>token_parker\<close>, so the queue's wait rests on it as on the others.
\<close>

section \<open>The foreign functions\<close>

text \<open>
  The codes that a lock (once the mutex is granted) and an unlock return, and whether a thread that
  waits for the condition variable still does after a signal. While a thread holds the mutex no other
  one is granted it; a wait releases the mutex and goes to sleep in one step, takes the mutex again
  before it returns, and may return without a signal.
\<close>

record pthread_ops =
  pt_mutex_lock :: "32 word"
  pt_mutex_unlock :: "32 word"
  pt_cond_signal :: "bool \<Rightarrow> bool"

definition pthread_unwrap :: "32 word \<Rightarrow> unit res" where
  "pthread_unwrap err_code = (if err_code \<noteq> 0 then Inl (Panic ''error'') else Inr ())"

section \<open>The parker\<close>

definition PthreadParker_EMPTY :: usize where "PthreadParker_EMPTY = 0"
definition PthreadParker_NOTIFIED :: usize where "PthreadParker_NOTIFIED = 1"
definition PthreadParker_PARKED :: usize where "PthreadParker_PARKED = - 1"

lemma pthread_states [simp]:
  "PthreadParker_EMPTY \<noteq> PthreadParker_NOTIFIED" "PthreadParker_NOTIFIED \<noteq> PthreadParker_EMPTY"
  "PthreadParker_PARKED \<noteq> PthreadParker_NOTIFIED" "PthreadParker_NOTIFIED \<noteq> PthreadParker_PARKED"
  "PthreadParker_PARKED \<noteq> PthreadParker_EMPTY" "PthreadParker_EMPTY \<noteq> PthreadParker_PARKED"
  "PthreadParker_EMPTY - 1 = PthreadParker_PARKED" "PthreadParker_NOTIFIED - 1 = PthreadParker_EMPTY"
  by (simp_all add: PthreadParker_EMPTY_def PthreadParker_NOTIFIED_def PthreadParker_PARKED_def)

text \<open>
  \<open>PParkCheck\<close> and \<open>PParkWait\<close> hold the mutex, \<open>PParkAsleep\<close> and
  \<open>PParkRelock\<close> are inside \<^verbatim>\<open>pthread_cond_wait\<close>.
\<close>

datatype pthread_park_pc =
  PParkIdle | PParkLock | PParkCheck | PParkWait | PParkAsleep | PParkRelock | PParkUnlock | PParkPanic
datatype pthread_unpark_pc = PUnparkIdle | PUnparkLock | PUnparkUnlock | PUnparkSignal | PUnparkPanic

record pthread_parker =
  pp_state :: usize
  pp_mutex :: "holder option"
  pp_park :: pthread_park_pc
  pp_unpark :: "nat \<Rightarrow> pthread_unpark_pc"

definition pthread_parker_new :: pthread_parker where
  "pthread_parker_new = \<lparr>pp_state = PthreadParker_EMPTY, pp_mutex = None, pp_park = PParkIdle, pp_unpark = \<lambda>_. PUnparkIdle\<rparr>"

definition pthread_lock :: "pthread_ops \<Rightarrow> holder \<Rightarrow> pthread_parker \<Rightarrow> pthread_parker option res" where
  "pthread_lock F h p =
     (if pp_mutex p \<noteq> None then Inr None
      else bind_res (pthread_unwrap (pt_mutex_lock F)) (\<lambda>_. Inr (Some (p\<lparr>pp_mutex := Some h\<rparr>))))"

definition pthread_unlock :: "pthread_ops \<Rightarrow> pthread_parker \<Rightarrow> pthread_parker res" where
  "pthread_unlock F p = bind_res (pthread_unwrap (pt_mutex_unlock F)) (\<lambda>_. Inr (p\<lparr>pp_mutex := None\<rparr>))"

definition pthread_park_step :: "pthread_ops \<Rightarrow> pthread_parker \<Rightarrow> bool \<times> pthread_parker" where
  "pthread_park_step F p =
     (case pp_park p of
        PParkIdle \<Rightarrow>
          (pp_state p = PthreadParker_NOTIFIED,
           p\<lparr>pp_state := pp_state p - 1, pp_park := if pp_state p = PthreadParker_NOTIFIED then PParkIdle else PParkLock\<rparr>)
      | PParkLock \<Rightarrow>
          (False, case pthread_lock F ByParker p of
                    Inl _ \<Rightarrow> p\<lparr>pp_park := PParkPanic\<rparr>
                  | Inr None \<Rightarrow> p
                  | Inr (Some p) \<Rightarrow> p\<lparr>pp_park := PParkCheck\<rparr>)
      | PParkCheck \<Rightarrow>
          (False, if pp_state p = PthreadParker_NOTIFIED
                  then p\<lparr>pp_state := PthreadParker_EMPTY, pp_park := PParkUnlock\<rparr> else p\<lparr>pp_park := PParkWait\<rparr>)
      | PParkWait \<Rightarrow> (False, p\<lparr>pp_mutex := None, pp_park := PParkAsleep\<rparr>)
      | PParkAsleep \<Rightarrow> (False, p)
      | PParkRelock \<Rightarrow>
          (False, if pp_mutex p = None then p\<lparr>pp_mutex := Some ByParker, pp_park := PParkCheck\<rparr> else p)
      | PParkUnlock \<Rightarrow>
          (case pthread_unlock F p of
             Inl _ \<Rightarrow> (False, p\<lparr>pp_park := PParkPanic\<rparr>)
           | Inr p \<Rightarrow> (True, p\<lparr>pp_park := PParkIdle\<rparr>))
      | PParkPanic \<Rightarrow> (False, p))"

definition pthread_unpark_step :: "pthread_ops \<Rightarrow> nat \<Rightarrow> pthread_parker \<Rightarrow> bool \<times> pthread_parker" where
  "pthread_unpark_step F i p =
     (let at = (\<lambda>p c. p\<lparr>pp_unpark := (pp_unpark p)(i := c)\<rparr>) in
      case pp_unpark p i of
        PUnparkIdle \<Rightarrow>
          (pp_state p \<noteq> PthreadParker_PARKED,
           (at p (if pp_state p = PthreadParker_PARKED then PUnparkLock else PUnparkIdle))\<lparr>pp_state := PthreadParker_NOTIFIED\<rparr>)
      | PUnparkLock \<Rightarrow>
          (False, case pthread_lock F (ByUnparker i) p of
                    Inl _ \<Rightarrow> at p PUnparkPanic
                  | Inr None \<Rightarrow> p
                  | Inr (Some p) \<Rightarrow> at p PUnparkUnlock)
      | PUnparkUnlock \<Rightarrow>
          (False, case pthread_unlock F p of Inl _ \<Rightarrow> at p PUnparkPanic | Inr p \<Rightarrow> at p PUnparkSignal)
      | PUnparkSignal \<Rightarrow>
          (True, at (p\<lparr>pp_park := if pp_park p = PParkAsleep \<and> \<not> pt_cond_signal F True then PParkRelock else pp_park p\<rparr>)
                   PUnparkIdle)
      | PUnparkPanic \<Rightarrow> (False, p))"

definition pthread_parker_ops :: "pthread_ops \<Rightarrow> pthread_parker parker_ops" where
  "pthread_parker_ops F = \<lparr>pk_park = pthread_park_step F, pk_unpark = pthread_unpark_step F,
     pk_noise = \<lambda>p. if pp_park p = PParkAsleep then p\<lparr>pp_park := PParkRelock\<rparr> else p\<rparr>"

section \<open>Invariant\<close>

definition pthread_parker_inv :: "pthread_parker \<Rightarrow> bool" where
  "pthread_parker_inv p \<longleftrightarrow>
     (if pp_park p = PParkIdle \<or> pp_park p = PParkUnlock
      then pp_state p = PthreadParker_EMPTY \<or> pp_state p = PthreadParker_NOTIFIED
      else pp_state p = PthreadParker_PARKED \<or> pp_state p = PthreadParker_NOTIFIED)
   \<and> pp_park p \<noteq> PParkPanic
   \<and> (pp_mutex p = Some ByParker \<longleftrightarrow> pp_park p = PParkCheck \<or> pp_park p = PParkWait \<or> pp_park p = PParkUnlock)
   \<and> (\<forall>i. pp_mutex p = Some (ByUnparker i) \<longleftrightarrow> pp_unpark p i = PUnparkUnlock)
   \<and> (pp_park p = PParkWait \<longrightarrow> pp_state p = PthreadParker_NOTIFIED \<longrightarrow> (\<exists>i. pp_unpark p i = PUnparkLock))
   \<and> (pp_park p = PParkAsleep \<longrightarrow> pp_state p = PthreadParker_NOTIFIED \<longrightarrow> (\<exists>i. pp_unpark p i \<noteq> PUnparkIdle))"

text \<open>A token stays until \<^verbatim>\<open>park\<close> has returned, also after its flag has been taken.\<close>

definition pthread_token :: "pthread_parker \<Rightarrow> bool" where
  "pthread_token p \<longleftrightarrow> pp_state p = PthreadParker_NOTIFIED \<or> pp_park p = PParkUnlock"

locale pthread_api =
  fixes F :: pthread_ops
  assumes lock_succeeds: "pt_mutex_lock F = 0" and unlock_succeeds: "pt_mutex_unlock F = 0"
    and signal_wakes: "\<not> pt_cond_signal F True"
begin

lemma pthread_calls:
  "pthread_lock F h p = Inr (if pp_mutex p = None then Some (p\<lparr>pp_mutex := Some h\<rparr>) else None)"
  "pthread_unlock F p = Inr (p\<lparr>pp_mutex := None\<rparr>)"
  using lock_succeeds unlock_succeeds by (simp_all add: pthread_lock_def pthread_unlock_def pthread_unwrap_def)

lemma pthread_park_inv:
  assumes "pthread_parker_inv p"
  shows "pthread_parker_inv (snd (pthread_park_step F p))"
proof (cases "pp_park p")
  case PParkWait
  with assms show ?thesis
    by (auto simp: pthread_park_step_def pthread_parker_inv_def) (metis pthread_unpark_pc.distinct(1))
qed (use assms in \<open>auto simp: pthread_park_step_def pthread_calls pthread_parker_inv_def split: if_splits\<close>)

lemma pthread_unpark_inv:
  assumes inv: "pthread_parker_inv p"
  shows "pthread_parker_inv (snd (pthread_unpark_step F i p))"
proof (cases "pp_unpark p i")
  case PUnparkIdle
  with inv show ?thesis
    by (cases "pp_park p") (auto simp: pthread_unpark_step_def pthread_parker_inv_def, metis pthread_unpark_pc.distinct(1))
next
  case PUnparkLock
  have "pthread_parker_inv (p\<lparr>pp_mutex := Some (ByUnparker i), pp_unpark := (pp_unpark p)(i := PUnparkUnlock)\<rparr>)"
    if "pp_mutex p = None"
    using inv that unfolding pthread_parker_inv_def by (auto split: if_splits)
  with inv PUnparkLock show ?thesis by (auto simp: pthread_unpark_step_def pthread_calls)
next
  case PUnparkUnlock
  then have m: "pp_mutex p = Some (ByUnparker i)" using inv by (simp add: pthread_parker_inv_def)
  then have "((pp_unpark p)(i := PUnparkSignal)) j \<noteq> PUnparkUnlock" for j
    using inv by (auto simp: pthread_parker_inv_def)
  moreover have "\<exists>j. ((pp_unpark p)(i := PUnparkSignal)) j \<noteq> PUnparkIdle" by (rule exI [of _ i]) simp
  ultimately show ?thesis using inv m PUnparkUnlock
    by (auto simp: pthread_unpark_step_def pthread_calls pthread_parker_inv_def)
next
  case PUnparkSignal
  define u where "u = (pp_unpark p)(i := PUnparkIdle)"
  have same: "u j = PUnparkUnlock \<longleftrightarrow> pp_unpark p j = PUnparkUnlock" "u j = PUnparkLock \<longleftrightarrow> pp_unpark p j = PUnparkLock" for j
    using PUnparkSignal by (simp_all add: u_def)
  have e: "snd (pthread_unpark_step F i p)
      = p\<lparr>pp_park := if pp_park p = PParkAsleep then PParkRelock else pp_park p, pp_unpark := u\<rparr>"
    using PUnparkSignal signal_wakes by (simp add: pthread_unpark_step_def u_def)
  show ?thesis using inv unfolding e pthread_parker_inv_def by (cases "pp_park p") (auto simp: same)
qed (use inv in \<open>simp add: pthread_unpark_step_def\<close>)

end

sublocale pthread_api \<subseteq> pthread_tokens: token_parker "pthread_parker_ops F" pthread_parker_inv pthread_token
  "\<lambda>p i. pp_unpark p i \<noteq> PUnparkIdle"
proof
  fix p i j
  show "pthread_parker_inv p \<Longrightarrow> pthread_parker_inv (snd (pk_park (pthread_parker_ops F) p))"
    "pthread_parker_inv p \<Longrightarrow> pthread_parker_inv (snd (pk_unpark (pthread_parker_ops F) i p))"
    by (simp_all add: pthread_parker_ops_def pthread_park_inv pthread_unpark_inv)
  show "pthread_parker_inv p \<Longrightarrow> pthread_parker_inv (pk_noise (pthread_parker_ops F) p)"
    by (auto simp: pthread_parker_ops_def pthread_parker_inv_def)
  show "pthread_token (snd (pk_park (pthread_parker_ops F) p))"
    if "pthread_parker_inv p" "pthread_token p" "\<not> fst (pk_park (pthread_parker_ops F) p)"
    using that by (cases "pp_park p") (auto simp: pthread_parker_ops_def pthread_park_step_def pthread_calls pthread_token_def)
  show "(pp_unpark (snd (pk_park (pthread_parker_ops F) p)) i \<noteq> PUnparkIdle) = (pp_unpark p i \<noteq> PUnparkIdle)"
    by (cases "pp_park p") (auto simp: pthread_parker_ops_def pthread_park_step_def pthread_calls)
  show "pthread_token (pk_noise (pthread_parker_ops F) p) = pthread_token p"
    "(pp_unpark (pk_noise (pthread_parker_ops F) p) i \<noteq> PUnparkIdle) = (pp_unpark p i \<noteq> PUnparkIdle)"
    by (simp_all add: pthread_parker_ops_def pthread_token_def)
  show "pthread_token (snd (pk_unpark (pthread_parker_ops F) i p))"
    if "\<not> pp_unpark p i \<noteq> PUnparkIdle \<or> pthread_token p"
    using that by (cases "pp_unpark p i")
      (auto simp: pthread_parker_ops_def pthread_unpark_step_def pthread_calls pthread_token_def)
  show "(pp_unpark (snd (pk_unpark (pthread_parker_ops F) i p)) j \<noteq> PUnparkIdle)
      = (if j = i then \<not> fst (pk_unpark (pthread_parker_ops F) i p) else pp_unpark p j \<noteq> PUnparkIdle)"
    by (cases "pp_unpark p i") (auto simp: pthread_parker_ops_def pthread_unpark_step_def pthread_calls)
  show "let p1 = snd (pk_park (pthread_parker_ops F) p); p2 = snd (pk_park (pthread_parker_ops F) p1) in
      fst (pk_park (pthread_parker_ops F) p) \<or> fst (pk_park (pthread_parker_ops F) p1) \<or> fst (pk_park (pthread_parker_ops F) p2)"
    if inv: "pthread_parker_inv p" and t: "pthread_token p" and idle: "\<forall>i. \<not> pp_unpark p i \<noteq> PUnparkIdle"
  proof -
    have "pp_mutex p = None \<or> pp_mutex p = Some ByParker"
      using inv idle by (cases "pp_mutex p"; cases "the (pp_mutex p)") (auto simp: pthread_parker_inv_def)
    then show ?thesis using inv idle t
      by (cases "pp_park p")
        (auto simp: pthread_parker_ops_def pthread_park_step_def pthread_calls pthread_parker_inv_def pthread_token_def Let_def)
  qed
qed

text \<open>The promised behaviour itself.\<close>

definition pthread_posix :: pthread_ops where
  "pthread_posix = \<lparr>pt_mutex_lock = 0, pt_mutex_unlock = 0, pt_cond_signal = \<lambda>_. False\<rparr>"

interpretation posix: pthread_api pthread_posix
  by unfold_locales (simp_all add: pthread_posix_def)

text \<open>The new parker satisfies the invariant, and so does every state that its threads take it to.\<close>

lemma pthread_parker_new_inv: "pthread_parker_inv pthread_parker_new"
  by (simp add: pthread_parker_inv_def pthread_parker_new_def)

end
