(* ===== verification/Sync_Mutex.thy ===== *)
theory Sync_Mutex
  imports Pthread_Parker
begin

text \<open>
  The mutexes of \<^verbatim>\<open>src/sync/std.rs\<close> and \<^verbatim>\<open>src/sync/pthread.rs\<close>, and the
  choice of the default primitives in \<^verbatim>\<open>src/sync/mutex.rs\<close> and
  \<^verbatim>\<open>src/sync/parker.rs\<close>.
\<close>

section \<open>StdMutex\<close>

text \<open>
  \<^verbatim>\<open>StdMutex\<close> is the standard library's mutex, whose guard poisons it when it is dropped
  by a thread that has begun to panic since it took the lock; \<open>StdHeld b\<close> remembers whether
  the thread panicked already when it did. A thread that unwinds runs destructors, which may lock
  again; a second panic then ends the process, here the thread (\<open>StdAborted\<close>).
\<close>

datatype std_pc = StdIdle | StdLocking | StdHeld bool | StdAborted

record std_mutex =
  xm_holder :: "nat option"
  xm_poisoned :: bool
  xm_panicking :: "nat \<Rightarrow> bool"
  xm_pc :: "nat \<Rightarrow> std_pc"

definition std_mutex_new :: std_mutex where
  "std_mutex_new = \<lparr>xm_holder = None, xm_poisoned = False, xm_panicking = \<lambda>_. False, xm_pc = \<lambda>_. StdIdle\<rparr>"

definition std_lock_call :: "nat \<Rightarrow> std_mutex \<Rightarrow> std_mutex" where
  "std_lock_call t s = (if xm_pc s t = StdIdle then s\<lparr>xm_pc := (xm_pc s)(t := StdLocking)\<rparr> else s)"

text \<open>The panic for a poisoned lock; the guard inside the error is dropped on the way.\<close>

definition panic_lock :: "nat \<Rightarrow> std_mutex \<Rightarrow> std_mutex" where
  "panic_lock t s = s\<lparr>xm_panicking := (xm_panicking s)(t := True),
     xm_pc := (xm_pc s)(t := if xm_panicking s t then StdAborted else StdIdle)\<rparr>"

definition std_lock :: "nat \<Rightarrow> std_mutex \<Rightarrow> std_mutex" where
  "std_lock t s =
     (if xm_pc s t = StdLocking \<and> xm_holder s = None
      then if xm_poisoned s then panic_lock t s
        else s\<lparr>xm_holder := Some t, xm_pc := (xm_pc s)(t := StdHeld (xm_panicking s t))\<rparr>
      else s)"

definition std_unlock :: "nat \<Rightarrow> std_mutex \<Rightarrow> std_mutex" where
  "std_unlock t s =
     (case xm_pc s t of
        StdHeld b \<Rightarrow> s\<lparr>xm_holder := None, xm_poisoned := xm_poisoned s \<or> \<not> b \<and> xm_panicking s t,
                     xm_pc := (xm_pc s)(t := StdIdle)\<rparr>
      | _ \<Rightarrow> s)"

text \<open>A thread begins to panic, or its panic is caught once all its guards are gone.\<close>

definition std_panic :: "nat \<Rightarrow> std_mutex \<Rightarrow> std_mutex" where
  "std_panic t s = s\<lparr>xm_panicking := (xm_panicking s)(t := True)\<rparr>"

definition std_caught :: "nat \<Rightarrow> std_mutex \<Rightarrow> std_mutex" where
  "std_caught t s = (if xm_pc s t = StdIdle then s\<lparr>xm_panicking := (xm_panicking s)(t := False)\<rparr> else s)"

inductive std_step :: "std_mutex \<Rightarrow> std_mutex \<Rightarrow> bool" where
  "std_step s (std_lock_call t s)"
| "std_step s (std_lock t s)"
| "std_step s (std_unlock t s)"
| "std_step s (std_panic t s)"
| "std_step s (std_caught t s)"

definition std_holds :: "nat \<Rightarrow> std_mutex \<Rightarrow> bool" where
  "std_holds t s \<longleftrightarrow> (\<exists>b. xm_pc s t = StdHeld b)"

definition std_inv :: "std_mutex \<Rightarrow> bool" where
  "std_inv s \<longleftrightarrow> (\<forall>t. std_holds t s \<longleftrightarrow> xm_holder s = Some t)"

lemmas std_defs = std_lock_call_def std_lock_def std_unlock_def std_panic_def std_caught_def panic_lock_def

lemma std_unlock_inv: "std_inv s \<Longrightarrow> std_inv (std_unlock t s)"
proof (cases "xm_pc s t")
  case (StdHeld b)
  assume inv: "std_inv s"
  then have "xm_holder s = Some t" using StdHeld by (auto simp: std_inv_def std_holds_def)
  with inv StdHeld show ?thesis by (auto simp: std_inv_def std_holds_def std_unlock_def)
qed (simp_all add: std_unlock_def)

lemma std_other_inv:
  assumes inv: "std_inv s"
  shows "std_inv (std_lock_call t s)" "std_inv (std_lock t s)" "std_inv (std_panic t s)" "std_inv (std_caught t s)"
proof -
  have "xm_pc s t = StdIdle \<Longrightarrow> xm_holder s \<noteq> Some t" using inv unfolding std_inv_def std_holds_def by force
  then show "std_inv (std_lock_call t s)" using inv by (auto simp: std_inv_def std_holds_def std_lock_call_def)
qed (use inv in \<open>auto simp: std_inv_def std_holds_def std_lock_def std_panic_def std_caught_def panic_lock_def\<close>)

interpretation std_machine: invariant_of "\<lambda>s. s = std_mutex_new" std_step std_inv
proof
  show "s = std_mutex_new \<Longrightarrow> std_inv s" for s by (simp add: std_inv_def std_holds_def std_mutex_new_def)
  show "std_inv s \<Longrightarrow> std_step s s' \<Longrightarrow> std_inv s'" for s s'
    by (erule std_step.cases) (simp_all add: std_unlock_inv std_other_inv)
qed

interpretation std_mutex: mutex_contract "\<lambda>s. s = std_mutex_new" std_step std_holds
  by unfold_locales (auto dest!: std_machine.reach_inv simp: std_inv_def)

text \<open>
  Once a thread has panicked while it held the lock, no call of \<^verbatim>\<open>lock\<close> returns any more:
  the mutex stays poisoned, the holders can only become fewer, and a thread that gets as far as the
  lock panics.
\<close>

lemma std_poisoned_step:
  assumes "std_step s s'" and "xm_poisoned s"
  shows "xm_poisoned s' \<and> (std_holds t s' \<longrightarrow> std_holds t s)"
  using assms by (cases rule: std_step.cases) (auto simp: std_defs std_holds_def split: std_pc.splits if_splits)

lemma std_mutex_poisoned:
  assumes "std_step\<^sup>*\<^sup>* s s'" and "xm_poisoned s"
  shows "xm_poisoned s' \<and> (std_holds t s' \<longrightarrow> std_holds t s)"
  using assms by (induction rule: rtranclp_induct) (use std_poisoned_step in blast)+

lemma std_lock_poisoned:
  assumes "xm_poisoned s" and "xm_pc s t = StdLocking" and "xm_holder s = None"
  shows "xm_panicking (std_lock t s) t" and "\<not> std_holds t (std_lock t s)"
  using assms by (simp_all add: std_lock_def panic_lock_def std_holds_def)

section \<open>PthreadMutex\<close>

text \<open>
  The boxed mutexes on the heap with their kind, and the attribute object on the stack of
  \<^verbatim>\<open>init\<close> while it is initialised. The result codes of \<^verbatim>\<open>libc\<close> are a
  parameter.
\<close>

datatype mutex_kind = MutexDefault | MutexNormal

record pthread_heap =
  ph_boxes :: "addr \<rightharpoonup> mutex_kind"
  ph_attr :: "mutex_kind option"

record pthread_init_ops =
  pi_attr_init :: "32 word"
  pi_attr_settype :: "32 word"
  pi_mutex_init :: "32 word"
  pi_attr_destroy :: "32 word"

definition raw_mutex_drop :: "addr \<Rightarrow> pthread_heap \<Rightarrow> pthread_heap" where
  "raw_mutex_drop p h = h\<lparr>ph_boxes := (ph_boxes h)(p := None)\<rparr>"

definition attr_guard_drop :: "pthread_init_ops \<Rightarrow> pthread_heap \<Rightarrow> unit res \<times> pthread_heap" where
  "attr_guard_drop F h =
     (pthread_unwrap (pi_attr_destroy F), if pi_attr_destroy F = 0 then h\<lparr>ph_attr := None\<rparr> else h)"

text \<open>
  A panic with the guard alive drops the guard and the box; a second panic from the guard ends the
  process.
\<close>

definition init_unwind :: "pthread_init_ops \<Rightarrow> addr \<Rightarrow> fault \<Rightarrow> pthread_heap \<Rightarrow> addr res \<times> pthread_heap" where
  "init_unwind F p e h =
     (case attr_guard_drop F h of
        (Inl _, h) \<Rightarrow> (Inl (Panic ''panic in a destructor during cleanup''), h)
      | (Inr _, h) \<Rightarrow> (Inl e, raw_mutex_drop p h))"

definition raw_mutex_init :: "pthread_init_ops \<Rightarrow> addr \<Rightarrow> pthread_heap \<Rightarrow> addr res \<times> pthread_heap" where
  "raw_mutex_init F p h =
     (let h = h\<lparr>ph_boxes := (ph_boxes h)(p \<mapsto> MutexDefault)\<rparr> in
      case pthread_unwrap (pi_attr_init F) of
        Inl e \<Rightarrow> (Inl e, raw_mutex_drop p h)
      | Inr _ \<Rightarrow>
          let h = h\<lparr>ph_attr := Some MutexDefault\<rparr> in
          case pthread_unwrap (pi_attr_settype F) of
            Inl e \<Rightarrow> init_unwind F p e h
          | Inr _ \<Rightarrow>
              let h = h\<lparr>ph_attr := Some MutexNormal\<rparr> in
              case pthread_unwrap (pi_mutex_init F) of
                Inl e \<Rightarrow> init_unwind F p e h
              | Inr _ \<Rightarrow>
                  let h = h\<lparr>ph_boxes := (ph_boxes h)(p := ph_attr h)\<rparr> in
                  case attr_guard_drop F h of
                    (Inl e, h) \<Rightarrow> (Inl e, raw_mutex_drop p h)
                  | (Inr _, h) \<Rightarrow> (Inr p, h))"

text \<open>
  The mutex at its first use; \<open>race\<close> is the box of another thread that was faster, if there
  is one.
\<close>

definition pthread_race :: "addr option \<Rightarrow> lazy_box \<Rightarrow> lazy_box" where
  "pthread_race race b =
     (case race of None \<Rightarrow> b | Some q \<Rightarrow> b\<lparr>lb_ptr := q, lb_boxes := insert q (lb_boxes b)\<rparr>)"

definition pthread_mutex_raw ::
  "pthread_init_ops \<Rightarrow> addr \<Rightarrow> addr option \<Rightarrow> lazy_box \<Rightarrow> pthread_heap \<Rightarrow> addr res \<times> lazy_box \<times> pthread_heap" where
  "pthread_mutex_raw F new_ptr race b h =
     (if lb_ptr b \<noteq> 0 then (Inr (lb_ptr b), b, h)
      else case raw_mutex_init F new_ptr h of
          (Inl e, h) \<Rightarrow> (Inl e, b, h)
        | (Inr p, h) \<Rightarrow>
            let h = (case race of None \<Rightarrow> h | Some q \<Rightarrow> h\<lparr>ph_boxes := (ph_boxes h)(q \<mapsto> MutexNormal)\<rparr>) in
            case lazy_init p (pthread_race race) b of
              Inl e \<Rightarrow> (Inl e, b, h)
            | Inr (ptr, b) \<Rightarrow> (Inr ptr, b, if ptr = p then h else raw_mutex_drop p h))"

text \<open>
  The condition variable is allocated the same way, from a constant, which cannot fail; \<open>live\<close>
  are the condition variables on the heap.
\<close>

definition raw_condvar_init :: "addr \<Rightarrow> addr set \<Rightarrow> addr \<times> addr set" where
  "raw_condvar_init p live = (p, insert p live)"

definition raw_condvar_drop :: "addr \<Rightarrow> addr set \<Rightarrow> addr set" where
  "raw_condvar_drop p live = live - {p}"

definition pthread_condvar_raw :: "addr \<Rightarrow> addr option \<Rightarrow> lazy_box \<Rightarrow> addr set \<Rightarrow> (addr \<times> lazy_box \<times> addr set) res" where
  "pthread_condvar_raw new_ptr race b live =
     (if lb_ptr b \<noteq> 0 then Inr (lb_ptr b, b, live)
      else case raw_condvar_init new_ptr live of (p, live) \<Rightarrow>
        let live = (case race of None \<Rightarrow> live | Some q \<Rightarrow> insert q live) in
        bind_res (lazy_init p (pthread_race race) b) (\<lambda>(ptr, b). Inr (ptr, b, if ptr = p then live else raw_condvar_drop p live)))"

lemma attr_guard_drop_simps [simp]:
  "pi_attr_destroy F = 0 \<Longrightarrow> attr_guard_drop F h = (Inr (), h\<lparr>ph_attr := None\<rparr>)"
  "pi_attr_destroy F \<noteq> 0 \<Longrightarrow> attr_guard_drop F h = (Inl (Panic ''error''), h)"
  by (simp_all add: attr_guard_drop_def pthread_unwrap_def)

text \<open>
  \<^verbatim>\<open>init\<close> gives a mutex of the kind \<^verbatim>\<open>NORMAL\<close> or panics, the latter exactly
  if one of the functions of \<^verbatim>\<open>libc\<close> fails; it leaks neither the box nor, unless its
  destruction is what fails, the attribute object.
\<close>

lemma raw_mutex_init_ok:
  assumes "ph_boxes h p = None" and "ph_attr h = None"
    and "pi_attr_init F = 0" "pi_attr_settype F = 0" "pi_mutex_init F = 0" "pi_attr_destroy F = 0"
  shows "raw_mutex_init F p h = (Inr p, h\<lparr>ph_boxes := (ph_boxes h)(p \<mapsto> MutexNormal)\<rparr>)"
  using assms by (simp add: raw_mutex_init_def pthread_unwrap_def Let_def)

lemma raw_mutex_init_fails:
  assumes h: "ph_boxes h p = None" "ph_attr h = None"
    and f: "pi_attr_init F \<noteq> 0 \<or> pi_attr_settype F \<noteq> 0 \<or> pi_mutex_init F \<noteq> 0 \<or> pi_attr_destroy F \<noteq> 0"
  shows "\<exists>msg h'. raw_mutex_init F p h = (Inl (Panic msg), h') \<and> (pi_attr_destroy F = 0 \<longrightarrow> h' = h)"
proof -
  have "(ph_boxes h)(p := None) = ph_boxes h" using h by auto
  then show ?thesis using f h
    by (cases "pi_attr_init F = 0"; cases "pi_attr_settype F = 0"; cases "pi_mutex_init F = 0"; cases "pi_attr_destroy F = 0")
      (simp_all add: raw_mutex_init_def init_unwind_def raw_mutex_drop_def pthread_unwrap_def Let_def)
qed

section \<open>Defaults\<close>

text \<open>
  Which primitives a queue has by default, from the features the crate is built with.
\<close>

record features =
  cfg_loom :: bool
  cfg_parking_lot :: bool
  cfg_atomic_wait :: bool
  cfg_std :: bool
  cfg_pthread :: bool

datatype default_mutex = DefaultStdMutex | DefaultParkingLot | DefaultPthreadMutex | DefaultSpinMutex
datatype default_parker = DefaultStdParker | DefaultAtomicParker | DefaultPthreadParker | DefaultSpinParker

definition DefaultMutex :: "features \<Rightarrow> default_mutex" where
  "DefaultMutex f =
     (if cfg_loom f then DefaultStdMutex else if cfg_parking_lot f then DefaultParkingLot
      else if cfg_std f then DefaultStdMutex else if cfg_pthread f then DefaultPthreadMutex else DefaultSpinMutex)"

definition DefaultParker :: "features \<Rightarrow> default_parker" where
  "DefaultParker f =
     (if cfg_loom f then DefaultStdParker else if cfg_atomic_wait f then DefaultAtomicParker
      else if cfg_std f then DefaultStdParker else if cfg_pthread f then DefaultPthreadParker else DefaultSpinParker)"

text \<open>The standard library alone is enough for a mutex and a parker that block.\<close>

lemma defaults_block:
  "DefaultMutex f = DefaultSpinMutex \<longleftrightarrow> \<not> cfg_loom f \<and> \<not> cfg_parking_lot f \<and> \<not> cfg_std f \<and> \<not> cfg_pthread f"
  "DefaultParker f = DefaultSpinParker \<longleftrightarrow> \<not> cfg_loom f \<and> \<not> cfg_atomic_wait f \<and> \<not> cfg_std f \<and> \<not> cfg_pthread f"
  by (simp_all add: DefaultMutex_def DefaultParker_def)

section \<open>Properties\<close>

lemma pthread_race_lazy:
  assumes b: "lb_ptr b = 0" "lazy_box_ok others b" and p: "p \<noteq> 0" "p \<notin> others"
    and q: "\<And>q. race = Some q \<Longrightarrow> q \<noteq> 0 \<and> q \<noteq> p \<and> q \<notin> others"
  shows "\<exists>b'. lazy_init p (pthread_race race) b = Inr (case race of None \<Rightarrow> p | Some q \<Rightarrow> q, b')
    \<and> lb_ptr b' = (case race of None \<Rightarrow> p | Some q \<Rightarrow> q) \<and> lazy_box_ok others b'"
  using assms by (cases race) (auto simp: lazy_init_def pthread_race_def lazy_box_ok_def Let_def)

text \<open>Whoever wins the race, one condition variable is added to the heap, and everybody uses it.\<close>

lemma pthread_condvar_once:
  assumes "lb_ptr b = 0" and "lazy_box_ok live b" and "new_ptr \<noteq> 0" and "new_ptr \<notin> live"
    and "\<And>q. race = Some q \<Longrightarrow> q \<noteq> 0 \<and> q \<noteq> new_ptr \<and> q \<notin> live"
  shows "\<exists>p b'. pthread_condvar_raw new_ptr race b live = Inr (p, b', insert p live) \<and> p \<noteq> 0 \<and> p \<notin> live \<and> lb_ptr b' = p
    \<and> (\<forall>p' race' live'. pthread_condvar_raw p' race' b' live' = Inr (p, b', live')) \<and> lb_boxes (lazy_box_drop b') = live"
proof -
  let ?p = "case race of None \<Rightarrow> new_ptr | Some q \<Rightarrow> q"
  obtain b' where b': "lazy_init new_ptr (pthread_race race) b = Inr (?p, b')" "lb_ptr b' = ?p" "lazy_box_ok live b'"
    using pthread_race_lazy [OF assms] by blast
  have p: "?p \<noteq> 0" "?p \<notin> live" using assms(3-5) by (auto split: option.split)
  have "pthread_condvar_raw new_ptr race b live = Inr (?p, b', insert ?p live)"
    using assms b'(1) by (cases race) (auto simp: pthread_condvar_raw_def raw_condvar_init_def raw_condvar_drop_def Let_def)
  moreover have "pthread_condvar_raw p' race' b' live' = Inr (?p, b', live')" for p' race' live'
    using b'(2) p by (simp add: pthread_condvar_raw_def)
  moreover have "lb_boxes (lazy_box_drop b') = live" using b'(2,3) p by (auto simp: lazy_box_drop_def lazy_box_ok_def)
  ultimately show ?thesis using b'(2) p by (intro exI [of _ ?p] exI [of _ b']) simp
qed

text \<open>
  C39. A \<^verbatim>\<open>PthreadMutex\<close> is initialised once and completely. Its first user installs a
  mutex of the kind \<^verbatim>\<open>NORMAL\<close>; a thread that loses the race to another one destroys its
  own and uses the winner's, so that exactly one mutex is added to the heap, and everybody uses that
  one from then on. If one of the functions of \<^verbatim>\<open>libc\<close> reports an error the call panics
  and leaves the box empty, with nothing leaked unless it is the destruction of the attributes that
  fails.
\<close>

theorem pthread_mutex_once:
  assumes "lb_ptr b = 0" and "lazy_box_ok others b" and "dom (ph_boxes h) = others" and "ph_attr h = None"
    and "new_ptr \<noteq> 0" and "new_ptr \<notin> others" and "\<And>q. race = Some q \<Longrightarrow> q \<noteq> 0 \<and> q \<noteq> new_ptr \<and> q \<notin> others"
  shows "(pi_attr_init F = 0 \<and> pi_attr_settype F = 0 \<and> pi_mutex_init F = 0 \<and> pi_attr_destroy F = 0 \<longrightarrow>
      (\<exists>p b'. pthread_mutex_raw F new_ptr race b h = (Inr p, b', h\<lparr>ph_boxes := (ph_boxes h)(p \<mapsto> MutexNormal)\<rparr>)
        \<and> p \<noteq> 0 \<and> p \<notin> others \<and> lb_ptr b' = p \<and> lazy_box_ok others b'
        \<and> (\<forall>F' p' race' h'. pthread_mutex_raw F' p' race' b' h' = (Inr p, b', h'))
        \<and> lb_boxes (lazy_box_drop b') = others))
    \<and> (pi_attr_init F \<noteq> 0 \<or> pi_attr_settype F \<noteq> 0 \<or> pi_mutex_init F \<noteq> 0 \<or> pi_attr_destroy F \<noteq> 0 \<longrightarrow>
      (\<exists>msg h'. pthread_mutex_raw F new_ptr race b h = (Inl (Panic msg), b, h') \<and> (pi_attr_destroy F = 0 \<longrightarrow> h' = h)))"
proof (intro conjI impI)
  have free: "ph_boxes h new_ptr = None" using assms(3,6) by auto
  assume f: "pi_attr_init F = 0 \<and> pi_attr_settype F = 0 \<and> pi_mutex_init F = 0 \<and> pi_attr_destroy F = 0"
  let ?p = "case race of None \<Rightarrow> new_ptr | Some q \<Rightarrow> q"
  obtain b' where b': "lazy_init new_ptr (pthread_race race) b = Inr (?p, b')" "lb_ptr b' = ?p" "lazy_box_ok others b'"
    using pthread_race_lazy [OF assms(1,2,5,6,7)] by blast
  have p: "?p \<noteq> 0" "?p \<notin> others" using assms(5,6,7) by (auto split: option.split)
  have upd: "((ph_boxes h)(new_ptr \<mapsto> MutexNormal, q \<mapsto> MutexNormal))(new_ptr := None) = (ph_boxes h)(q \<mapsto> MutexNormal)"
    if "race = Some q" for q
    using free assms(7) [OF that] by (auto simp: fun_eq_iff)
  have "pthread_mutex_raw F new_ptr race b h = (Inr ?p, b', h\<lparr>ph_boxes := (ph_boxes h)(?p \<mapsto> MutexNormal)\<rparr>)"
    using assms(1) raw_mutex_init_ok [OF free assms(4)] f b'(1) upd assms(7)
    by (cases race) (auto simp: pthread_mutex_raw_def raw_mutex_drop_def)
  moreover have "pthread_mutex_raw F' p' race' b' h' = (Inr ?p, b', h')" for F' p' race' h' using b'(2) p by (simp add: pthread_mutex_raw_def)
  moreover have "lb_boxes (lazy_box_drop b') = others" using b'(2,3) p by (auto simp: lazy_box_drop_def lazy_box_ok_def)
  ultimately show "\<exists>p b'. pthread_mutex_raw F new_ptr race b h = (Inr p, b', h\<lparr>ph_boxes := (ph_boxes h)(p \<mapsto> MutexNormal)\<rparr>)
        \<and> p \<noteq> 0 \<and> p \<notin> others \<and> lb_ptr b' = p \<and> lazy_box_ok others b'
        \<and> (\<forall>F' p' race' h'. pthread_mutex_raw F' p' race' b' h' = (Inr p, b', h'))
        \<and> lb_boxes (lazy_box_drop b') = others"
    using b' p by (intro exI [of _ ?p] exI [of _ b']) auto
next
  have free: "ph_boxes h new_ptr = None" using assms(3,6) by auto
  assume f: "pi_attr_init F \<noteq> 0 \<or> pi_attr_settype F \<noteq> 0 \<or> pi_mutex_init F \<noteq> 0 \<or> pi_attr_destroy F \<noteq> 0"
  show "\<exists>msg h'. pthread_mutex_raw F new_ptr race b h = (Inl (Panic msg), b, h') \<and> (pi_attr_destroy F = 0 \<longrightarrow> h' = h)"
    using raw_mutex_init_fails [OF free assms(4) f] assms(1) by (auto simp: pthread_mutex_raw_def)
qed

text \<open>Two threads race for the first use, and the other one wins; then \<^verbatim>\<open>settype\<close> fails.\<close>

theorem pthread_mutex_once_witness:
  "(\<exists>p b'. pthread_mutex_raw \<lparr>pi_attr_init = 0, pi_attr_settype = 0, pi_mutex_init = 0, pi_attr_destroy = 0\<rparr> 4096 (Some 8192)
       lazy_box_new \<lparr>ph_boxes = Map.empty, ph_attr = None\<rparr> = (Inr p, b', \<lparr>ph_boxes = [p \<mapsto> MutexNormal], ph_attr = None\<rparr>))
   \<and> (\<exists>msg. pthread_mutex_raw \<lparr>pi_attr_init = 0, pi_attr_settype = 22, pi_mutex_init = 0, pi_attr_destroy = 0\<rparr> 4096 (Some 8192)
       lazy_box_new \<lparr>ph_boxes = Map.empty, ph_attr = None\<rparr> = (Inl (Panic msg), lazy_box_new, \<lparr>ph_boxes = Map.empty, ph_attr = None\<rparr>))"
proof -
  let ?h = "\<lparr>ph_boxes = Map.empty, ph_attr = None\<rparr>"
  have ok: "lb_ptr lazy_box_new = 0" "lazy_box_ok {} lazy_box_new" "dom (ph_boxes ?h) = {}" "ph_attr ?h = None" "(4096 :: addr) \<noteq> 0" "4096 \<notin> {}"
    by (simp_all add: lazy_box_new_def lazy_box_ok_def)
  note t = pthread_mutex_once [where race = "Some 8192", OF ok]
  show ?thesis
    using t [of "\<lparr>pi_attr_init = 0, pi_attr_settype = 0, pi_mutex_init = 0, pi_attr_destroy = 0\<rparr>"]
      t [of "\<lparr>pi_attr_init = 0, pi_attr_settype = 22, pi_mutex_init = 0, pi_attr_destroy = 0\<rparr>"] by fastforce
qed

end
