(* ===== verification/Array_Vec.thy ===== *)
theory Array_Vec
  imports Wait_Queue
begin

text \<open>
  The examples \<^verbatim>\<open>semaphore.rs\<close> and \<^verbatim>\<open>notify.rs\<close> collect wakers in an
  \<^verbatim>\<open>ArrayVec<Waker, 32>\<close> of the crate \<^verbatim>\<open>arrayvec\<close>, which is not part of
  this repository. It is a parameter of their models, the record \<open>wakers_ops\<close> of the four
  functions they call, and the locale \<open>bounded_wakers\<close> states what its documentation says: the
  vector starts empty, \<^verbatim>\<open>push\<close> appends while there is room, \<^verbatim>\<open>is_full\<close>
  says whether there are 32 elements, and \<^verbatim>\<open>drain(..)\<close> yields the elements in order
  and leaves the vector empty. The crate's own \<open>waker_list\<close> keeps the same contract.

  The pattern the two examples share, a drain that wakes in batches of 32 without the lock, is
  verified here once for any such vector.
\<close>

section \<open>The contract\<close>

record 'v wakers_ops =
  av_new :: 'v
  av_push :: "waker \<Rightarrow> 'v \<Rightarrow> 'v res"
  av_is_full :: "'v \<Rightarrow> bool"
  av_drain :: "'v \<Rightarrow> (waker list \<times> 'v) res"

locale bounded_wakers =
  fixes A :: "'v wakers_ops" and rep :: "'v \<Rightarrow> waker list \<Rightarrow> bool"
  assumes new_rep: "rep (av_new A) []"
    and push_rep: "rep v ws \<Longrightarrow> length ws < 32 \<Longrightarrow> \<exists>v'. av_push A w v = Inr v' \<and> rep v' (ws @ [w])"
    and full_rep: "rep v ws \<Longrightarrow> av_is_full A v \<longleftrightarrow> length ws = 32"
    and drain_rep: "rep v ws \<Longrightarrow> \<exists>v'. av_drain A v = Inr (ws, v') \<and> rep v' []"

definition waker_list_ops :: "waker_list wakers_ops" where
  "waker_list_ops = \<lparr>av_new = waker_list_new, av_push = waker_list_push, av_is_full = waker_list_is_full,
     av_drain = waker_list_drain\<rparr>"

interpretation crate_wakers: bounded_wakers waker_list_ops waker_list_ok
proof
  show "waker_list_ok (av_new waker_list_ops) []" by (simp add: waker_list_ops_def waker_list_new_ok)
  show "\<exists>v'. av_push waker_list_ops w v = Inr v' \<and> waker_list_ok v' (ws @ [w])"
    if "waker_list_ok v ws" "length ws < 32" for v ws w
    using waker_list_push_ok [OF that, of w] by (auto simp: waker_list_ops_def)
  show "av_is_full waker_list_ops v \<longleftrightarrow> length ws = 32" if "waker_list_ok v ws" for v ws
    using that by (simp add: waker_list_ops_def waker_list_is_full_def waker_list_ok_def)
  show "\<exists>v'. av_drain waker_list_ops v = Inr (ws, v') \<and> waker_list_ok v' []" if "waker_list_ok v ws" for v ws
    using waker_list_drain_ok [OF that] by (auto simp: waker_list_ops_def)
qed

section \<open>Draining a queue in batches\<close>

text \<open>
  The closures of a \<^verbatim>\<open>for_each\<close> that takes the waker out of every waiter:
  \<open>get\<close> yields it (a fault if the closure unwraps a missing one), \<open>upd\<close> is what the
  closure writes to the waiter. The helper is the vector with the log of wake-ups, each with whether the lock was held.
\<close>

definition push_waker_next ::
  "'v wakers_ops \<Rightarrow> ('d \<Rightarrow> waker option res) \<Rightarrow> ('d \<Rightarrow> 'd) \<Rightarrow> ('v \<times> wakeups) res \<Rightarrow> 'd
   \<Rightarrow> bool \<times> ('v \<times> wakeups) res \<times> 'd" where
  "push_waker_next A get upd h w =
     (case bind_res h (\<lambda>(v, log). bind_res (get w) (\<lambda>k. case k of
           None \<Rightarrow> Inr (v, log)
         | Some k \<Rightarrow> bind_res (av_push A k v) (\<lambda>v. Inr (v, log)))) of
        Inl e \<Rightarrow> (False, Inl e, upd w)
      | Inr (v, log) \<Rightarrow> (av_is_full A v, Inr (v, log), upd w))"

definition wake_batch :: "'v wakers_ops \<Rightarrow> bool \<Rightarrow> ('v \<times> wakeups) res \<Rightarrow> ('v \<times> wakeups) res" where
  "wake_batch A locked h =
     bind_res h (\<lambda>(v, log). bind_res (av_drain A v) (\<lambda>(ws, v). Inr (v, log @ map (\<lambda>w. (w, locked)) ws)))"

definition drain_wakers ::
  "'v wakers_ops \<Rightarrow> ('d \<Rightarrow> waker option res) \<Rightarrow> ('d \<Rightarrow> 'd) \<Rightarrow> nat \<Rightarrow> usize \<Rightarrow> addr \<Rightarrow> ('d queue \<Rightarrow> 'd queue)
   \<Rightarrow> wakeups \<Rightarrow> 'd queue \<Rightarrow> (wakeups \<times> 'd queue) res" where
  "drain_wakers A get upd n st s others log q =
     bind_res (drain_try_set_state usize_state st s q) (\<lambda>(d, q).
     bind_res (for_each n (push_waker_next A get upd) (wake_batch A) others d (Inr (av_new A, log)) q) (\<lambda>(h, q).
     bind_res h (\<lambda>(_, log). Inr (log, q))))"

text \<open>The wakers that a traversal of \<open>ns\<close> finds, in order.\<close>

definition found :: "waker option \<Rightarrow> waker list" where
  "found k = (case k of None \<Rightarrow> [] | Some w \<Rightarrow> [w])"

definition wakers_of :: "(addr \<Rightarrow> waker option) \<Rightarrow> addr list \<Rightarrow> waker list" where
  "wakers_of k ns = concat (map (\<lambda>x. found (k x)) ns)"

lemma found_simps [simp]: "found None = []" "found (Some w) = [w]"
  by (simp_all add: found_def)

lemma wakers_of_simps [simp]: "wakers_of k [] = []" "wakers_of k (x # xs) = found (k x) @ wakers_of k xs"
  by (simp_all add: wakers_of_def)

lemma wakers_of_append [simp]: "wakers_of k (xs @ ys) = wakers_of k xs @ wakers_of k ys"
  by (simp add: wakers_of_def)

lemma wakers_of_cong: "(\<And>x. x \<in> set ns \<Longrightarrow> k x = k' x) \<Longrightarrow> wakers_of k ns = wakers_of k' ns"
  by (induction ns) simp_all

lemma wakers_of_Some: "\<forall>x\<in>set ns. k x = Some (f x) \<Longrightarrow> wakers_of k ns = map f ns"
  by (induction ns) simp_all

abbreviation unlocked_wakes :: "waker list \<Rightarrow> wakeups" where
  "unlocked_wakes ws \<equiv> map (\<lambda>w. (w, False)) ws"

context bounded_wakers
begin

lemma push_waker_next_ok:
  assumes v: "rep v ws" "length ws < 32" and w: "get w = Inr k"
  obtains v' where "push_waker_next A get upd (Inr (v, log)) w = (length (ws @ found k) = 32, Inr (v', log), upd w)"
    "rep v' (ws @ found k)"
proof (cases k)
  case None
  with v w full_rep [OF v(1)] show ?thesis by (intro that [of v]) (simp_all add: push_waker_next_def)
next
  case (Some x)
  obtain v' where v': "av_push A x v = Inr v'" "rep v' (ws @ [x])" using push_rep [OF v] by blast
  with Some w full_rep [OF v'(2)] show ?thesis by (intro that [of v']) (simp_all add: push_waker_next_def)
qed

lemma wake_batch_ok:
  assumes "rep v ws"
  obtains v' where "wake_batch A False (Inr (v, log)) = Inr (v', log @ unlocked_wakes ws)" "rep v' []"
  using drain_rep [OF assms] that by (auto simp: wake_batch_def)

lemma drain_wakers_visit:
  "\<forall>x\<in>set ns. \<exists>w. D x = Some w \<and> get w = Inr (k x) \<Longrightarrow> rep v ws \<Longrightarrow> length ws < 32 \<Longrightarrow>
   \<exists>v' ws' log'. visit (push_waker_next A get upd) (wake_batch A False) D ns (Inr (v, log)) = Inr (v', log')
     \<and> rep v' ws' \<and> log' @ unlocked_wakes ws' = log @ unlocked_wakes (ws @ wakers_of k ns)"
proof (induction ns arbitrary: v ws log)
  case Nil
  then show ?case by auto
next
  case (Cons x xs)
  then obtain w where w: "D x = Some w" "get w = Inr (k x)" by auto
  have D: "\<forall>x\<in>set xs. \<exists>w. D x = Some w \<and> get w = Inr (k x)" using Cons.prems(1) by simp
  let ?ws = "ws @ found (k x)"
  obtain v1 where v1: "push_waker_next A get upd (Inr (v, log)) w = (length ?ws = 32, Inr (v1, log), upd w)" "rep v1 ?ws"
    by (rule push_waker_next_ok [where upd = upd and get = get, OF Cons.prems(2,3) w(2)])
  have len: "length ?ws \<le> 32" using Cons.prems(3) by (cases "k x") simp_all
  show ?case
  proof (cases "length ?ws = 32 \<and> xs \<noteq> []")
    case True
    obtain v2 where v2: "wake_batch A False (Inr (v1, log)) = Inr (v2, log @ unlocked_wakes ?ws)" "rep v2 []"
      by (rule wake_batch_ok [OF v1(2)])
    from Cons.IH [OF D v2(2), of "log @ unlocked_wakes ?ws"] v1(1) v2(1) w True show ?thesis by simp
  next
    case False
    show ?thesis
    proof (cases "xs = []")
      case True
      with v1 w show ?thesis by auto
    next
      case False
      with \<open>\<not> (length ?ws = 32 \<and> xs \<noteq> [])\<close> len have "length ?ws < 32" by linarith
      from Cons.IH [OF D v1(2) this, of log] v1(1) w this show ?thesis by simp
    qed
  qed
qed

lemma drain_wakers_ok:
  assumes wf: "queue_wf usize_state q ns" and lk: "q_locked q" and s: "q_links q s = None" "node_addr s"
    and D: "\<forall>x\<in>set ns. \<exists>w. q_data q x = Some w \<and> get w = Inr (k x)"
    and st: "st \<le> INTRUSIVE_QUEUE_MAX_STATE" and env: "drain_env (=) usize_state s others" and n: "length ns < n"
  shows "\<exists>q' pend' ms'. drain_wakers A get upd n st s others log q = Inr (log @ unlocked_wakes (wakers_of k ns), q')
    \<and> queue_inv usize_state q' pend' ms' \<and> nodes_ok q' {} (set ms') \<and> q_links q' s = None \<and> \<not> q_locked q'
    \<and> ((\<forall>q. q_tail (others q) = q_tail q) \<longrightarrow>
         state_of usize_state q' = (if ns = [] then state_of usize_state q else Some st))"
proof -
  obtain w where w: "enum_to_tail usize_state (State st) = Inr w" "tail_to_enum usize_state w = State st"
    using usize_qs.state_encodable [OF st] by blast
  let ?d = "\<lparr>d_sentinel = s, d_locked = True\<rparr>"
  obtain q1 where q1: "drain_new usize_state w s q = Inr (?d, q1)" "draining usize_state q1 {} s ns []"
    "state_of usize_state q1 = (if ns = [] then state_of usize_state q else Some st)"
    "q_locked q1 = q_locked q" "q_data q1 = q_data q"
    by (rule drain_new_ok [OF queue_wf_inv [OF wf] queue_wf_nodes [OF wf] s _ _ w(2)]) auto
  have D1: "\<forall>x\<in>set ns. \<exists>w. q_data q1 x = Some w \<and> get w = Inr (k x)" using D q1(5) by simp
  obtain v' ws' log' where v: "visit (push_waker_next A get upd) (wake_batch A False) (q_data q1) ns (Inr (av_new A, log)) = Inr (v', log')"
    "rep v' ws'" "log' @ unlocked_wakes ws' = log @ unlocked_wakes (wakers_of k ns)"
    using drain_wakers_visit [OF D1 new_rep, of upd log] by force
  obtain v2 where v2: "wake_batch A False (Inr (v', log')) = Inr (v2, log @ unlocked_wakes (wakers_of k ns))"
    using wake_batch_ok [OF v(2)] v(3) by metis
  have live: "\<forall>x\<in>set ns. q_data q1 x \<noteq> None" using D1 by auto
  obtain q' pend' ms' where r: "for_each n (push_waker_next A get upd) (wake_batch A) others ?d (Inr (av_new A, log)) q1
      = Inr (wake_batch A False (Inr (v', log')), q')"
    "queue_inv usize_state q' pend' ms'" "nodes_ok q' {} (set ms')" "q_links q' s = None" "\<not> q_locked q'"
    "(\<forall>q. q_tail (others q) = q_tail q) \<longrightarrow> q_tail q' = q_tail q1"
    using all_nodes.for_each_ok [OF env q1(2) _ _ live n, of "push_waker_next A get upd" "wake_batch A" "Inr (av_new A, log)"]
      lk q1(4) v(1) by (auto simp: visited_def)
  have "drain_wakers A get upd n st s others log q = Inr (log @ unlocked_wakes (wakers_of k ns), q')"
    using w(1) q1(1) r(1) v2 by (simp add: drain_wakers_def drain_try_set_state_def)
  with r q1(3) show ?thesis by (auto simp: state_of_def)
qed

text \<open>Without interference nothing else changes.\<close>

lemma drain_wakers_alone:
  assumes wf: "queue_wf usize_state q ns" and lk: "q_locked q" and s: "q_links q s = None" "node_addr s"
    and D: "\<forall>x\<in>set ns. \<exists>w. q_data q x = Some w \<and> get w = Inr (k x)"
    and st: "st \<le> INTRUSIVE_QUEUE_MAX_STATE" and n: "length ns < n"
  obtains q' where "drain_wakers A get upd n st s id log q = Inr (log @ unlocked_wakes (wakers_of k ns), q')"
    "queue_wf usize_state q' []" "\<not> q_locked q'" "state_of usize_state q' = (if ns = [] then state_of usize_state q else Some st)"
    "q_data q' = (\<lambda>x. if x \<in> set ns then map_option upd (q_data q x) else q_data q x)"
    "node_states q' = (\<lambda>x. if x \<in> set ns then Some Dequeued else node_states q x)"
proof -
  obtain w where w: "enum_to_tail usize_state (State st) = Inr w" "tail_to_enum usize_state w = State st"
    using usize_qs.state_encodable [OF st] by blast
  let ?next = "push_waker_next A get upd"
  obtain v' ws' log' where v: "visit ?next (wake_batch A False) (q_data q) ns (Inr (av_new A, log)) = Inr (v', log')"
    "rep v' ws'" "log' @ unlocked_wakes ws' = log @ unlocked_wakes (wakers_of k ns)"
    using drain_wakers_visit [OF D new_rep, of upd log] by force
  obtain v2 where v2: "wake_batch A False (Inr (v', log')) = Inr (v2, log @ unlocked_wakes (wakers_of k ns))"
    using wake_batch_ok [OF v(2)] v(3) by metis
  have upd: "snd (snd (?next h v)) = upd v" for h v by (simp add: push_waker_next_def split: sum.split)
  have live: "\<forall>x\<in>set ns. q_data q x \<noteq> None" using D by auto
  obtain q1 q' where r: "drain_new usize_state w s q = Inr (\<lparr>d_sentinel = s, d_locked = True\<rparr>, q1)"
    "for_each n ?next (wake_batch A) id \<lparr>d_sentinel = s, d_locked = True\<rparr> (Inr (av_new A, log)) q1
      = Inr (wake_batch A False (visit ?next (wake_batch A False) (q_data q) ns (Inr (av_new A, log))), q')"
    "queue_wf usize_state q' []" "\<not> q_locked q'" "state_of usize_state q' = (if ns = [] then state_of usize_state q else Some st)"
    "q_data q' = (\<lambda>x. if x \<in> set ns then map_option upd (q_data q x) else q_data q x)"
    "node_states q' = (\<lambda>x. if x \<in> set ns then Some Dequeued else node_states q x)"
    by (rule drain_visit_alone [where on_unlock = "wake_batch A" and h = "Inr (av_new A, log)", OF upd wf lk s live w(2) n])
  then show ?thesis using w(1) v(1) v2
    by (intro that [of q']) (simp_all add: drain_wakers_def drain_try_set_state_def)
qed

end

text \<open>An insertion that insists on the state it has just seen succeeds if nothing happened since.\<close>

lemma wf_enqueue_same_state:
  assumes wf: "queue_wf usize_state q ns" and p: "node_states q p = Some Unqueued"
  obtains q' where
    "try_enqueue_with_queue_state usize_state p (\<lambda>s. s = state_of usize_state q) [] (q\<lparr>q_data := D\<rparr>) = Inr (True, q')"
    "queue_wf usize_state q' (ns @ [p])" "q_locked q' = q_locked q" "q_data q' = D" "dom (q_links q') = dom (q_links q)"
    "node_states q' = (node_states q)(p \<mapsto> Queued)"
proof -
  let ?q = "q\<lparr>q_data := D\<rparr>"
  let ?chk = "\<lambda>tail. sop_state (tail_to_enum usize_state tail) = state_of usize_state q"
  have wf': "queue_wf usize_state ?q ns" using wf by simp
  have "node_states ?q p = Some Unqueued" "?chk (q_tail ?q)" using p by (simp_all add: state_of_def)
  then obtain q' where "enqueue usize_state p ?chk [] ?q = Inr (True, q')" "queue_wf usize_state q' (ns @ [p])" "frame ?q q'"
    "node_states q' = (node_states ?q)(p \<mapsto> Queued)"
    using usize_qs.wf_enqueue [OF wf', of p ?chk] by metis
  then show ?thesis by (intro that [of q']) (simp_all add: try_enqueue_with_queue_state_def frame_def)
qed

text \<open>Only the links and the tail matter for the shape of a queue, not the data of its nodes.\<close>

lemma queue_wf_same_links:
  "q_links q' = q_links q \<Longrightarrow> q_head q' = q_head q \<Longrightarrow> q_tail q' = q_tail q \<Longrightarrow> queue_wf S q' ns = queue_wf S q ns"
proof -
  assume a: "q_links q' = q_links q" "q_head q' = q_head q" "q_tail q' = q_tail q"
  then have "cell q' = cell q" "prev_of q' = prev_of q"
    by (auto simp: cell_def prev_of_def fun_eq_iff split: next_ref.splits)
  with a(3) show ?thesis by (simp add: queue_wf_def queue_inv_def nodes_ok_def tail_node_def)
qed

text \<open>Examples: a queue with one node, and an empty queue with one unqueued node.\<close>

definition one_node :: "'d \<Rightarrow> 'd queue" where
  "one_node d = \<lparr>q_tail = 4097, q_head = 4096, q_locked = False,
     q_links = [4096 \<mapsto> \<lparr>link_prev = 2, link_next = 0\<rparr>], q_data = [4096 \<mapsto> d]\<rparr>"

lemma one_node_wf: "queue_wf usize_state (one_node d) [4096]"
proof -
  have "chain (cell (one_node d)) (prev_of (one_node d)) {} HeadRef [4096] 0"
  proof (rule chainI)
    show "cell (one_node d) r = Some (case succ HeadRef [4096] r of None \<Rightarrow> 0 | Some y \<Rightarrow> if y \<in> {} then 0 else y)"
      if "r \<in> refs HeadRef [4096]" for r
      using that by (auto simp: refs_def cell_def one_node_def)
    show "prev_of (one_node d) y = Some (ref_ptr r)" if "succ HeadRef [4096] r = Some y" for r y
      using that by (auto simp: prev_of_def one_node_def HEAD_MARKER_def into_ptr_def split: if_splits)
  qed (simp, auto simp: example_addrs)
  moreover have "tail_node usize_state (one_node d) = Some 4096"
    by (simp add: tail_node_def usize_state_def TAIL_FLAG_def one_node_def)
  moreover have "nodes_ok (one_node d) {} {4096}"
    by (auto simp: nodes_ok_def one_node_def prev_of_def cell_def example_addrs split: if_splits)
  ultimately show ?thesis by (simp add: queue_wf_def queue_inv_def)
qed

definition new_node :: "usize \<Rightarrow> 'd \<Rightarrow> 'd queue" where
  "new_node tail d = node_with_data 4096 d (new_impl tail)"

lemma new_node_wf:
  assumes "tail_to_enum usize_state tail = State st"
  shows "queue_wf usize_state (new_node tail d) []"
  using assms
  by (auto simp: new_node_def node_with_data_def new_impl_def queue_wf_def queue_inv_def nodes_ok_def chain_def refs_def
      cell_def prev_of_def node_link_new_def tail_node_def example_addrs split: if_splits)

end
