(* ===== verification/Semaphore.thy ===== *)
theory Semaphore
  imports Array_Vec
begin

text \<open>
  \<^verbatim>\<open>examples/semaphore.rs\<close>: an asynchronous counting semaphore on top of the queue. While
  nobody waits, the queue's state word holds the available permits and a closed bit; a waiter that
  is enqueued takes over the permits that were available and remembers how many it still needs.

  Subtractions that the compiler checks in a debug build are the panic they are there. The queue
  operations take the interference of other threads as in the theories below; \<open>A\<close> is the
  vector of wakers.
\<close>

section \<open>State\<close>

definition SEM_CLOSED :: usize where "SEM_CLOSED = 1"
definition PERMIT_SHIFT :: nat where "PERMIT_SHIFT = 1"
definition MAX_PERMITS :: usize where "MAX_PERMITS = drop_bit 3 (- 1)"

record sem_waiter =
  sw_waker :: "waker option"
  sw_permits_remaining :: u32

definition sem_waiter_default :: sem_waiter where
  "sem_waiter_default = \<lparr>sw_waker = None, sw_permits_remaining = 0\<rparr>"

definition UNWRAP_NONE :: string where
  "UNWRAP_NONE = ''called `Option::unwrap()` on a `None` value''"

definition sub_checked :: "'a::len word \<Rightarrow> 'a word \<Rightarrow> 'a word res" where
  "sub_checked a b = (if b \<le> a then Inr (a - b) else Inl (Panic ''attempt to subtract with overflow''))"

definition check_add_permits :: "usize \<Rightarrow> usize \<Rightarrow> usize res" where
  "check_add_permits state add =
     bind_res (sub_checked MAX_PERMITS (drop_bit PERMIT_SHIFT state)) (\<lambda>room.
       if add \<le> room then Inr (state + push_bit PERMIT_SHIFT add) else Inl (Panic ''permits overflow''))"

definition check_acquire_permits :: "usize \<Rightarrow> u32 \<Rightarrow> usize option" where
  "check_acquire_permits state acquire =
     (if state AND SEM_CLOSED \<noteq> 0 then None
      else let k = push_bit PERMIT_SHIFT (ucast acquire) in
        if k \<le> state then Some (state - k) else None)"

definition sem_new :: "usize \<Rightarrow> sem_waiter queue res" where
  "sem_new permits = bind_res (check_add_permits 0 permits) with_state_const"

definition available_permits :: "sem_waiter queue \<Rightarrow> usize" where
  "available_permits q = drop_bit PERMIT_SHIFT (case state_of usize_state q of None \<Rightarrow> 0 | Some s \<Rightarrow> s)"

definition sem_is_closed :: "sem_waiter queue \<Rightarrow> bool" where
  "sem_is_closed q = (case state_of usize_state q of None \<Rightarrow> False | Some s \<Rightarrow> s AND SEM_CLOSED \<noteq> 0)"

section \<open>Adding permits\<close>

text \<open>
  The closure that hands permits to the first waiter: whether the waiter stays in the queue, the
  permits left, and the waker to wake.
\<close>

definition give_permits :: "usize \<Rightarrow> sem_waiter \<Rightarrow> (bool \<times> usize \<times> waker option) \<times> sem_waiter" where
  "give_permits permits w =
     (if ucast (sw_permits_remaining w) > permits
      then ((True, permits, None), w\<lparr>sw_permits_remaining := sw_permits_remaining w - ucast permits\<rparr>)
      else ((False, permits - ucast (sw_permits_remaining w), sw_waker w),
            w\<lparr>sw_permits_remaining := 0, sw_waker := None\<rparr>))"

text \<open>
  The two nested loops of \<^verbatim>\<open>add_permits_locked\<close>, one round per waiter. \<open>others\<close>
  is what happens before the lock is granted again after a batch has been woken.
\<close>

fun add_permits_loop ::
  "nat \<Rightarrow> 'v wakers_ops \<Rightarrow> (sem_waiter queue \<Rightarrow> sem_waiter queue) \<Rightarrow> usize \<Rightarrow> 'v \<Rightarrow> wakeups
   \<Rightarrow> sem_waiter queue \<Rightarrow> (wakeups \<times> sem_waiter queue) res" where
  "add_permits_loop 0 A others permits wakers log q = Inl OutOfFuel"
| "add_permits_loop (Suc n) A others permits wakers log q =
     (let finish = (\<lambda>wakers q. let q = unlock q in
        bind_res (av_drain A wakers) (\<lambda>(ws, _). Inr (fold (wake q) ws log, q)))
      in
      bind_res (bind_res (locked_dequeue usize_state q) (unwrap UNWRAP_NONE)) (\<lambda>p.
      bind_res (with_data_mut p (give_permits permits) q) (\<lambda>((requeue, permits, waker), q).
        if requeue then finish wakers (guard_requeue q)
        else
          bind_res (unwrap UNWRAP_NONE waker) (\<lambda>w.
          bind_res (av_push A w wakers) (\<lambda>wakers.
          bind_res (dequeue_try_set_queue_state usize_state p (push_bit PERMIT_SHIFT permits) q) (\<lambda>(emptied, q).
            if emptied \<or> permits = 0 then finish wakers q
            else if av_is_full A wakers then
              let q = unlock q in
              bind_res (av_drain A wakers) (\<lambda>(ws, wakers).
              let log = fold (wake q) ws log in
              bind_res (fetch_update_state_or_lock usize_state (\<lambda>st. check_add_permits st permits) others q) (\<lambda>(locked, q).
                if locked then add_permits_loop n A others permits wakers log q else Inr (log, q)))
            else add_permits_loop n A others permits wakers log q))))))"

definition add_permits_locked ::
  "nat \<Rightarrow> 'v wakers_ops \<Rightarrow> (sem_waiter queue \<Rightarrow> sem_waiter queue) \<Rightarrow> usize \<Rightarrow> wakeups
   \<Rightarrow> sem_waiter queue \<Rightarrow> (wakeups \<times> sem_waiter queue) res" where
  "add_permits_locked n A others permits log q =
     (if sem_is_closed q then Inl (Panic ''assertion failed: !self.is_closed()'')
      else add_permits_loop n A others permits (av_new A) log q)"

definition add_permits ::
  "nat \<Rightarrow> 'v wakers_ops \<Rightarrow> (sem_waiter queue \<Rightarrow> sem_waiter queue) \<Rightarrow> (sem_waiter queue \<Rightarrow> sem_waiter queue)
   \<Rightarrow> usize \<Rightarrow> wakeups \<Rightarrow> sem_waiter queue \<Rightarrow> (wakeups \<times> sem_waiter queue) res" where
  "add_permits n A gap others permits log q =
     (if permits = 0 then Inr (log, q)
      else fetch_update_state_or_locked usize_state (\<lambda>st. check_add_permits st permits) gap
             (add_permits_locked n A others permits) log q)"

definition forget_permits :: "sem_waiter env \<Rightarrow> usize \<Rightarrow> sem_waiter queue \<Rightarrow> (usize \<times> sem_waiter queue) res" where
  "forget_permits env permits q =
     (if permits = 0 then Inr (0, q)
      else bind_res (fetch_update_state usize_state (\<lambda>st. Inr (Some (st - push_bit PERMIT_SHIFT permits))) env q) (\<lambda>(r, q).
        let state = (case r of Inr st \<Rightarrow> st | Inl _ \<Rightarrow> 0) in
        Inr (min permits (drop_bit PERMIT_SHIFT state), q)))"

section \<open>Permits\<close>

text \<open>
  A permit knows its semaphore (by identity) and how many permits it stands for.
\<close>

record sem_permit =
  sp_sem :: addr
  sp_permits :: u32

definition permit_forget :: "sem_permit \<Rightarrow> sem_permit" where
  "permit_forget p = p\<lparr>sp_permits := 0\<rparr>"

definition permit_merge :: "sem_permit \<Rightarrow> sem_permit \<Rightarrow> (sem_permit \<times> sem_permit) res" where
  "permit_merge self other =
     (if sp_sem self \<noteq> sp_sem other then Inl (Panic ''merging permits from different semaphore instances'')
      else if unat (sp_permits self) + unat (sp_permits other) \<ge> 2 ^ 32 then Inl (Panic ''attempt to add with overflow'')
      else Inr (self\<lparr>sp_permits := sp_permits self + sp_permits other\<rparr>, other\<lparr>sp_permits := 0\<rparr>))"

definition permit_split :: "usize \<Rightarrow> sem_permit \<Rightarrow> sem_permit option \<times> sem_permit" where
  "permit_split n self =
     (if unat n \<ge> 2 ^ 32 then (None, self)
      else let n = ucast n :: u32 in
        if n > sp_permits self then (None, self)
        else (Some \<lparr>sp_sem = sp_sem self, sp_permits = n\<rparr>, self\<lparr>sp_permits := sp_permits self - n\<rparr>))"

definition num_permits :: "sem_permit \<Rightarrow> usize" where
  "num_permits self = ucast (sp_permits self)"

definition permit_drop ::
  "nat \<Rightarrow> 'v wakers_ops \<Rightarrow> (sem_waiter queue \<Rightarrow> sem_waiter queue) \<Rightarrow> (sem_waiter queue \<Rightarrow> sem_waiter queue)
   \<Rightarrow> sem_permit \<Rightarrow> wakeups \<Rightarrow> sem_waiter queue \<Rightarrow> (wakeups \<times> sem_waiter queue) res" where
  "permit_drop n A gap others self log q = add_permits n A gap others (ucast (sp_permits self)) log q"

text \<open>The owned variant holds a shared pointer to the semaphore instead of a reference.\<close>

record owned_permit =
  op_sem :: addr
  op_permits :: u32

definition owned_forget :: "owned_permit \<Rightarrow> owned_permit" where
  "owned_forget p = p\<lparr>op_permits := 0\<rparr>"

definition owned_merge :: "owned_permit \<Rightarrow> owned_permit \<Rightarrow> (owned_permit \<times> owned_permit) res" where
  "owned_merge self other =
     (if op_sem self \<noteq> op_sem other then Inl (Panic ''merging permits from different semaphore instances'')
      else if unat (op_permits self) + unat (op_permits other) \<ge> 2 ^ 32 then Inl (Panic ''attempt to add with overflow'')
      else Inr (self\<lparr>op_permits := op_permits self + op_permits other\<rparr>, other\<lparr>op_permits := 0\<rparr>))"

definition owned_split :: "usize \<Rightarrow> owned_permit \<Rightarrow> owned_permit option \<times> owned_permit" where
  "owned_split n self =
     (if unat n \<ge> 2 ^ 32 then (None, self)
      else let n = ucast n :: u32 in
        if n > op_permits self then (None, self)
        else (Some \<lparr>op_sem = op_sem self, op_permits = n\<rparr>, self\<lparr>op_permits := op_permits self - n\<rparr>))"

definition owned_num_permits :: "owned_permit \<Rightarrow> usize" where
  "owned_num_permits self = ucast (op_permits self)"

definition owned_drop ::
  "nat \<Rightarrow> 'v wakers_ops \<Rightarrow> (sem_waiter queue \<Rightarrow> sem_waiter queue) \<Rightarrow> (sem_waiter queue \<Rightarrow> sem_waiter queue)
   \<Rightarrow> owned_permit \<Rightarrow> wakeups \<Rightarrow> sem_waiter queue \<Rightarrow> (wakeups \<times> sem_waiter queue) res" where
  "owned_drop n A gap others self log q = add_permits n A gap others (ucast (op_permits self)) log q"

section \<open>Acquiring\<close>

datatype try_acquire_error = TryClosed | TryNoPermits

definition try_acquire_many ::
  "sem_waiter env \<Rightarrow> addr \<Rightarrow> u32 \<Rightarrow> sem_waiter queue \<Rightarrow> ((try_acquire_error + sem_permit) \<times> sem_waiter queue) res" where
  "try_acquire_many env sem permits q =
     bind_res (fetch_update_state usize_state (\<lambda>st. Inr (check_acquire_permits st permits)) env q) (\<lambda>(r, q).
       Inr (case r of
              Inr _ \<Rightarrow> Inr \<lparr>sp_sem = sem, sp_permits = permits\<rparr>
            | Inl (Some st) \<Rightarrow> if st AND SEM_CLOSED \<noteq> 0 then Inl TryClosed else Inl TryNoPermits
            | Inl None \<Rightarrow> Inl TryNoPermits, q))"

definition try_acquire ::
  "sem_waiter env \<Rightarrow> addr \<Rightarrow> sem_waiter queue \<Rightarrow> ((try_acquire_error + sem_permit) \<times> sem_waiter queue) res" where
  "try_acquire env sem q = try_acquire_many env sem 1 q"

definition try_acquire_many_owned ::
  "sem_waiter env \<Rightarrow> addr \<Rightarrow> u32 \<Rightarrow> sem_waiter queue \<Rightarrow> ((try_acquire_error + owned_permit) \<times> sem_waiter queue) res" where
  "try_acquire_many_owned env sem permits q =
     bind_res (try_acquire_many env sem permits q) (\<lambda>(r, q).
       Inr (case r of Inl e \<Rightarrow> Inl e | Inr _ \<Rightarrow> Inr \<lparr>op_sem = sem, op_permits = permits\<rparr>, q))"

definition try_acquire_owned ::
  "sem_waiter env \<Rightarrow> addr \<Rightarrow> sem_waiter queue \<Rightarrow> ((try_acquire_error + owned_permit) \<times> sem_waiter queue) res" where
  "try_acquire_owned env sem q = try_acquire_many_owned env sem 1 q"

text \<open>
  \<^verbatim>\<open>acquire_many\<close> up to its await point: the permit, or a future with a new node at the
  address \<open>p\<close>, which \<open>acquire_many_poll\<close> polls from then on.
\<close>

definition acquire_many ::
  "sem_waiter env \<Rightarrow> addr \<Rightarrow> addr \<Rightarrow> u32 \<Rightarrow> sem_waiter queue \<Rightarrow> (sem_permit option \<times> sem_waiter queue) res" where
  "acquire_many env sem p permits q =
     bind_res (fetch_update_state usize_state (\<lambda>st. Inr (check_acquire_permits st permits)) env q) (\<lambda>(r, q).
       Inr (case r of
              Inr _ \<Rightarrow> (Some \<lparr>sp_sem = sem, sp_permits = permits\<rparr>, q)
            | Inl _ \<Rightarrow> (None, node_with_data p sem_waiter_default q)))"

datatype acquire_error = AcquireError

text \<open>
  The loop for an unqueued node; \<open>rounds\<close> is what other threads do between the look at the
  state and the insertion, round by round.
\<close>

fun poll_acquire_loop ::
  "(sem_waiter queue \<Rightarrow> sem_waiter queue) list \<Rightarrow> addr \<Rightarrow> waker \<Rightarrow> u32 \<Rightarrow> sem_waiter queue
   \<Rightarrow> ((acquire_error + unit) poll \<times> sem_waiter queue) res" where
  "poll_acquire_loop rounds p cx permits q =
     bind_res (fetch_update_state usize_state (\<lambda>st. Inr (check_acquire_permits st permits)) [] q) (\<lambda>(r, q).
       case r of
         Inr _ \<Rightarrow> Inr (Ready (Inr ()), q)
       | Inl state \<Rightarrow>
           if (case state of None \<Rightarrow> False | Some s \<Rightarrow> s AND SEM_CLOSED \<noteq> 0) then Inr (Ready (Inl AcquireError), q)
           else
             bind_res (sub_checked permits (drop_bit PERMIT_SHIFT (ucast (case state of None \<Rightarrow> 0 | Some s \<Rightarrow> s)))) (\<lambda>rem.
             bind_res (with_data_mut p (\<lambda>w. ((), w\<lparr>sw_permits_remaining := rem,
                 sw_waker := (case sw_waker w of None \<Rightarrow> Some cx | Some k \<Rightarrow> Some k)\<rparr>)) q) (\<lambda>(_, q).
             case rounds of
               [] \<Rightarrow> bind_res (try_enqueue_with_queue_state usize_state p (\<lambda>s. s = state) [] q) (\<lambda>(ok, q).
                 if ok then Inr (Pending, q) else Inl OutOfFuel)
             | others # rounds \<Rightarrow>
                 bind_res (try_enqueue_with_queue_state usize_state p (\<lambda>s. s = state) [] (others q)) (\<lambda>(ok, q).
                   if ok then Inr (Pending, q) else poll_acquire_loop rounds p cx permits q))))"

definition poll_acquire ::
  "(sem_waiter queue \<Rightarrow> sem_waiter queue) \<Rightarrow> (sem_waiter queue \<Rightarrow> sem_waiter queue) list \<Rightarrow> addr \<Rightarrow> waker \<Rightarrow> u32
   \<Rightarrow> sem_waiter queue \<Rightarrow> ((acquire_error + unit) poll \<times> sem_waiter queue) res" where
  "poll_acquire gap rounds p cx permits q =
     bind_res (node_state p gap q) (\<lambda>(view, q). case view of
         NodeUnqueued \<Rightarrow> poll_acquire_loop rounds p cx permits q
       | NodeQueued \<Rightarrow>
           if sem_is_closed q then Inr (Ready (Inl AcquireError), unlock q)
           else bind_res (bind_res (with_data p sw_waker q)
                  (unwrap UNWRAP_NONE)) (\<lambda>k.
                bind_res (with_data_mut p (\<lambda>w. ((), if k \<noteq> cx then w\<lparr>sw_waker := Some cx\<rparr> else w)) q) (\<lambda>(_, q).
                  Inr (Pending, unlock q)))
       | NodeDequeued \<Rightarrow> Inr (Ready (if sem_is_closed q then Inl AcquireError else Inr ()), q))"

text \<open>The future: its permits are set to zero once they have been handed out.\<close>

definition acquire_poll ::
  "(sem_waiter queue \<Rightarrow> sem_waiter queue) \<Rightarrow> (sem_waiter queue \<Rightarrow> sem_waiter queue) list \<Rightarrow> addr \<Rightarrow> waker \<Rightarrow> u32
   \<Rightarrow> sem_waiter queue \<Rightarrow> ((acquire_error + unit) poll \<times> u32 \<times> sem_waiter queue) res" where
  "acquire_poll gap rounds p cx permits q =
     bind_res (poll_acquire gap rounds p cx permits q) (\<lambda>(res, q).
       Inr (res, if res = Ready (Inr ()) then 0 else permits, q))"

definition cancel ::
  "nat \<Rightarrow> 'v wakers_ops \<Rightarrow> (sem_waiter queue \<Rightarrow> sem_waiter queue) \<Rightarrow> (sem_waiter queue \<Rightarrow> sem_waiter queue)
   \<Rightarrow> addr \<Rightarrow> u32 \<Rightarrow> wakeups \<Rightarrow> sem_waiter queue \<Rightarrow> (wakeups \<times> sem_waiter queue) res" where
  "cancel n A gap others p permits log q =
     bind_res (node_state p gap q) (\<lambda>(view, q). case view of
         NodeUnqueued \<Rightarrow> Inr (log, q)
       | NodeQueued \<Rightarrow>
           bind_res (bind_res (with_data p sw_permits_remaining q) (sub_checked permits)) (\<lambda>acquired.
           bind_res (node_queued_dequeue_try_set_queue_state usize_state p (ucast acquired) q) (\<lambda>(ok, q).
             if ok then Inr (log, unlock q)
             else if sem_is_closed q then add_permits n A gap others (ucast acquired) log (unlock q)
             else if acquired > 0 then add_permits_locked n A others (ucast acquired) log q
             else Inr (log, unlock q)))
       | NodeDequeued \<Rightarrow>
           bind_res (bind_res (with_data p sw_permits_remaining q) (sub_checked permits)) (\<lambda>acquired.
             add_permits n A gap others (ucast acquired) log q))"

definition acquire_drop ::
  "nat \<Rightarrow> 'v wakers_ops \<Rightarrow> (sem_waiter queue \<Rightarrow> sem_waiter queue) \<Rightarrow> (sem_waiter queue \<Rightarrow> sem_waiter queue)
   \<Rightarrow> addr \<Rightarrow> u32 \<Rightarrow> wakeups \<Rightarrow> sem_waiter queue \<Rightarrow> (wakeups \<times> sem_waiter queue) res" where
  "acquire_drop n A gap others p permits log q =
     bind_res (if permits > 0 then cancel n A gap others p permits log q else Inr (log, q)) (\<lambda>(log, q).
     bind_res (node_drop usize_state p gap q) (\<lambda>q. Inr (log, q)))"

text \<open>
  The future of the async function \<^verbatim>\<open>acquire_many\<close>: before its first poll, suspended
  at its await point with the \<^verbatim>\<open>permits\<close> field of the \<^verbatim>\<open>Acquire\<close>
  it holds, or finished. The \<^verbatim>\<open>Acquire\<close> is dropped as soon as it is ready, also on
  the way out with an error.
\<close>

datatype acquire_future = AcquireStart | AcquireAwait u32 | AcquireDone

definition acquire_await ::
  "nat \<Rightarrow> 'v wakers_ops \<Rightarrow> (sem_waiter queue \<Rightarrow> sem_waiter queue) \<Rightarrow> (sem_waiter queue \<Rightarrow> sem_waiter queue)
   \<Rightarrow> (sem_waiter queue \<Rightarrow> sem_waiter queue) list \<Rightarrow> addr \<Rightarrow> addr \<Rightarrow> u32 \<Rightarrow> waker \<Rightarrow> u32 \<Rightarrow> wakeups \<Rightarrow> sem_waiter queue
   \<Rightarrow> ((acquire_error + sem_permit) poll \<times> acquire_future \<times> wakeups \<times> sem_waiter queue) res" where
  "acquire_await n A gap others rounds sem p permits cx k log q =
     bind_res (acquire_poll gap rounds p cx k q) (\<lambda>(res, k, q). case res of
         Pending \<Rightarrow> Inr (Pending, AcquireAwait k, log, q)
       | Ready r \<Rightarrow> bind_res (acquire_drop n A gap others p k log q) (\<lambda>(log, q).
           Inr (Ready (case r of Inl e \<Rightarrow> Inl e | Inr _ \<Rightarrow> Inr \<lparr>sp_sem = sem, sp_permits = permits\<rparr>), AcquireDone, log, q)))"

definition acquire_many_poll ::
  "nat \<Rightarrow> 'v wakers_ops \<Rightarrow> (sem_waiter queue \<Rightarrow> sem_waiter queue) \<Rightarrow> (sem_waiter queue \<Rightarrow> sem_waiter queue) \<Rightarrow> sem_waiter env
   \<Rightarrow> (sem_waiter queue \<Rightarrow> sem_waiter queue) list \<Rightarrow> addr \<Rightarrow> addr \<Rightarrow> u32 \<Rightarrow> waker \<Rightarrow> acquire_future \<Rightarrow> wakeups \<Rightarrow> sem_waiter queue
   \<Rightarrow> ((acquire_error + sem_permit) poll \<times> acquire_future \<times> wakeups \<times> sem_waiter queue) res" where
  "acquire_many_poll n A gap others env rounds sem p permits cx fut log q =
     (case fut of
        AcquireStart \<Rightarrow> bind_res (acquire_many env sem p permits q) (\<lambda>(permit, q). case permit of
            Some permit \<Rightarrow> Inr (Ready (Inr permit), AcquireDone, log, q)
          | None \<Rightarrow> acquire_await n A gap others rounds sem p permits cx permits log q)
      | AcquireAwait k \<Rightarrow> acquire_await n A gap others rounds sem p permits cx k log q
      | AcquireDone \<Rightarrow> Inl (Panic ''`async fn` resumed after completion''))"

definition acquire_many_drop ::
  "nat \<Rightarrow> 'v wakers_ops \<Rightarrow> (sem_waiter queue \<Rightarrow> sem_waiter queue) \<Rightarrow> (sem_waiter queue \<Rightarrow> sem_waiter queue)
   \<Rightarrow> addr \<Rightarrow> acquire_future \<Rightarrow> wakeups \<Rightarrow> sem_waiter queue \<Rightarrow> (wakeups \<times> sem_waiter queue) res" where
  "acquire_many_drop n A gap others p fut log q =
     (case fut of AcquireAwait k \<Rightarrow> acquire_drop n A gap others p k log q | _ \<Rightarrow> Inr (log, q))"

text \<open>
  The futures of the other async functions. \<^verbatim>\<open>acquire_many_owned\<close> waits for one permit,
  forgets it, and returns a permit for the number it was asked for.
\<close>

definition acquire ::
  "nat \<Rightarrow> 'v wakers_ops \<Rightarrow> (sem_waiter queue \<Rightarrow> sem_waiter queue) \<Rightarrow> (sem_waiter queue \<Rightarrow> sem_waiter queue) \<Rightarrow> sem_waiter env
   \<Rightarrow> (sem_waiter queue \<Rightarrow> sem_waiter queue) list \<Rightarrow> addr \<Rightarrow> addr \<Rightarrow> waker \<Rightarrow> acquire_future \<Rightarrow> wakeups \<Rightarrow> sem_waiter queue
   \<Rightarrow> ((acquire_error + sem_permit) poll \<times> acquire_future \<times> wakeups \<times> sem_waiter queue) res" where
  "acquire n A gap others env rounds sem p cx fut log q = acquire_many_poll n A gap others env rounds sem p 1 cx fut log q"

definition acquire_many_owned ::
  "nat \<Rightarrow> 'v wakers_ops \<Rightarrow> (sem_waiter queue \<Rightarrow> sem_waiter queue) \<Rightarrow> (sem_waiter queue \<Rightarrow> sem_waiter queue) \<Rightarrow> sem_waiter env
   \<Rightarrow> (sem_waiter queue \<Rightarrow> sem_waiter queue) list \<Rightarrow> addr \<Rightarrow> addr \<Rightarrow> u32 \<Rightarrow> waker \<Rightarrow> acquire_future \<Rightarrow> wakeups \<Rightarrow> sem_waiter queue
   \<Rightarrow> ((acquire_error + owned_permit) poll \<times> acquire_future \<times> wakeups \<times> sem_waiter queue) res" where
  "acquire_many_owned n A gap others env rounds sem p permits cx fut log q =
     bind_res (acquire n A gap others env rounds sem p cx fut log q) (\<lambda>(res, fut, log, q).
       Inr (case res of
              Pending \<Rightarrow> Pending
            | Ready (Inl e) \<Rightarrow> Ready (Inl e)
            | Ready (Inr _) \<Rightarrow> Ready (Inr \<lparr>op_sem = sem, op_permits = permits\<rparr>), fut, log, q))"

definition acquire_owned ::
  "nat \<Rightarrow> 'v wakers_ops \<Rightarrow> (sem_waiter queue \<Rightarrow> sem_waiter queue) \<Rightarrow> (sem_waiter queue \<Rightarrow> sem_waiter queue) \<Rightarrow> sem_waiter env
   \<Rightarrow> (sem_waiter queue \<Rightarrow> sem_waiter queue) list \<Rightarrow> addr \<Rightarrow> addr \<Rightarrow> waker \<Rightarrow> acquire_future \<Rightarrow> wakeups \<Rightarrow> sem_waiter queue
   \<Rightarrow> ((acquire_error + owned_permit) poll \<times> acquire_future \<times> wakeups \<times> sem_waiter queue) res" where
  "acquire_owned n A gap others env rounds sem p cx fut log q = acquire_many_owned n A gap others env rounds sem p 1 cx fut log q"

section \<open>Closing\<close>

definition sem_close ::
  "nat \<Rightarrow> 'v wakers_ops \<Rightarrow> addr \<Rightarrow> (sem_waiter queue \<Rightarrow> sem_waiter queue) \<Rightarrow> (sem_waiter queue \<Rightarrow> sem_waiter queue)
   \<Rightarrow> wakeups \<Rightarrow> sem_waiter queue \<Rightarrow> (wakeups \<times> sem_waiter queue) res" where
  "sem_close n A s gap others log q =
     bind_res (fetch_update_state_or_lock usize_state (\<lambda>st. Inr (st OR SEM_CLOSED)) gap q) (\<lambda>(locked, q).
       if \<not> locked then Inr (log, q)
       else drain_wakers A
              (\<lambda>w. bind_res (unwrap UNWRAP_NONE (sw_waker w)) (\<lambda>k. Inr (Some k)))
              (\<lambda>w. w\<lparr>sw_waker := None\<rparr>) n SEM_CLOSED s others log q)"

declare poll_acquire_loop.simps [simp del] and add_permits_loop.simps(2) [simp del]

section \<open>Arithmetic on permits\<close>

lemma MAX_PERMITS_unat: "unat MAX_PERMITS = 2 ^ 61 - 1"
  unfolding MAX_PERMITS_def
  by (simp only: unat_drop_bit_eq drop_bit_eq_div unsigned_minus_1_eq_mask) (simp add: mask_eq_exp_minus_1)

lemma max_state_unat: "unat INTRUSIVE_QUEUE_MAX_STATE = 2 ^ 63 - 1"
  by (simp add: max_state_value)

lemma permits_of: "unat (drop_bit PERMIT_SHIFT (w :: usize)) = unat w div 2"
  unfolding PERMIT_SHIFT_def by (simp only: unat_drop_bit_eq) (simp add: drop_bit_eq_div)

lemma shift_permits: "unat k < 2 ^ 63 \<Longrightarrow> unat (push_bit PERMIT_SHIFT (k :: usize)) = 2 * unat k"
  unfolding PERMIT_SHIFT_def by (simp add: unat_word_ariths)

lemma shifted_permits_valid: "unat k < 2 ^ 62 \<Longrightarrow> push_bit PERMIT_SHIFT k \<le> INTRUSIVE_QUEUE_MAX_STATE"
  by (simp add: word_le_nat_alt max_state_unat shift_permits)

lemma u32_less: "unat (k :: u32) < 2 ^ 32"
  using unsigned_less [of k] by simp

lemma u32_permits: "unat (ucast (k :: u32) :: usize) = unat k"
  using u32_less [of k] by (simp add: unsigned_ucast_eq take_bit_nat_eq_self_iff)

lemma back_to_u32: "unat (k :: usize) < 2 ^ 32 \<Longrightarrow> unat (ucast k :: u32) = unat k"
  by (simp add: unsigned_ucast_eq take_bit_nat_eq_self_iff)

lemma closed_bit: "(w :: usize) AND SEM_CLOSED \<noteq> 0 \<longleftrightarrow> odd (unat w)"
proof -
  have "bit (unat w) 0 \<longleftrightarrow> bit w 0" by (simp only: bit_unsigned_iff) simp
  then show ?thesis unfolding SEM_CLOSED_def using and_one_bit [of w] by (simp add: bit_0)
qed

section \<open>Splitting and merging\<close>

text \<open>No permit is created or lost, and a split is undone by a merge.\<close>

lemma permit_split_conserves:
  assumes "permit_split n p = (r, p')"
  shows "r = Some other \<Longrightarrow> unat (sp_permits other) = unat n \<and> unat (sp_permits p') + unat n = unat (sp_permits p)"
    and "r = Some other \<Longrightarrow> permit_merge p' other = Inr (p, other\<lparr>sp_permits := 0\<rparr>)"
    and "r = None \<longleftrightarrow> unat (sp_permits p) < unat n" and "r = None \<Longrightarrow> p' = p"
proof -
  have small: "unat (ucast n :: u32) = unat n" if "unat n < 2 ^ 32" using that by (rule back_to_u32)
  have le: "ucast n \<le> sp_permits p \<longleftrightarrow> unat n \<le> unat (sp_permits p)" if "unat n < 2 ^ 32"
    using small [OF that] by (simp add: word_le_nat_alt)
  show "r = None \<longleftrightarrow> unat (sp_permits p) < unat n" "r = None \<Longrightarrow> p' = p"
    using assms le u32_less [of "sp_permits p"] by (auto simp: permit_split_def Let_def not_less not_le split: if_splits)
  assume r: "r = Some other"
  then have n: "unat n < 2 ^ 32" "ucast n \<le> sp_permits p" "other = \<lparr>sp_sem = sp_sem p, sp_permits = ucast n\<rparr>"
    "p' = p\<lparr>sp_permits := sp_permits p - ucast n\<rparr>"
    using assms by (auto simp: permit_split_def Let_def not_less not_le split: if_splits)
  then have u: "unat (sp_permits p - ucast n) = unat (sp_permits p) - unat n" using small by (simp add: unat_sub)
  have "unat n \<le> unat (sp_permits p)" using n le by simp
  then show "unat (sp_permits other) = unat n \<and> unat (sp_permits p') + unat n = unat (sp_permits p)"
    using n u small by simp
  show "permit_merge p' other = Inr (p, other\<lparr>sp_permits := 0\<rparr>)"
    using n(3,4) u small [OF n(1)] \<open>unat n \<le> unat (sp_permits p)\<close> u32_less [of "sp_permits p"]
    by (simp add: permit_merge_def)
qed

definition borrow :: "owned_permit \<Rightarrow> sem_permit" where
  "borrow p = \<lparr>sp_sem = op_sem p, sp_permits = op_permits p\<rparr>"

text \<open>An owned permit behaves like a borrowed one.\<close>

lemma owned_as_borrowed:
  "borrow (owned_forget p) = permit_forget (borrow p)" "owned_num_permits p = num_permits (borrow p)"
  "map_sum id (map_prod borrow borrow) (owned_merge p p') = permit_merge (borrow p) (borrow p')"
  "map_prod (map_option borrow) borrow (owned_split n p) = permit_split n (borrow p)"
  "owned_drop k A gap others p log q = permit_drop k A gap others (borrow p) log q"
  by (auto simp: borrow_def owned_forget_def permit_forget_def owned_num_permits_def num_permits_def owned_merge_def
      permit_merge_def owned_split_def permit_split_def owned_drop_def permit_drop_def Let_def)

section \<open>Permits handed out in order\<close>

text \<open>
  The reference for \<^verbatim>\<open>add_permits\<close>, on the numbers the waiters still need: how many
  waiters are served, what the others need then, and what is left over. Permits go to the waiters in
  the order of the queue, a waiter takes what it needs before the next one gets any.
\<close>

fun grant :: "nat \<Rightarrow> nat list \<Rightarrow> nat \<times> nat list \<times> nat" where
  "grant k [] = (0, [], k)"
| "grant k (r # rs) =
     (if k < r then (0, (r - k) # rs, 0)
      else if k = r then (1, rs, 0)
      else let (m, rs', l) = grant (k - r) rs in (Suc m, rs', l))"

lemma grant_conserves:
  "grant k rs = (m, rs', l) \<Longrightarrow>
   k + sum_list rs' = sum_list rs + l \<and> m + length rs' = length rs \<and> (rs' = [] \<or> l = 0) \<and> l \<le> k"
proof (induction k rs arbitrary: m rs' l rule: grant.induct)
  case (2 k r rs)
  then show ?case by (auto split: if_splits prod.splits)
qed simp

section \<open>Invariant\<close>

text \<open>Every queued waiter has a waker, so that the \<^verbatim>\<open>unwrap\<close> of the closures is safe.\<close>

definition sem_ok :: "sem_waiter queue \<Rightarrow> addr list \<Rightarrow> bool" where
  "sem_ok q ns \<longleftrightarrow> queue_wf usize_state q ns
     \<and> (\<forall>x\<in>set ns. \<exists>w. q_data q x = Some w \<and> sw_waker w \<noteq> None)"

definition remaining :: "sem_waiter queue \<Rightarrow> addr \<Rightarrow> nat" where
  "remaining q x = unat (sw_permits_remaining (the (q_data q x)))"

definition sem_waker_of :: "sem_waiter queue \<Rightarrow> addr \<Rightarrow> waker" where
  "sem_waker_of q x = the (sw_waker (the (q_data q x)))"

lemma sem_ok_wf: "sem_ok q ns \<Longrightarrow> queue_wf usize_state q ns"
  by (simp add: sem_ok_def)

lemma sem_ok_distinct: "sem_ok q ns \<Longrightarrow> distinct ns"
  using queue_inv_distinct queue_wf_inv sem_ok_wf by blast

lemma sem_ok_locked [simp]:
  "sem_ok (q\<lparr>q_locked := b\<rparr>) ns = sem_ok q ns" "sem_ok (unlock q) ns = sem_ok q ns"
  by (simp_all add: sem_ok_def unlock_def)

lemma sem_reads_locked [simp]:
  "remaining (q\<lparr>q_locked := b\<rparr>) = remaining q" "remaining (unlock q) = remaining q"
  "sem_waker_of (q\<lparr>q_locked := b\<rparr>) = sem_waker_of q" "sem_waker_of (unlock q) = sem_waker_of q"
  by (simp_all add: remaining_def sem_waker_of_def unlock_def fun_eq_iff)

lemma sem_waiter_at:
  assumes "sem_ok q ns" and "x \<in> set ns"
  obtains w where "q_data q x = Some w" "sw_waker w = Some (sem_waker_of q x)"
    "unat (sw_permits_remaining w) = remaining q x"
  using assms by (auto simp: sem_ok_def sem_waker_of_def remaining_def)

lemma sem_ok_cong:
  assumes "sem_ok q ns" and "queue_wf usize_state q' ms" and "\<And>x. x \<in> set ms \<Longrightarrow> x \<in> set ns \<and> q_data q' x = q_data q x"
  shows "sem_ok q' ms"
  using assms by (fastforce simp: sem_ok_def)

lemma sem_not_closed: "sem_ok q ns \<Longrightarrow> ns \<noteq> [] \<Longrightarrow> \<not> sem_is_closed q"
  using is_empty_wf [of q ns] by (auto simp: sem_ok_def is_empty_def sem_is_closed_def)

section \<open>One waiter\<close>

lemma give_permits_less:
  assumes "unat permits < unat (sw_permits_remaining w)"
  shows "fst (give_permits permits w) = (True, permits, None)"
    and "unat (sw_permits_remaining (snd (give_permits permits w))) = unat (sw_permits_remaining w) - unat permits"
    and "sw_waker (snd (give_permits permits w)) = sw_waker w"
proof -
  have lt: "permits < ucast (sw_permits_remaining w)" using assms by (simp add: word_less_nat_alt u32_permits)
  have "unat permits < 2 ^ 32" using assms u32_less [of "sw_permits_remaining w"] by simp
  then have "unat (ucast permits :: u32) = unat permits" by (rule back_to_u32)
  moreover from this have "(ucast permits :: u32) \<le> sw_permits_remaining w"
    using assms by (simp add: word_le_nat_alt)
  ultimately show "unat (sw_permits_remaining (snd (give_permits permits w))) = unat (sw_permits_remaining w) - unat permits"
    using lt by (simp add: give_permits_def unat_sub)
  show "fst (give_permits permits w) = (True, permits, None)" "sw_waker (snd (give_permits permits w)) = sw_waker w"
    using lt by (simp_all add: give_permits_def)
qed

lemma give_permits_all:
  assumes "unat (sw_permits_remaining w) \<le> unat permits"
  obtains left where "give_permits permits w = ((False, left, sw_waker w), w\<lparr>sw_permits_remaining := 0, sw_waker := None\<rparr>)"
    "unat left = unat permits - unat (sw_permits_remaining w)"
proof -
  have le: "ucast (sw_permits_remaining w) \<le> permits" using assms by (simp add: word_le_nat_alt u32_permits)
  show ?thesis
    by (rule that [of "permits - ucast (sw_permits_remaining w)"])
      (use le in \<open>simp_all add: give_permits_def unat_sub u32_permits not_less\<close>)
qed

text \<open>
  What \<^verbatim>\<open>add_permits_locked\<close> has done when it returns: \<open>k\<close> permits went to
  the waiters \<open>ns\<close> as in the reference; the wakers of those served, after the ones collected
  before, have been woken in order and without the lock.
\<close>

definition granted ::
  "nat \<Rightarrow> sem_waiter queue \<Rightarrow> addr list \<Rightarrow> waker list \<Rightarrow> wakeups \<Rightarrow> wakeups \<Rightarrow> sem_waiter queue \<Rightarrow> bool" where
  "granted k q ns ws log log' q' \<longleftrightarrow> (\<exists>m rs l. grant k (map (remaining q) ns) = (m, rs, l)
     \<and> log' = log @ unlocked_wakes (ws @ map (sem_waker_of q) (take m ns))
     \<and> sem_ok q' (drop m ns) \<and> \<not> q_locked q' \<and> map (remaining q') (drop m ns) = rs
     \<and> (\<forall>x\<in>set (take m ns). node_states q' x = Some Dequeued \<and> remaining q' x = 0 \<and> q_data q' x \<noteq> None)
     \<and> (\<forall>x\<in>set (drop m ns). sem_waker_of q' x = sem_waker_of q x)
     \<and> (\<forall>x. x \<notin> set ns \<longrightarrow> node_states q' x = node_states q x \<and> q_data q' x = q_data q x)
     \<and> (drop m ns = [] \<longrightarrow> state_of usize_state q' = Some (push_bit PERMIT_SHIFT (of_nat l))))"

lemma grant_requeue:
  assumes ok: "sem_ok q (x # xs)" and w: "q_data q x = Some w" and lt: "unat permits < remaining q x"
  shows "granted (unat permits) q (x # xs) ws log (log @ unlocked_wakes ws)
    (unlock (q\<lparr>q_data := (q_data q)(x \<mapsto> snd (give_permits permits w))\<rparr>))" (is "granted _ _ _ _ _ _ (unlock ?q)")
proof -
  have x: "x \<notin> set xs" using sem_ok_distinct [OF ok] by simp
  have lt': "unat permits < unat (sw_permits_remaining w)" using lt w by (simp add: remaining_def)
  note g = give_permits_less [OF lt']
  have wf: "queue_wf usize_state ?q (x # xs)" using ok by (simp add: sem_ok_def)
  then have "sem_ok ?q (x # xs)" using ok w g(3) by (auto simp: sem_ok_def)
  moreover have "remaining ?q x = remaining q x - unat permits" using g(2) w by (simp add: remaining_def)
  moreover have "map (remaining ?q) xs = map (remaining q) xs" using x by (intro map_cong) (auto simp: remaining_def)
  moreover have "sem_waker_of ?q y = sem_waker_of q y" for y using g(3) w by (simp add: sem_waker_of_def)
  ultimately show ?thesis using lt by (auto simp: granted_def unlock_def)
qed

lemma serve_first:
  assumes ok: "sem_ok q (x # xs)" and w: "q_data q x = Some w" and le: "remaining q x \<le> unat permits" and max: "unat permits < 2 ^ 62"
  obtains left q' where
    "give_permits permits w = ((False, left, Some (sem_waker_of q x)), w\<lparr>sw_permits_remaining := 0, sw_waker := None\<rparr>)"
    "unat left = unat permits - remaining q x"
    "dequeue_try_set_queue_state usize_state x (push_bit PERMIT_SHIFT left)
       (q\<lparr>q_data := (q_data q)(x \<mapsto> w\<lparr>sw_permits_remaining := 0, sw_waker := None\<rparr>)\<rparr>) = Inr (xs = [], q')"
    "sem_ok q' xs" "q_locked q' = q_locked q" "node_states q' = (node_states q)(x \<mapsto> Dequeued)"
    "remaining q' x = 0 \<and> q_data q' x \<noteq> None" "\<forall>z. z \<noteq> x \<longrightarrow> q_data q' z = q_data q z"
    "xs = [] \<longrightarrow> state_of usize_state q' = Some (push_bit PERMIT_SHIFT left)"
proof -
  let ?q = "q\<lparr>q_data := (q_data q)(x \<mapsto> w\<lparr>sw_permits_remaining := 0, sw_waker := None\<rparr>)\<rparr>"
  have x: "x \<notin> set xs" using sem_ok_distinct [OF ok] by simp
  have wx: "sw_waker w = Some (sem_waker_of q x)" "unat (sw_permits_remaining w) = remaining q x"
    using sem_waiter_at [OF ok, of x] w by auto
  obtain left where left: "give_permits permits w = ((False, left, sw_waker w), w\<lparr>sw_permits_remaining := 0, sw_waker := None\<rparr>)"
    "unat left = unat permits - unat (sw_permits_remaining w)"
    by (rule give_permits_all [of w permits]) (use le wx in simp)
  have "push_bit PERMIT_SHIFT left \<le> INTRUSIVE_QUEUE_MAX_STATE" using left(2) max by (intro shifted_permits_valid) simp
  then obtain nt where nt: "enum_to_tail usize_state (State (push_bit PERMIT_SHIFT left)) = Inr nt"
    "tail_to_enum usize_state nt = State (push_bit PERMIT_SHIFT left)" using usize_qs.state_encodable by blast
  have wf: "queue_wf usize_state ?q (x # xs)" using ok by (simp add: sem_ok_def)
  obtain q' where q': "remove_with_prev usize_state x nt False HEAD_MARKER ?q = Inr (xs = [], q')"
    "queue_wf usize_state q' xs" "node_states q' = (node_states ?q)(x \<mapsto> Dequeued)" "frame ?q q'"
    "xs = [] \<longrightarrow> state_of usize_state q' = Some (push_bit PERMIT_SHIFT left)"
    using usize_qs.wf_dequeue [OF wf nt(2)] by metis
  have D: "q_data q' = (q_data q)(x \<mapsto> w\<lparr>sw_permits_remaining := 0, sw_waker := None\<rparr>)" using q'(4) by (simp add: frame_def)
  have "sem_ok q' xs" by (rule sem_ok_cong [OF ok q'(2)]) (use x D in auto)
  moreover have "dequeue_try_set_queue_state usize_state x (push_bit PERMIT_SHIFT left) ?q = Inr (xs = [], q')"
    using nt(1) q'(1) by (simp add: dequeue_try_set_queue_state_def)
  ultimately show ?thesis using left wx q' D
    by (intro that [of left q']) (auto simp: frame_def remaining_def)
qed

lemma granted_Cons:
  assumes ok: "sem_ok q (x # xs)" and le: "remaining q x < k"
    and q1: "\<forall>z. z \<noteq> x \<longrightarrow> q_data q1 z = q_data q z" "node_states q1 = (node_states q)(x \<mapsto> Dequeued)" "remaining q1 x = 0 \<and> q_data q1 x \<noteq> None"
    and g: "granted (k - remaining q x) q1 xs (ws @ [sem_waker_of q x]) log log' q'"
  shows "granted k q (x # xs) ws log log' q'"
proof -
  have x: "x \<notin> set xs" using sem_ok_distinct [OF ok] by simp
  have same': "z \<in> set xs \<Longrightarrow> remaining q1 z = remaining q z \<and> sem_waker_of q1 z = sem_waker_of q z" for z
    using q1(1) x by (metis remaining_def sem_waker_of_def)
  then have same: "map (remaining q1) xs = map (remaining q) xs" "map (sem_waker_of q1) (take m xs) = map (sem_waker_of q) (take m xs)" for m
    by (auto dest: in_set_takeD)
  obtain m rs l where m: "grant (k - remaining q x) (map (remaining q) xs) = (m, rs, l)"
    "log' = log @ unlocked_wakes ((ws @ [sem_waker_of q x]) @ map (sem_waker_of q) (take m xs))"
    "sem_ok q' (drop m xs)" "\<not> q_locked q'" "map (remaining q') (drop m xs) = rs"
    "\<forall>x\<in>set (take m xs). node_states q' x = Some Dequeued \<and> remaining q' x = 0 \<and> q_data q' x \<noteq> None"
    "\<forall>x\<in>set (drop m xs). sem_waker_of q' x = sem_waker_of q1 x"
    "\<forall>z. z \<notin> set xs \<longrightarrow> node_states q' z = node_states q1 z \<and> q_data q' z = q_data q1 z"
    "drop m xs = [] \<longrightarrow> state_of usize_state q' = Some (push_bit PERMIT_SHIFT (of_nat l))"
    using g unfolding granted_def same by blast
  have "\<forall>z\<in>set (drop m xs). sem_waker_of q' z = sem_waker_of q z" using m(7) same' by (auto dest: in_set_dropD)
  moreover have "node_states q' x = Some Dequeued" "remaining q' x = 0" "q_data q' x \<noteq> None"
    using m(8) x q1(2,3) by (simp_all add: remaining_def)
  moreover have "\<forall>z. z \<notin> set (x # xs) \<longrightarrow> node_states q' z = node_states q z \<and> q_data q' z = q_data q z"
    using m(8) q1(1,2) by auto
  ultimately show ?thesis unfolding granted_def
    by (intro exI [of _ "Suc m"] exI [of _ rs] exI [of _ l]) (use m le in auto)
qed

lemma granted_last:
  assumes ok: "sem_ok q (x # xs)" and le: "remaining q x \<le> k" and fin: "xs = [] \<or> left = 0"
    and left: "unat left = k - remaining q x"
    and q1: "\<forall>z. z \<noteq> x \<longrightarrow> q_data q1 z = q_data q z" "node_states q1 = (node_states q)(x \<mapsto> Dequeued)" "remaining q1 x = 0 \<and> q_data q1 x \<noteq> None"
      "sem_ok q1 xs" "xs = [] \<longrightarrow> state_of usize_state q1 = Some (push_bit PERMIT_SHIFT left)"
  shows "granted k q (x # xs) ws log (log @ unlocked_wakes (ws @ [sem_waker_of q x])) (unlock q1)"
proof -
  have x: "x \<notin> set xs" using sem_ok_distinct [OF ok] by simp
  have r: "map (remaining q1) xs = map (remaining q) xs" "\<forall>z\<in>set xs. sem_waker_of q1 z = sem_waker_of q z"
    using q1(1) x by (auto simp: remaining_def sem_waker_of_def)
  have l: "of_nat (k - remaining q x) = left" unfolding left [symmetric] by simp
  have "xs \<noteq> [] \<Longrightarrow> k = remaining q x" using fin left le by auto
  then have g: "grant k (map (remaining q) (x # xs)) = (1, map (remaining q) xs, k - remaining q x)"
    using le by (cases "xs = []") auto
  show ?thesis unfolding granted_def
    by (rule exI, rule exI, rule exI, rule conjI [OF g])
      (use q1 r in \<open>auto simp: unlock_def state_of_def l simp del: of_nat_diff\<close>)
qed

lemma granted_flush:
  "granted k q ns [] (log @ unlocked_wakes ws) log' q' \<Longrightarrow> granted k q ns ws log log' q'"
  by (simp add: granted_def)

lemma granted_relock: "granted k (q\<lparr>q_locked := b\<rparr>) ns ws log log' q' = granted k q ns ws log log' q'"
  by (simp add: granted_def)

lemma lock_nonempty:
  assumes "state_of usize_state q = None" and "state_of usize_state (gap q) = None" and "\<not> q_locked (gap q)"
  shows "fetch_update_state_or_lock usize_state f gap q = Inr (True, (gap q)\<lparr>q_locked := True\<rparr>)"
    and "fetch_update_state_or_locked usize_state f gap g e q = g e ((gap q)\<lparr>q_locked := True\<rparr>)"
  using assms
  by (auto simp: fetch_update_state_or_lock_def fetch_update_state_or_locked_def fetch_update_state_locked_def
      lock_def state_of_def split: state_or_ptr.splits)

lemma sem_state_None: "sem_ok q ns \<Longrightarrow> ns \<noteq> [] \<Longrightarrow> state_of usize_state q = None"
  using is_empty_wf [of q ns] by (auto simp: sem_ok_def is_empty_def)

lemma dequeue_first: "sem_ok q (x # xs) \<Longrightarrow> locked_dequeue usize_state q = Inr (Some x)"
  using locked_dequeue_wf [of q "x # xs"] by (simp add: sem_ok_def)

lemma unlock_locked: "(unlock q)\<lparr>q_locked := True\<rparr> = q\<lparr>q_locked := True\<rparr>"
  by (simp add: unlock_def)

context bounded_wakers
begin

text \<open>A round that keeps the first waiter, and one that serves it.\<close>

lemma add_permits_keeps:
  assumes v: "rep v ws" and ok: "sem_ok q (x # xs)" and lt: "unat permits < remaining q x"
  shows "\<exists>log' q'. add_permits_loop (Suc n) A id permits v log q = Inr (log', q')
    \<and> granted (unat permits) q (x # xs) ws log log' q'"
proof -
  obtain w where w: "q_data q x = Some w" using sem_waiter_at [OF ok] by auto
  have g: "fst (give_permits permits w) = (True, permits, None)"
    using w lt by (intro give_permits_less(1)) (simp add: remaining_def)
  obtain v' where v': "av_drain A v = Inr (ws, v')" using drain_rep [OF v] by blast
  have "add_permits_loop (Suc n) A id permits v log q = Inr (log @ unlocked_wakes ws,
      unlock (q\<lparr>q_data := (q_data q)(x \<mapsto> snd (give_permits permits w))\<rparr>))"
    using dequeue_first [OF ok] w v' g
    by (cases "give_permits permits w") (simp add: add_permits_loop.simps(2) with_data_mut_def guard_requeue_def fold_wake_unlock)
  with grant_requeue [OF ok w lt] show ?thesis by blast
qed

lemma add_permits_serves:
  assumes v: "rep v ws" "length ws < 32" and ok: "sem_ok q (x # xs)" and le: "remaining q x \<le> unat permits"
    and max: "unat permits < 2 ^ 62"
  obtains left q1 v1 v2 where "unat left = unat permits - remaining q x" "sem_ok q1 xs" "q_locked q1 = q_locked q"
    "node_states q1 = (node_states q)(x \<mapsto> Dequeued)" "remaining q1 x = 0 \<and> q_data q1 x \<noteq> None"
    "\<forall>z. z \<noteq> x \<longrightarrow> q_data q1 z = q_data q z" "xs = [] \<longrightarrow> state_of usize_state q1 = Some (push_bit PERMIT_SHIFT left)"
    "rep v1 (ws @ [sem_waker_of q x])" "rep v2 []"
    "\<And>n log. add_permits_loop (Suc n) A id permits v log q =
      (if xs = [] \<or> left = 0 then Inr (log @ unlocked_wakes (ws @ [sem_waker_of q x]), unlock q1)
       else if length ws = 31
       then add_permits_loop n A id left v2 (log @ unlocked_wakes (ws @ [sem_waker_of q x])) (q1\<lparr>q_locked := True\<rparr>)
       else add_permits_loop n A id left v1 log q1)"
proof -
  obtain w where w: "q_data q x = Some w" using sem_waiter_at [OF ok] by auto
  obtain left q1 where s: 
    "give_permits permits w = ((False, left, Some (sem_waker_of q x)), w\<lparr>sw_permits_remaining := 0, sw_waker := None\<rparr>)"
    "unat left = unat permits - remaining q x"
    "dequeue_try_set_queue_state usize_state x (push_bit PERMIT_SHIFT left)
       (q\<lparr>q_data := (q_data q)(x \<mapsto> w\<lparr>sw_permits_remaining := 0, sw_waker := None\<rparr>)\<rparr>) = Inr (xs = [], q1)"
    "sem_ok q1 xs" "q_locked q1 = q_locked q" "node_states q1 = (node_states q)(x \<mapsto> Dequeued)"
    "remaining q1 x = 0 \<and> q_data q1 x \<noteq> None" "\<forall>z. z \<noteq> x \<longrightarrow> q_data q1 z = q_data q z"
    "xs = [] \<longrightarrow> state_of usize_state q1 = Some (push_bit PERMIT_SHIFT left)"
    by (rule serve_first [OF ok w le max])
  let ?ws = "ws @ [sem_waker_of q x]"
  obtain v1 where v1: "av_push A (sem_waker_of q x) v = Inr v1" "rep v1 ?ws" using push_rep [OF v] by blast
  obtain v2 where v2: "av_drain A v1 = Inr (?ws, v2)" "rep v2 []" using drain_rep [OF v1(2)] by blast
  have full: "av_is_full A v1 \<longleftrightarrow> length ws = 31" using full_rep [OF v1(2)] by simp
  have relock: "fetch_update_state_or_lock usize_state f id (unlock q1) = Inr (True, q1\<lparr>q_locked := True\<rparr>)"
    if "xs \<noteq> []" for f
    using lock_nonempty(1) [where gap = id, of "unlock q1"] sem_state_None [of "unlock q1" xs] s(4) that
    by (simp add: unlock_locked)
  have "add_permits_loop (Suc n) A id permits v log q =
      (if xs = [] \<or> left = 0 then Inr (log @ unlocked_wakes ?ws, unlock q1)
       else if length ws = 31 then add_permits_loop n A id left v2 (log @ unlocked_wakes ?ws) (q1\<lparr>q_locked := True\<rparr>)
       else add_permits_loop n A id left v1 log q1)" for n log
    using dequeue_first [OF ok] w s(1,3) v1(1) v2(1) full relock
    by (simp add: add_permits_loop.simps(2) with_data_mut_def fold_wake_unlock Let_def cong: if_cong)
  then show ?thesis by (rule that [OF s(2,4-9) v1(2) v2(2)])
qed

lemma add_permits_loop_ok:
  "rep v ws \<Longrightarrow> length ws < 32 \<Longrightarrow> sem_ok q ns \<Longrightarrow> q_locked q \<Longrightarrow> ns \<noteq> [] \<Longrightarrow> unat permits < 2 ^ 62 \<Longrightarrow>
   length ns \<le> n \<Longrightarrow>
   \<exists>log' q'. add_permits_loop n A id permits v log q = Inr (log', q') \<and> granted (unat permits) q ns ws log log' q'"
proof (induction n arbitrary: q ns permits v ws log)
  case (Suc n)
  obtain x xs where ns: "ns = x # xs" using Suc.prems(5) by (cases ns) auto
  have ok: "sem_ok q (x # xs)" using Suc.prems(3) ns by simp
  show ?case
  proof (cases "unat permits < remaining q x")
    case True
    then show ?thesis unfolding ns by (rule add_permits_keeps [OF Suc.prems(1) ok])
  next
    case False
    then have le: "remaining q x \<le> unat permits" by simp
    obtain left q1 v1 v2 where s: "unat left = unat permits - remaining q x" "sem_ok q1 xs" "q_locked q1 = q_locked q"
      "node_states q1 = (node_states q)(x \<mapsto> Dequeued)" "remaining q1 x = 0 \<and> q_data q1 x \<noteq> None"
      "\<forall>z. z \<noteq> x \<longrightarrow> q_data q1 z = q_data q z" "xs = [] \<longrightarrow> state_of usize_state q1 = Some (push_bit PERMIT_SHIFT left)"
      and v: "rep v1 (ws @ [sem_waker_of q x])" "rep v2 []"
      and run: "add_permits_loop (Suc n) A id permits v log q =
        (if xs = [] \<or> left = 0 then Inr (log @ unlocked_wakes (ws @ [sem_waker_of q x]), unlock q1)
         else if length ws = 31
         then add_permits_loop n A id left v2 (log @ unlocked_wakes (ws @ [sem_waker_of q x])) (q1\<lparr>q_locked := True\<rparr>)
         else add_permits_loop n A id left v1 log q1)"
      by (rule add_permits_serves [OF Suc.prems(1,2) ok le Suc.prems(6)]) (rule that)
    let ?ws = "ws @ [sem_waker_of q x]"
    show ?thesis
    proof (cases "xs = [] \<or> left = 0")
      case True
      have "granted (unat permits) q ns ws log (log @ unlocked_wakes ?ws) (unlock q1)"
        unfolding ns by (rule granted_last [OF ok le True s(1,6,4,5,2,7)])
      moreover have "add_permits_loop (Suc n) A id permits v log q = Inr (log @ unlocked_wakes ?ws, unlock q1)" using run True by simp
      ultimately show ?thesis by blast
    next
      case False
      then have lt: "remaining q x < unat permits" "xs \<noteq> []" "unat left < 2 ^ 62"
        using s(1) le Suc.prems(6) by (auto simp: word_unat_eq_iff)
      have len: "length xs \<le> n" "q_locked q1" using Suc.prems(4,7) ns s(3) by auto
      have "\<exists>log' q'. add_permits_loop (Suc n) A id permits v log q = Inr (log', q')
        \<and> granted (unat left) q1 xs ?ws log log' q'"
      proof (cases "length ws = 31")
        case True
        have pre: "length ([] :: waker list) < 32" "sem_ok (q1\<lparr>q_locked := True\<rparr>) xs" "q_locked (q1\<lparr>q_locked := True\<rparr>)"
          using s(2) by simp_all
        then have "add_permits_loop (Suc n) A id permits v log q
            = add_permits_loop n A id left v2 (log @ unlocked_wakes ?ws) (q1\<lparr>q_locked := True\<rparr>)"
          using run False True by simp
        then show ?thesis using Suc.IH [OF v(2) pre lt(2,3) len(1), of "log @ unlocked_wakes ?ws", unfolded granted_relock]
          by (metis granted_flush)
      next
        case neq: False
        then have "length ?ws < 32" using Suc.prems(2) by simp
        moreover have "add_permits_loop (Suc n) A id permits v log q = add_permits_loop n A id left v1 log q1"
          using run False neq by simp
        ultimately show ?thesis using Suc.IH [OF v(1) _ s(2) len(2) lt(2,3) len(1), of log] by metis
      qed
      then show ?thesis using granted_Cons [OF ok lt(1) s(6,4,5)] s(1) ns by metis
    qed
  qed
qed simp

end

section \<open>The state word\<close>

lemma sem_state_bound: "state_of usize_state q = Some st \<Longrightarrow> unat st < 2 ^ 63"
  using usize_qs.decoded_valid [of "q_tail q" st] max_state_unat by (auto simp: state_of_def word_le_nat_alt)

lemma available_unat: "state_of usize_state q = Some st \<Longrightarrow> unat (available_permits q) = unat st div 2"
  by (simp add: available_permits_def permits_of)

lemma sem_closed_iff: "state_of usize_state q = Some st \<Longrightarrow> sem_is_closed q \<longleftrightarrow> odd (unat st)"
  by (simp add: sem_is_closed_def closed_bit)

text \<open>An exchange of the state of an empty queue.\<close>

lemma fetch_update_empty:
  assumes "state_of usize_state q = Some st"
  shows "fetch_update_state usize_state f [] q =
    bind_res (f st) (\<lambda>r. case r of None \<Rightarrow> Inr (Inl (Some st), q)
      | Some st' \<Rightarrow> bind_res (enum_to_tail usize_state (State st')) (\<lambda>w. Inr (Inr st, q\<lparr>q_tail := w\<rparr>)))"
  using assms by (cases "tail_to_enum usize_state (q_tail q)") (simp_all add: state_of_def)

lemma fetch_update_nonempty:
  "state_of usize_state q = None \<Longrightarrow> fetch_update_state usize_state f [] q = Inr (Inl None, q)"
  by (cases "tail_to_enum usize_state (q_tail q)") (simp_all add: state_of_def)

lemma encode_state_word:
  assumes "unat st < 2 ^ 63"
  obtains w where "enum_to_tail usize_state (State st) = Inr w" "tail_to_enum usize_state w = State st"
  using usize_qs.state_encodable [of st] assms by (auto simp: word_le_nat_alt max_state_unat)

lemma same_state_same_tail:
  assumes "state_of usize_state q = Some st" and "enum_to_tail usize_state (State st) = Inr w"
  shows "q_tail q = w"
  using assms usize_qs.encode_of_decode [of "q_tail q" "State st"] by (simp add: state_of_def)

lemma check_acquire_eq:
  assumes "unat st < 2 ^ 63"
  shows "check_acquire_permits st permits =
    (if odd (unat st) \<or> unat st div 2 < unat permits then None else Some (st - push_bit PERMIT_SHIFT (ucast permits)))"
    and "even (unat st) \<Longrightarrow> unat permits \<le> unat st div 2 \<Longrightarrow>
      unat (st - push_bit PERMIT_SHIFT (ucast permits)) = unat st - 2 * unat permits"
proof -
  have k: "unat (push_bit PERMIT_SHIFT (ucast permits :: usize)) = 2 * unat permits"
    using u32_less [of permits] by (simp add: shift_permits u32_permits)
  then have le: "push_bit PERMIT_SHIFT (ucast permits) \<le> st \<longleftrightarrow> 2 * unat permits \<le> unat st"
    by (simp add: word_le_nat_alt)
  show "check_acquire_permits st permits =
    (if odd (unat st) \<or> unat st div 2 < unat permits then None else Some (st - push_bit PERMIT_SHIFT (ucast permits)))"
    by (auto simp: check_acquire_permits_def closed_bit Let_def le)
  show "unat (st - push_bit PERMIT_SHIFT (ucast permits)) = unat st - 2 * unat permits"
    if "even (unat st)" "unat permits \<le> unat st div 2"
    using that le k by (subst unat_sub) auto
qed

lemma check_add_eq:
  assumes "unat st < 2 ^ 63" and "unat st div 2 + unat add < 2 ^ 61"
  shows "check_add_permits st add = Inr (st + push_bit PERMIT_SHIFT add)"
    and "unat (st + push_bit PERMIT_SHIFT add) = unat st + 2 * unat add"
proof -
  have "drop_bit PERMIT_SHIFT st \<le> MAX_PERMITS" using assms(2) by (simp add: word_le_nat_alt permits_of MAX_PERMITS_unat)
  moreover from this have "unat (MAX_PERMITS - drop_bit PERMIT_SHIFT st) = 2 ^ 61 - 1 - unat st div 2"
    by (simp add: unat_sub permits_of MAX_PERMITS_unat)
  ultimately show "check_add_permits st add = Inr (st + push_bit PERMIT_SHIFT add)"
    using assms(2) by (simp add: check_add_permits_def sub_checked_def word_le_nat_alt)
  have "unat (push_bit PERMIT_SHIFT add) = 2 * unat add" using assms(2) by (intro shift_permits) simp
  then show "unat (st + push_bit PERMIT_SHIFT add) = unat st + 2 * unat add"
    using assms by (simp add: unat_word_ariths)
qed

lemma enqueue_same_state:
  assumes ok: "sem_ok q ns" and p: "node_states q p = Some Unqueued" and w: "sw_waker w \<noteq> None"
  obtains q' where
    "try_enqueue_with_queue_state usize_state p (\<lambda>s. s = state_of usize_state q) []
       (q\<lparr>q_data := (q_data q)(p \<mapsto> w)\<rparr>) = Inr (True, q')"
    "sem_ok q' (ns @ [p])" "q_locked q' = q_locked q" "q_data q' = (q_data q)(p \<mapsto> w)"
    "node_states q' = (node_states q)(p \<mapsto> Queued)"
proof -
  obtain q' where "try_enqueue_with_queue_state usize_state p (\<lambda>s. s = state_of usize_state q) []
      (q\<lparr>q_data := (q_data q)(p \<mapsto> w)\<rparr>) = Inr (True, q')"
    "queue_wf usize_state q' (ns @ [p])" "q_locked q' = q_locked q" "q_data q' = (q_data q)(p \<mapsto> w)"
    "node_states q' = (node_states q)(p \<mapsto> Queued)"
    by (rule wf_enqueue_same_state [OF sem_ok_wf [OF ok] p])
  then show ?thesis using ok w by (intro that [of q']) (auto simp: sem_ok_def)
qed

text \<open>
  The look at the state word that every acquisition starts with: it takes the permits, or it is
  refused and nothing changes.
\<close>

abbreviation look_acquire :: "u32 \<Rightarrow> sem_waiter queue \<Rightarrow> ((usize option + usize) \<times> sem_waiter queue) res" where
  "look_acquire permits \<equiv> fetch_update_state usize_state (\<lambda>st. Inr (check_acquire_permits st permits)) []"

lemma look_acquire_ok:
  assumes ok: "sem_ok q ns" and pos: "0 < unat permits"
    and room: "\<not> sem_is_closed q" "unat permits \<le> unat (available_permits q)"
  obtains st w where "look_acquire permits q = Inr (Inr st, q\<lparr>q_tail := w\<rparr>)" "sem_ok (q\<lparr>q_tail := w\<rparr>) ns" "ns = []"
    "unat (available_permits (q\<lparr>q_tail := w\<rparr>)) = unat (available_permits q) - unat permits"
    "\<not> sem_is_closed (q\<lparr>q_tail := w\<rparr>)"
proof -
  obtain st where st: "state_of usize_state q = Some st"
    using pos room(2) by (cases "state_of usize_state q") (auto simp: available_permits_def)
  note b = sem_state_bound [OF st] and av = available_unat [OF st] and cl = sem_closed_iff [OF st]
  note eq = check_acquire_eq [OF b, of permits]
  let ?n = "st - push_bit PERMIT_SHIFT (ucast permits)"
  have n: "unat ?n = unat st - 2 * unat permits" "check_acquire_permits st permits = Some ?n"
    using eq room cl av by auto
  obtain w where w: "enum_to_tail usize_state (State ?n) = Inr w" "tail_to_enum usize_state w = State ?n"
    by (rule encode_state_word [of ?n]) (use n b in simp)
  have e: "ns = []" using sem_state_None [OF ok] st by (cases "ns = []") auto
  have st': "state_of usize_state (q\<lparr>q_tail := w\<rparr>) = Some ?n" using w(2) by (simp add: state_of_def)
  have "tail_node usize_state q = None" "tail_node usize_state (q\<lparr>q_tail := w\<rparr>) = None"
    using st w(2) by (auto simp: state_of_def tail_node_def sop_state_def sop_tail_def split: state_or_ptr.splits)
  then have "sem_ok (q\<lparr>q_tail := w\<rparr>) ns" using ok e by (simp add: sem_ok_def queue_wf_def queue_inv_def nodes_ok_def)
  moreover have "look_acquire permits q = Inr (Inr st, q\<lparr>q_tail := w\<rparr>)"
    using n(2) w(1) by (simp add: fetch_update_empty [OF st] del: fetch_update_state.simps)
  ultimately show ?thesis
    using e available_unat [OF st'] sem_closed_iff [OF st'] n(1) av room cl by (intro that [of st w]) auto
qed

lemma look_acquire_refused:
  assumes "sem_is_closed q \<or> unat (available_permits q) < unat permits"
  shows "look_acquire permits q = Inr (Inl (state_of usize_state q), q)"
proof (cases "state_of usize_state q")
  case (Some st)
  then have "check_acquire_permits st permits = None"
    using check_acquire_eq(1) [OF sem_state_bound [OF Some], of permits] assms sem_closed_iff [OF Some] available_unat [OF Some]
    by auto
  with Some show ?thesis by (simp add: fetch_update_empty del: fetch_update_state.simps)
qed (simp add: fetch_update_nonempty del: fetch_update_state.simps)

lemma truncated_available:
  assumes "unat st < 2 ^ 63"
  shows "unat (drop_bit PERMIT_SHIFT (ucast st :: u32)) = unat st div 2 mod 2 ^ 31"
proof -
  have "unat (drop_bit PERMIT_SHIFT (ucast st :: u32)) = unat st mod 2 ^ 32 div 2"
    unfolding PERMIT_SHIFT_def by (simp only: unat_drop_bit_eq unsigned_ucast_eq) (simp add: drop_bit_eq_div take_bit_eq_mod)
  also have "\<dots> = unat st div 2 mod 2 ^ 31" using mod_mult2_eq [of "unat st" 2 "2 ^ 31"] by simp
  finally show ?thesis .
qed

text \<open>A refused future of an open semaphore queues up, and takes over what is available.\<close>

lemma poll_acquire_enqueues:
  assumes ok: "sem_ok q ns" and p: "node_states q p = Some Unqueued" and w: "q_data q p = Some w"
    and room: "\<not> sem_is_closed q" "unat (available_permits q) < unat permits"
  obtains q' rem where "poll_acquire_loop [] p cx permits q = Inr (Pending, q')" "sem_ok q' (ns @ [p])" "q_locked q' = q_locked q"
    "q_data q' = (q_data q)(p \<mapsto> \<lparr>sw_waker = Some (case sw_waker w of None \<Rightarrow> cx | Some k \<Rightarrow> k), sw_permits_remaining = rem\<rparr>)"
    "unat rem = unat permits - unat (available_permits q) mod 2 ^ 31" "node_states q' = (node_states q)(p \<mapsto> Queued)"
proof -
  let ?st = "case state_of usize_state q of None \<Rightarrow> 0 | Some s \<Rightarrow> s" and ?k = "case sw_waker w of None \<Rightarrow> cx | Some k \<Rightarrow> k"
  let ?rem = "permits - drop_bit PERMIT_SHIFT (ucast ?st)"
  have b: "unat ?st < 2 ^ 63" using sem_state_bound [of q] by (cases "state_of usize_state q") auto
  have t: "unat (drop_bit PERMIT_SHIFT (ucast ?st :: u32)) = unat (available_permits q) mod 2 ^ 31"
    using truncated_available [OF b] by (simp add: available_permits_def permits_of)
  have le: "drop_bit PERMIT_SHIFT (ucast ?st) \<le> permits"
    unfolding word_le_nat_alt t using room(2) mod_less_eq_dividend [of "unat (available_permits q)" "2 ^ 31"] by linarith
  then have rem: "unat ?rem = unat permits - unat (available_permits q) mod 2 ^ 31" using t by (simp add: unat_sub)
  have look: "look_acquire permits q = Inr (Inl (state_of usize_state q), q)" using room by (intro look_acquire_refused) simp
  let ?w = "w\<lparr>sw_permits_remaining := ?rem, sw_waker := Some ?k\<rparr>"
  obtain q' where q': "try_enqueue_with_queue_state usize_state p (\<lambda>s. s = state_of usize_state q) []
       (q\<lparr>q_data := (q_data q)(p \<mapsto> ?w)\<rparr>) = Inr (True, q')"
    "sem_ok q' (ns @ [p])" "q_locked q' = q_locked q" "q_data q' = (q_data q)(p \<mapsto> ?w)"
    "node_states q' = (node_states q)(p \<mapsto> Queued)"
    by (rule enqueue_same_state [OF ok p, of ?w]) auto
  have "(case sw_waker w of None \<Rightarrow> Some cx | Some k \<Rightarrow> Some k) = Some ?k" by (simp split: option.split)
  then have run: "poll_acquire_loop [] p cx permits q = Inr (Pending, q')"
    using look room(1) le q'(1) w
    by (simp add: poll_acquire_loop.simps sem_is_closed_def sub_checked_def with_data_mut_def del: fetch_update_state.simps)
  have e: "?w = \<lparr>sw_waker = Some ?k, sw_permits_remaining = ?rem\<rparr>" by simp
  show ?thesis by (rule that [OF run q'(2,3) q'(4) [unfolded e] rem q'(5)])
qed

lemma poll_acquire_loop_ok:
  assumes ok: "sem_ok q ns" and lk: "\<not> q_locked q" and p: "node_states q p = Some Unqueued" and w: "q_data q p = Some w"
    and pos: "0 < unat permits"
  shows "\<exists>poll q' ms. poll_acquire_loop [] p cx permits q = Inr (poll, q') \<and> sem_ok q' ms \<and> \<not> q_locked q'
    \<and> (if sem_is_closed q then poll = Ready (Inl AcquireError) \<and> q' = q \<and> ms = ns
       else if unat permits \<le> unat (available_permits q)
       then poll = Ready (Inr ()) \<and> unat (available_permits q') = unat (available_permits q) - unat permits \<and> ms = ns
       else poll = Pending \<and> ms = ns @ [p] \<and> sem_waker_of q' p = (case sw_waker w of None \<Rightarrow> cx | Some k \<Rightarrow> k)
         \<and> remaining q' p = unat permits - unat (available_permits q) mod 2 ^ 31)"
proof (cases "sem_is_closed q")
  case True
  then have "poll_acquire_loop [] p cx permits q = Inr (Ready (Inl AcquireError), q)"
    by (simp add: poll_acquire_loop.simps look_acquire_refused sem_is_closed_def del: fetch_update_state.simps)
  with True ok lk show ?thesis by auto
next
  case open_sem: False
  show ?thesis
  proof (cases "unat permits \<le> unat (available_permits q)")
    case True
    then obtain st v where v: "look_acquire permits q = Inr (Inr st, q\<lparr>q_tail := v\<rparr>)" "sem_ok (q\<lparr>q_tail := v\<rparr>) ns"
      "unat (available_permits (q\<lparr>q_tail := v\<rparr>)) = unat (available_permits q) - unat permits"
      using look_acquire_ok [OF ok pos open_sem] by metis
    then have "poll_acquire_loop [] p cx permits q = Inr (Ready (Inr ()), q\<lparr>q_tail := v\<rparr>)"
      by (simp add: poll_acquire_loop.simps del: fetch_update_state.simps)
    with v True open_sem lk show ?thesis by auto
  next
    case False
    then have "unat (available_permits q) < unat permits" by simp
    then obtain q' rem where "poll_acquire_loop [] p cx permits q = Inr (Pending, q')" "sem_ok q' (ns @ [p])" "q_locked q' = q_locked q"
      "q_data q' = (q_data q)(p \<mapsto> \<lparr>sw_waker = Some (case sw_waker w of None \<Rightarrow> cx | Some k \<Rightarrow> k), sw_permits_remaining = rem\<rparr>)"
      "unat rem = unat permits - unat (available_permits q) mod 2 ^ 31"
      by (rule poll_acquire_enqueues [OF ok p w open_sem])
    with False open_sem lk show ?thesis
      by (intro exI [of _ Pending] exI [of _ q'] exI [of _ "ns @ [p]"]) (simp add: sem_waker_of_def remaining_def)
  qed
qed

text \<open>A poll while the node is queued only replaces the waker.\<close>

lemma poll_acquire_queued:
  fixes cx :: waker
  assumes ok: "sem_ok s ns" and lk: "\<not> q_locked s" and p: "p \<in> set ns" and w: "q_data s p = Some w"
    and view: "node_state p gap q = Inr (NodeQueued, s\<lparr>q_locked := True\<rparr>)"
  defines "q' \<equiv> s\<lparr>q_data := (q_data s)(p \<mapsto> w\<lparr>sw_waker := Some cx\<rparr>)\<rparr>"
  shows "poll_acquire gap rounds p cx permits q = Inr (Pending, q')" and "sem_ok q' ns" and "sem_waker_of q' p = cx"
    and "remaining q' p = remaining s p"
proof -
  obtain k where k: "sw_waker w = Some k" using sem_waiter_at [OF ok p] w by auto
  have e: "(if k \<noteq> cx then w\<lparr>sw_waker := Some cx\<rparr> else w) = w\<lparr>sw_waker := Some cx\<rparr>" using k by simp
  have "ns \<noteq> []" using p by auto
  then have "\<not> sem_is_closed (s\<lparr>q_locked := True\<rparr>)" using ok by (intro sem_not_closed [of _ ns]) simp_all
  then show "poll_acquire gap rounds p cx permits q = Inr (Pending, q')"
    using view w k unlock_id [OF lk] unfolding q'_def
    by (cases s) (simp add: poll_acquire_def with_data_def with_data_mut_def unlock_def e)
  show "sem_ok q' ns" "sem_waker_of q' p = cx" "remaining q' p = remaining s p"
    using ok w by (auto simp: q'_def sem_ok_def sem_waker_of_def remaining_def)
qed

text \<open>
  Closing a semaphore with waiters wakes them all, in order and without the lock, and leaves it
  closed unless others enqueue meanwhile; without waiters it only sets the closed bit.
\<close>

lemma sem_close_waiters:
  assumes "bounded_wakers A rep" and "sem_ok q ns" and "ns \<noteq> []" and "\<not> q_locked q"
    and "q_links q s = None" and "node_addr s" and "drain_env (=) usize_state s others" and "length ns < n"
  shows "\<exists>q'. sem_close n A s id others log q = Inr (log @ unlocked_wakes (map (sem_waker_of q) ns), q')
    \<and> \<not> q_locked q' \<and> ((\<forall>q. q_tail (others q) = q_tail q) \<longrightarrow> sem_is_closed q' \<and> unat (available_permits q') = 0)"
proof -
  let ?q = "q\<lparr>q_locked := True\<rparr>" and ?get = "\<lambda>w. bind_res (unwrap UNWRAP_NONE (sw_waker w)) (\<lambda>k. Inr (Some k))"
  have D: "\<forall>x\<in>set ns. \<exists>w. q_data ?q x = Some w \<and> ?get w = Inr (Some (sem_waker_of q x))"
    using assms(2) by (fastforce simp: sem_ok_def sem_waker_of_def unwrap_def)
  have wf: "queue_wf usize_state ?q ns" using assms(2) by (simp add: sem_ok_def)
  have st: "SEM_CLOSED \<le> INTRUSIVE_QUEUE_MAX_STATE" by (simp add: SEM_CLOSED_def max_state_value)
  obtain q' where q': "drain_wakers A ?get (\<lambda>w. w\<lparr>sw_waker := None\<rparr>) n SEM_CLOSED s others log ?q
      = Inr (log @ unlocked_wakes (wakers_of (\<lambda>x. Some (sem_waker_of q x)) ns), q')" "\<not> q_locked q'"
    "(\<forall>q. q_tail (others q) = q_tail q) \<longrightarrow> state_of usize_state q' = Some SEM_CLOSED"
    using bounded_wakers.drain_wakers_ok [OF assms(1) wf _ _ assms(6) D st assms(7,8), of "\<lambda>w. w\<lparr>sw_waker := None\<rparr>" log]
      assms(3,5) by auto
  have closed: "sem_is_closed q' \<and> unat (available_permits q') = 0" if "state_of usize_state q' = Some SEM_CLOSED"
    using that by (simp add: sem_is_closed_def available_permits_def SEM_CLOSED_def PERMIT_SHIFT_def)
  have "sem_close n A s id others log q = Inr (log @ unlocked_wakes (map (sem_waker_of q) ns), q')"
    using q'(1) lock_nonempty(1) [where gap = id, of q] sem_state_None [OF assms(2,3)] assms(4)
    by (simp add: sem_close_def wakers_of_Some [of ns _ "sem_waker_of q"])
  with q'(2,3) closed show ?thesis by blast
qed

section \<open>Properties\<close>

text \<open>
  C30. \<^verbatim>\<open>add_permits\<close> with waiters is the reference \<open>grant\<close>, across the batches of
  32 wakers it wakes with the lock released: permits go to the waiters in queue order, exactly those
  whose need is covered are dequeued and woken, each once, in order and without the lock, the next one
  keeps what is left of its need, and what nobody needs becomes the available permits of the then
  empty queue. No permit is created or lost, and the loop ends after one round per waiter.
\<close>

theorem add_permits_exact:
  assumes "bounded_wakers A rep" and "sem_ok q ms" and "ms \<noteq> []"
    and "sem_ok (gap q) ns" and "ns \<noteq> []" and "\<not> q_locked (gap q)"
    and "permits \<noteq> 0" and "unat permits < 2 ^ 62" and "length ns \<le> n"
  shows "\<exists>m rs l q'. grant (unat permits) (map (remaining (gap q)) ns) = (m, rs, l)
    \<and> add_permits n A gap id permits log q
        = Inr (log @ unlocked_wakes (map (sem_waker_of (gap q)) (take m ns)), q')
    \<and> sem_ok q' (drop m ns) \<and> \<not> q_locked q' \<and> map (remaining q') (drop m ns) = rs
    \<and> (\<forall>x\<in>set (take m ns). node_states q' x = Some Dequeued \<and> remaining q' x = 0)
    \<and> (drop m ns = [] \<longrightarrow> unat (available_permits q') = l \<and> \<not> sem_is_closed q')
    \<and> unat permits + sum_list rs = sum_list (map (remaining (gap q)) ns) + l"
proof -
  note A = assms(1)
  let ?q = "(gap q)\<lparr>q_locked := True\<rparr>"
  have ok: "sem_ok ?q ns" "q_locked ?q" using assms(4) by simp_all
  have len: "length ([] :: waker list) < 32" by simp
  obtain log' q' where r: "add_permits_loop n A id permits (av_new A) log ?q = Inr (log', q')"
    "granted (unat permits) ?q ns [] log log' q'"
    using bounded_wakers.add_permits_loop_ok [OF A bounded_wakers.new_rep [OF A] len ok assms(5,8,9)] by blast
  have "add_permits n A gap id permits log q = Inr (log', q')"
    using assms(7) r(1) sem_not_closed [OF ok(1) assms(5)]
    by (simp add: add_permits_def add_permits_locked_def
        lock_nonempty(2) [where gap = gap, OF sem_state_None [OF assms(2,3)] sem_state_None [OF assms(4,5)] assms(6)])
  moreover obtain m rs l where g: "grant (unat permits) (map (remaining (gap q)) ns) = (m, rs, l)"
    "log' = log @ unlocked_wakes (map (sem_waker_of (gap q)) (take m ns))"
    "sem_ok q' (drop m ns)" "\<not> q_locked q'" "map (remaining q') (drop m ns) = rs"
    "\<forall>x\<in>set (take m ns). node_states q' x = Some Dequeued \<and> remaining q' x = 0"
    "drop m ns = [] \<longrightarrow> state_of usize_state q' = Some (push_bit PERMIT_SHIFT (of_nat l))"
    using r(2) by (auto simp: granted_def)
  moreover note c = grant_conserves [OF g(1)]
  have "l < 2 ^ 62" using c assms(8) by simp
  then have "unat (of_nat l :: usize) = l" by (simp add: unsigned_of_nat take_bit_nat_eq_self_iff)
  then have "unat (push_bit PERMIT_SHIFT (of_nat l :: usize)) = 2 * l" using \<open>l < 2 ^ 62\<close> by (simp add: shift_permits)
  then have "drop m ns = [] \<longrightarrow> unat (available_permits q') = l \<and> \<not> sem_is_closed q'"
    using g(7) available_unat [of q'] sem_closed_iff [of q'] by auto
  ultimately show ?thesis using c by blast
qed

text \<open>
  Two waiters: the first one needs one more permit, the second one three.
\<close>

definition two_acquirers :: "sem_waiter queue" where
  "two_acquirers = \<lparr>q_tail = 8193, q_head = 4096, q_locked = False,
     q_links = [4096 \<mapsto> \<lparr>link_prev = 2, link_next = 8192\<rparr>, 8192 \<mapsto> \<lparr>link_prev = 4096, link_next = 0\<rparr>],
     q_data = [4096 \<mapsto> \<lparr>sw_waker = Some 7, sw_permits_remaining = 1\<rparr>, 8192 \<mapsto> \<lparr>sw_waker = Some 8, sw_permits_remaining = 3\<rparr>]\<rparr>"

lemma two_acquirers_ok: "sem_ok two_acquirers [4096, 8192]"
  using queue_wf_same_links [of two_acquirers two_nodes usize_state "[4096, 8192]"] two_nodes_wf
  by (simp add: sem_ok_def two_acquirers_def two_nodes_def)

theorem add_permits_exact_witness:
  "\<exists>q'. add_permits 2 waker_list_ops id id 2 [] two_acquirers = Inr ([(7, False)], q')
     \<and> sem_ok q' [8192] \<and> map (remaining q') [8192] = [2]"
proof -
  have r: "map (remaining two_acquirers) [4096, 8192] = [1, 3]" by (simp add: two_acquirers_def remaining_def)
  have w: "sem_waker_of two_acquirers 4096 = 7" by (simp add: two_acquirers_def sem_waker_of_def)
  have u: "\<not> q_locked two_acquirers" by (simp add: two_acquirers_def)
  show ?thesis
    using add_permits_exact [where gap = id and n = 2 and permits = 2 and log = "[]" and q = two_acquirers
        and ns = "[4096, 8192]" and ms = "[4096, 8192]", OF crate_wakers.bounded_wakers_axioms] two_acquirers_ok r w u
    by auto
qed

text \<open>
  C31. \<^verbatim>\<open>try_acquire_many\<close> decides on the state word alone: it fails with
  \<^verbatim>\<open>NoPermits\<close> while others wait (a newcomer cannot overtake them) or too few permits
  are available, with \<^verbatim>\<open>Closed\<close> exactly on a closed semaphore, and changes nothing
  then; otherwise it takes exactly the permits asked for, and dropping the permit it returns gives
  back exactly the queue it started from.
\<close>

theorem try_acquire_exact:
  assumes "0 < unat permits"
  shows "(state_of usize_state q = None \<longrightarrow> try_acquire_many [] sem permits q = Inr (Inl TryNoPermits, q))
    \<and> (sem_is_closed q \<longrightarrow> try_acquire_many [] sem permits q = Inr (Inl TryClosed, q))
    \<and> (\<not> sem_is_closed q \<and> unat (available_permits q) < unat permits
         \<longrightarrow> try_acquire_many [] sem permits q = Inr (Inl TryNoPermits, q))
    \<and> (\<not> sem_is_closed q \<and> unat permits \<le> unat (available_permits q) \<and> available_permits q \<le> MAX_PERMITS \<longrightarrow>
         (\<exists>q'. try_acquire_many [] sem permits q = Inr (Inr \<lparr>sp_sem = sem, sp_permits = permits\<rparr>, q')
           \<and> unat (available_permits q') = unat (available_permits q) - unat permits
           \<and> permit_drop n A gap others \<lparr>sp_sem = sem, sp_permits = permits\<rparr> log q' = Inr (log, q)))"
proof (cases "state_of usize_state q")
  case None
  then show ?thesis using assms
    by (auto simp: try_acquire_many_def fetch_update_nonempty sem_is_closed_def available_permits_def
        simp del: fetch_update_state.simps)
next
  case (Some st)
  note b = sem_state_bound [OF Some] and eq = check_acquire_eq [OF sem_state_bound [OF Some], of permits]
  show ?thesis
  proof (cases "odd (unat st) \<or> unat st div 2 < unat permits")
    case True
    then have "check_acquire_permits st permits = None" by (simp add: eq(1))
    then show ?thesis using True Some
      by (auto simp: try_acquire_many_def fetch_update_empty [OF Some] sem_closed_iff available_unat closed_bit
          simp del: fetch_update_state.simps)
  next
    case False
    let ?st = "st - push_bit PERMIT_SHIFT (ucast permits)"
    have st: "unat ?st = unat st - 2 * unat permits" using eq(2) False by simp
    obtain w where w: "enum_to_tail usize_state (State ?st) = Inr w" "tail_to_enum usize_state w = State ?st"
      by (rule encode_state_word [of ?st]) (use st b in simp)
    let ?q = "q\<lparr>q_tail := w\<rparr>"
    have Some': "state_of usize_state ?q = Some ?st" using w(2) by (simp add: state_of_def)
    have got: "try_acquire_many [] sem permits q = Inr (Inr \<lparr>sp_sem = sem, sp_permits = permits\<rparr>, ?q)"
      using False w(1) by (simp add: try_acquire_many_def fetch_update_empty [OF Some] eq(1) del: fetch_update_state.simps)
    have "permit_drop n A gap others \<lparr>sp_sem = sem, sp_permits = permits\<rparr> log ?q = Inr (log, q)"
      if "available_permits q \<le> MAX_PERMITS"
    proof -
      have "unat st div 2 < 2 ^ 61" using that available_unat [OF Some] by (simp add: word_le_nat_alt MAX_PERMITS_unat)
      then have "unat ?st < 2 ^ 63" "unat ?st div 2 + unat (ucast permits :: usize) < 2 ^ 61"
        using st b False by (auto simp: u32_permits)
      then have "check_add_permits ?st (ucast permits) = Inr st" using check_add_eq(1) [of ?st] by simp
      moreover obtain v where v: "enum_to_tail usize_state (State st) = Inr v" by (rule encode_state_word [OF b])
      moreover have "v = q_tail q" using same_state_same_tail [OF Some v] by simp
      moreover have "(ucast permits :: usize) \<noteq> 0" using assms by (auto simp: word_unat_eq_iff u32_permits)
      ultimately show ?thesis
        by (simp add: permit_drop_def add_permits_def fetch_update_state_or_locked_def fetch_update_empty [OF Some']
            del: fetch_update_state.simps)
    qed
    moreover have "unat (available_permits ?q) = unat (available_permits q) - unat permits"
      using available_unat [OF Some] available_unat [OF Some'] st by simp
    ultimately show ?thesis using got False sem_closed_iff [OF Some] available_unat [OF Some] Some by auto
  qed
qed

theorem try_acquire_exact_witness:
  "\<exists>q q'. sem_new 5 = Inr q \<and> try_acquire_many [] 4096 3 q = Inr (Inr \<lparr>sp_sem = 4096, sp_permits = 3\<rparr>, q')
     \<and> unat (available_permits q') = 2
     \<and> permit_drop 1 waker_list_ops id id \<lparr>sp_sem = 4096, sp_permits = 3\<rparr> [] q' = Inr ([], q)"
proof -
  define q :: "sem_waiter queue" where "q = new_impl 20"
  have st: "state_of usize_state q = Some 10"
    by (simp add: q_def new_impl_def state_of_def usize_state_def TAIL_FLAG_def STATE_SHIFT_def drop_bit_eq_div)
  have "push_bit PERMIT_SHIFT (5 :: usize) = 10" by (simp add: PERMIT_SHIFT_def)
  then have new: "sem_new 5 = Inr q"
    using check_add_eq(1) [of 0 5]
    by (simp add: sem_new_def with_state_const_def state_to_ptr_def max_state_value q_def STATE_SHIFT_def)
  have "unat (available_permits q) = 5" "\<not> sem_is_closed q" using available_unat [OF st] sem_closed_iff [OF st] by simp_all
  moreover from this have "available_permits q \<le> MAX_PERMITS" by (simp add: word_le_nat_alt MAX_PERMITS_unat)
  ultimately show ?thesis
    using new try_acquire_exact [of 3 q 4096 1 waker_list_ops id id "[]"] by auto
qed

text \<open>
  C32. Polling an \<^verbatim>\<open>Acquire\<close>, with \<open>s\<close> the memory as it is when the node's
  state is known for certain. A dequeued waiter is ready, with an error exactly if the semaphore is
  closed; a queued one stays pending and its waker is the polling task. An unqueued one is refused
  by a closed semaphore, takes its permits at once if there are enough, and otherwise is appended to
  the queue with the number of permits it still needs: those that were available count as taken,
  modulo \<open>2 ^ 31\<close> because the code truncates them to 32 bits.
\<close>

theorem poll_acquire_contract:
  assumes "s = seen p gap q" and "sem_ok s ns" and "\<not> q_locked s" and "q_data s p = Some w" and "0 < unat permits"
    and "node_states q p \<noteq> None" and "node_states s p = Some st"
    and "node_states q p = Some Queued \<longrightarrow> st \<noteq> Unqueued"
  shows "\<exists>poll q' ms. poll_acquire gap [] p cx permits q = Inr (poll, q') \<and> sem_ok q' ms \<and> \<not> q_locked q'
    \<and> (st = Dequeued \<longrightarrow> poll = Ready (if sem_is_closed s then Inl AcquireError else Inr ()) \<and> q' = s)
    \<and> (st = Queued \<longrightarrow> poll = Pending \<and> ms = ns \<and> sem_waker_of q' p = cx \<and> remaining q' p = remaining s p)
    \<and> (st = Unqueued \<longrightarrow>
        (if sem_is_closed s then poll = Ready (Inl AcquireError) \<and> q' = s
         else if unat permits \<le> unat (available_permits s)
         then poll = Ready (Inr ()) \<and> unat (available_permits q') = unat (available_permits s) - unat permits
         else poll = Pending \<and> ms = ns @ [p] \<and> sem_waker_of q' p = (case sw_waker w of None \<Rightarrow> cx | Some k \<Rightarrow> k)
           \<and> remaining q' p = unat permits - unat (available_permits s) mod 2 ^ 31))"
proof -
  have view: "node_state p gap q = Inr (case st of Unqueued \<Rightarrow> (NodeUnqueued, s)
    | Queued \<Rightarrow> (NodeQueued, s\<lparr>q_locked := True\<rparr>) | Dequeued \<Rightarrow> (NodeDequeued, s))"
    unfolding assms(1) by (rule node_state_seen) (use assms in auto)
  show ?thesis
  proof (cases st)
    case Unqueued
    then have "poll_acquire gap [] p cx permits q = poll_acquire_loop [] p cx permits s"
      using view by (simp add: poll_acquire_def)
    moreover obtain poll q' ms where r: "poll_acquire_loop [] p cx permits s = Inr (poll, q')" "sem_ok q' ms" "\<not> q_locked q'"
      "if sem_is_closed s then poll = Ready (Inl AcquireError) \<and> q' = s \<and> ms = ns
       else if unat permits \<le> unat (available_permits s)
       then poll = Ready (Inr ()) \<and> unat (available_permits q') = unat (available_permits s) - unat permits \<and> ms = ns
       else poll = Pending \<and> ms = ns @ [p] \<and> sem_waker_of q' p = (case sw_waker w of None \<Rightarrow> cx | Some k \<Rightarrow> k)
         \<and> remaining q' p = unat permits - unat (available_permits s) mod 2 ^ 31"
      using poll_acquire_loop_ok [OF assms(2,3) _ assms(4,5), of cx] assms(7) Unqueued by blast
    ultimately show ?thesis using Unqueued
      by (intro exI [of _ poll] exI [of _ q'] exI [of _ ms]) (auto split: if_splits)
  next
    case Queued
    have p: "p \<in> set ns" using queue_wf_queued_iff [OF sem_ok_wf [OF assms(2)], of p] assms(7) Queued by simp
    note r = poll_acquire_queued [OF assms(2,3) p assms(4), where cx = cx]
    let ?q = "s\<lparr>q_data := (q_data s)(p \<mapsto> w\<lparr>sw_waker := Some cx\<rparr>)\<rparr>"
    show ?thesis using r view Queued assms(3) by (intro exI [of _ Pending] exI [of _ ?q] exI [of _ ns]) simp
  next
    case Dequeued
    then have "poll_acquire gap [] p cx permits q = Inr (Ready (if sem_is_closed s then Inl AcquireError else Inr ()), s)"
      using view by (simp add: poll_acquire_def)
    with Dequeued assms(2,3) show ?thesis by blast
  qed
qed

theorem poll_acquire_contract_witness:
  "\<exists>q' ms. poll_acquire id [] 4096 9 3 (new_node 4 sem_waiter_default) = Inr (Pending, q') \<and> sem_ok q' ms
     \<and> ms = [4096] \<and> sem_waker_of q' 4096 = 9 \<and> remaining q' 4096 = 2"
proof -
  let ?q = "new_node 4 sem_waiter_default"
  have enc: "tail_to_enum usize_state 4 = State 2"
    by (simp add: usize_state_def TAIL_FLAG_def STATE_SHIFT_def drop_bit_eq_div)
  have ok: "sem_ok ?q []" using new_node_wf [OF enc] by (simp add: sem_ok_def)
  have q: "q_data ?q 4096 = Some sem_waiter_default" "\<not> q_locked ?q" "node_states ?q 4096 = Some Unqueued"
    "state_of usize_state ?q = Some 2"
    by (simp_all add: new_node_def node_with_data_def new_impl_def node_states_def node_link_new_def link_state_def state_of_def enc)
  have "unat (available_permits ?q) = 1" "\<not> sem_is_closed ?q" using available_unat [OF q(4)] sem_closed_iff [OF q(4)] by simp_all
  moreover have "seen 4096 id ?q = ?q" by (simp add: seen_def)
  ultimately show ?thesis
    using poll_acquire_contract [OF refl, of 4096 id ?q "[]" sem_waiter_default 3 Unqueued 9] ok q
    by (auto simp: sem_waiter_default_def)
qed

text \<open>
  C34. Cancelling loses the permits a waiter had taken over. When the only waiter of a semaphore is
  cancelled, the number of permits it holds is stored as the raw state of the queue, without the
  shift that makes room for the closed bit: afterwards only half of them are available, and an odd
  number closes the semaphore.
\<close>

theorem cancel_corrupts_state:
  assumes "sem_ok q [p]" and "\<not> q_locked q" and "remaining q p \<le> unat permits"
  shows "\<exists>q'. cancel n A id others p permits log q = Inr (log, q') \<and> sem_ok q' []
    \<and> unat (available_permits q') = (unat permits - remaining q p) div 2
    \<and> (sem_is_closed q' \<longleftrightarrow> odd (unat permits - remaining q p))"
proof -
  obtain w where w: "q_data q p = Some w" "unat (sw_permits_remaining w) = remaining q p"
    using sem_waiter_at [OF assms(1)] by auto
  let ?a = "permits - sw_permits_remaining w" and ?q = "q\<lparr>q_locked := True\<rparr>"
  have le: "sw_permits_remaining w \<le> permits" using assms(3) w(2) by (simp add: word_le_nat_alt)
  then have a: "unat (ucast ?a :: usize) = unat permits - remaining q p" using w(2) by (simp add: u32_permits unat_sub)
  obtain v where v: "enum_to_tail usize_state (State (ucast ?a)) = Inr v" "tail_to_enum usize_state v = State (ucast ?a)"
    by (rule encode_state_word [of "ucast ?a"]) (use a u32_less [of permits] in simp)
  have wf: "queue_wf usize_state ?q [p]" using assms(1) by (simp add: sem_ok_def)
  obtain q1 where q1: "remove usize_state p v False ?q = Inr (True, q1)" "queue_wf usize_state q1 []"
    "state_of usize_state q1 = Some (ucast ?a)"
    using usize_qs.wf_remove [OF wf _ v(2), of p False] by auto
  have "node_states q p = Some Queued" using queue_wf_queued_iff [OF sem_ok_wf [OF assms(1)], of p] by simp
  then have view: "node_state p id q = Inr (NodeQueued, ?q)"
    using raw_state_eq [of q p Queued] raw_state_eq [of ?q p Queued] assms(2)
    by (simp add: node_state_def state_from_raw_def lock_def)
  have "cancel n A id others p permits log q = Inr (log, unlock q1)"
    using view w(1) le v(1) q1(1)
    by (simp add: cancel_def with_data_def sub_checked_def node_queued_dequeue_try_set_queue_state_def)
  moreover have "state_of usize_state (unlock q1) = Some (ucast ?a)" using q1(3) by (simp add: unlock_def state_of_def)
  ultimately show ?thesis
    using available_unat [of "unlock q1"] sem_closed_iff [of "unlock q1"] a q1(2)
    by (auto simp: sem_ok_def unlock_def)
qed

text \<open>A single waiter that holds one of the two permits it asked for.\<close>

definition one_acquirer :: "sem_waiter queue" where
  "one_acquirer = one_node \<lparr>sw_waker = Some 7, sw_permits_remaining = 1\<rparr>"

lemma one_acquirer_ok: "sem_ok one_acquirer [4096]"
  using one_node_wf by (simp add: sem_ok_def one_acquirer_def) (simp add: one_node_def)

theorem cancel_corrupts_state_witness:
  "\<exists>q'. cancel 1 waker_list_ops id id 4096 2 [] one_acquirer = Inr ([], q') \<and> sem_is_closed q'
     \<and> unat (available_permits q') = 0"
proof -
  have "\<not> q_locked one_acquirer" "remaining one_acquirer 4096 = 1" by (simp_all add: one_acquirer_def one_node_def remaining_def)
  then show ?thesis
    using cancel_corrupts_state [OF one_acquirer_ok, of 2 1 waker_list_ops id "[]"] by auto
qed

lemma forget_permits_cases:
  assumes "unat permits < 2 ^ 62"
  shows "state_of usize_state q = None \<Longrightarrow> forget_permits [] permits q = Inr (0, q)"
    and "state_of usize_state q = Some st \<Longrightarrow> unat permits \<le> unat (available_permits q) \<Longrightarrow>
      \<exists>w st'. forget_permits [] permits q = Inr (permits, q\<lparr>q_tail := w\<rparr>) \<and> tail_to_enum usize_state w = State st'
        \<and> unat st' = unat st - 2 * unat permits"
    and "state_of usize_state q = Some st \<Longrightarrow> unat (available_permits q) < unat permits \<Longrightarrow>
      forget_permits [] permits q = Inl (Panic ''queue state overflow'')"
proof -
  show "state_of usize_state q = None \<Longrightarrow> forget_permits [] permits q = Inr (0, q)"
    by (simp add: forget_permits_def fetch_update_nonempty Let_def del: fetch_update_state.simps)
next
  assume Some: "state_of usize_state q = Some st" and "unat permits \<le> unat (available_permits q)"
  note b = sem_state_bound [OF Some]
  let ?st = "st - push_bit PERMIT_SHIFT permits"
  have le: "unat permits \<le> unat st div 2" using \<open>unat permits \<le> _\<close> available_unat [OF Some] by simp
  have sh: "unat (push_bit PERMIT_SHIFT permits) = 2 * unat permits" using assms by (simp add: shift_permits)
  have st: "unat ?st = unat st - 2 * unat permits" using le sh by (simp add: unat_sub word_le_nat_alt)
  obtain w where w: "enum_to_tail usize_state (State ?st) = Inr w" "tail_to_enum usize_state w = State ?st"
    by (rule encode_state_word [of ?st]) (use st b in simp)
  have "min permits (drop_bit PERMIT_SHIFT st) = permits" using le by (simp add: min_def word_le_nat_alt permits_of)
  then have "forget_permits [] permits q = Inr (permits, if permits = 0 then q else q\<lparr>q_tail := w\<rparr>)"
    using w(1) by (simp add: forget_permits_def fetch_update_empty [OF Some] Let_def del: fetch_update_state.simps)
  moreover have "tail_to_enum usize_state (q_tail q) = State st"
    using Some by (auto simp: state_of_def sop_state_def split: state_or_ptr.splits)
  moreover have "q\<lparr>q_tail := q_tail q\<rparr> = q" by simp
  ultimately show "\<exists>w st'. forget_permits [] permits q = Inr (permits, q\<lparr>q_tail := w\<rparr>) \<and> tail_to_enum usize_state w = State st'
        \<and> unat st' = unat st - 2 * unat permits"
    using w(2) st
    by (cases "permits = 0") (rule exI [of _ "q_tail q"], rule exI [of _ st], simp, rule exI [of _ w], rule exI [of _ ?st], simp)
next
  assume Some: "state_of usize_state q = Some st" and "unat (available_permits q) < unat permits"
  then have lt: "unat st < 2 * unat permits" "permits \<noteq> 0" using available_unat [OF Some] by auto
  let ?st = "st - push_bit PERMIT_SHIFT permits"
  have "unat ?st = unat st + 2 ^ 64 - 2 * unat permits"
    using assms lt by (simp add: shift_permits unat_sub_if_size word_size)
  then have "INTRUSIVE_QUEUE_MAX_STATE < ?st" using assms by (simp add: word_less_nat_alt max_state_unat)
  then have "enum_to_tail usize_state (State ?st) = Inl (Panic ''queue state overflow'')"
    by (simp add: usize_state_def state_to_ptr_def)
  then show "forget_permits [] permits q = Inl (Panic ''queue state overflow'')"
    using lt(2) by (simp add: forget_permits_def fetch_update_empty [OF Some] del: fetch_update_state.simps)
qed

text \<open>
  C35. \<^verbatim>\<open>forget_permits\<close> removes permits from the state word and reports how many, as long
  as that many are available; with waiters there is nothing to forget. Asked for more than are
  available it does not forget the ones there are, as its result suggests, but the wrapped difference
  fails the range check of the queue's state: it panics.
\<close>

theorem forget_permits_exact:
  assumes "0 < unat permits" and "unat permits < 2 ^ 62"
  shows "(state_of usize_state q = None \<longrightarrow> forget_permits [] permits q = Inr (0, q))
    \<and> (\<forall>st. state_of usize_state q = Some st \<longrightarrow>
        (if unat permits \<le> unat (available_permits q)
         then \<exists>q'. forget_permits [] permits q = Inr (permits, q')
           \<and> unat (available_permits q') = unat (available_permits q) - unat permits
           \<and> sem_is_closed q' = sem_is_closed q
         else forget_permits [] permits q = Inl (Panic ''queue state overflow'')))"
proof (cases "state_of usize_state q")
  case None
  then show ?thesis using forget_permits_cases(1) [OF assms(2)] by simp
next
  case (Some st)
  show ?thesis
  proof (cases "unat permits \<le> unat (available_permits q)")
    case True
    obtain w st' where w: "forget_permits [] permits q = Inr (permits, q\<lparr>q_tail := w\<rparr>)" "tail_to_enum usize_state w = State st'"
      "unat st' = unat st - 2 * unat permits"
      using forget_permits_cases(2) [OF assms(2) Some True] by blast
    have Some': "state_of usize_state (q\<lparr>q_tail := w\<rparr>) = Some st'" using w(2) by (simp add: state_of_def)
    have "odd (unat st') \<longleftrightarrow> odd (unat st)" using w(3) True available_unat [OF Some] by auto
    then show ?thesis using True Some w(1,3) available_unat [OF Some] available_unat [OF Some'] sem_closed_iff [OF Some] sem_closed_iff [OF Some']
      by auto
  qed (use Some forget_permits_cases(3) [OF assms(2) Some] in auto)
qed

theorem forget_permits_exact_witness:
  "forget_permits [] 2 (new_impl 4 :: sem_waiter queue) = Inl (Panic ''queue state overflow'')
   \<and> unat (available_permits (new_impl 4)) = 1"
proof -
  have st: "state_of usize_state (new_impl 4 :: sem_waiter queue) = Some 2"
    by (simp add: new_impl_def state_of_def usize_state_def TAIL_FLAG_def STATE_SHIFT_def drop_bit_eq_div)
  show ?thesis
    using forget_permits_exact [of 2 "new_impl 4 :: sem_waiter queue"] available_unat [OF st] st by auto
qed

end
