(* ===== verification/Semaphore_Client.thy ===== *)
theory Semaphore_Client
  imports Semaphore
begin

text \<open>
  A semaphore and its clients: any sequence of calls of the semaphore's interface, compared with an
  abstract semaphore that knows nothing of queues, nodes or state words. The abstract one serves its
  waiters strictly in order of arrival; a waiter takes what is available and then everything that is
  added, until its need is covered. Where the code loses permits or panics the abstract semaphore says so.
\<close>

section \<open>Clients\<close>

text \<open>
  The state of the system: the semaphore, the pending futures of \<^verbatim>\<open>acquire_many\<close> by the
  address of their node, with the number of permits they asked for, and the permits that clients hold.
  \<open>ss_budget\<close> is how many permits may still be added before there would be more than the
  maximum.
\<close>

record sem_system =
  ss_queue :: "sem_waiter queue"
  ss_futures :: "(addr \<times> u32) list"
  ss_held :: "sem_permit list"
  ss_budget :: nat

text \<open>
  \<open>SemStart p k cx\<close> creates a future for \<open>k\<close> permits, whose node will be at \<open>p\<close>,
  and polls it for the first time on behalf of the task \<open>cx\<close>; \<open>SemCancel\<close> drops a
  pending one; \<open>SemClose d\<close> closes, with the sentinel of the drain at \<open>d\<close>. The indices
  of the others are positions in the list of held permits.
\<close>

datatype sem_op =
    SemTry u32 | SemStart addr u32 waker | SemPoll addr waker | SemCancel addr
  | SemAdd usize | SemForgetPermits usize | SemDrop nat | SemForget nat | SemSplit nat usize | SemMerge nat nat | SemClose addr

datatype sem_result = SemNothing | SemAcquired nat | SemPending | SemClosed | SemNoPermits | SemForgot nat

text \<open>A request as the clients here make it: at least one permit and less than \<open>2 ^ 31\<close>.\<close>

definition sem_request :: "u32 \<Rightarrow> bool" where
  "sem_request k \<longleftrightarrow> 0 < unat k \<and> unat k < 2 ^ 31"

definition sem_addr :: addr where
  "sem_addr = 64"

definition drop_nth :: "nat \<Rightarrow> 'a list \<Rightarrow> 'a list" where
  "drop_nth i xs = take i xs @ drop (Suc i) xs"

text \<open>
  The result of a poll of the future for \<open>k\<close> permits at \<open>p\<close>, which was removed from the
  list of futures: it goes back if it is pending.
\<close>

definition sem_polled ::
  "addr \<Rightarrow> u32 \<Rightarrow> sem_system \<Rightarrow> (acquire_error + sem_permit) poll \<times> acquire_future \<times> wakeups \<times> sem_waiter queue
   \<Rightarrow> (sem_result \<times> wakeups) \<times> sem_system" where
  "sem_polled p k s r = (case r of (res, fut, log, q) \<Rightarrow> (case res of
       Pending \<Rightarrow> ((SemPending, log), s\<lparr>ss_queue := q\<rparr>)
     | Ready (Inl _) \<Rightarrow> ((SemClosed, log), s\<lparr>ss_queue := q, ss_futures := without p (ss_futures s)\<rparr>)
     | Ready (Inr permit) \<Rightarrow> ((SemAcquired (unat (sp_permits permit)), log),
         s\<lparr>ss_queue := q, ss_futures := without p (ss_futures s), ss_held := ss_held s @ [permit]\<rparr>)))"

text \<open>
  One call. Calls that the types of the interface rule out do nothing here (polling a future that is
  not there, a node address in use), and so do those outside the limits of the interface: requests of
  no permits or of \<open>2 ^ 31\<close> and more, adding permits beyond the maximum, forgetting
  \<open>2 ^ 62\<close> and more, merging to more than 32 bits. \<^verbatim>\<open>acquire_many_owned\<close> is not
  among the calls: it takes one permit and hands out as many as it is asked for.
\<close>

fun sem_op_step :: "'v wakers_ops \<Rightarrow> sem_op \<Rightarrow> sem_system \<Rightarrow> ((sem_result \<times> wakeups) \<times> sem_system) res" where
  "sem_op_step A (SemTry k) s =
     (if \<not> sem_request k then Inr ((SemNothing, []), s)
      else bind_res (try_acquire_many [] sem_addr k (ss_queue s)) (\<lambda>(r, q). Inr (case r of
          Inl TryClosed \<Rightarrow> ((SemClosed, []), s\<lparr>ss_queue := q\<rparr>)
        | Inl TryNoPermits \<Rightarrow> ((SemNoPermits, []), s\<lparr>ss_queue := q\<rparr>)
        | Inr permit \<Rightarrow> ((SemAcquired (unat (sp_permits permit)), []),
            s\<lparr>ss_queue := q, ss_held := ss_held s @ [permit]\<rparr>))))"
| "sem_op_step A (SemStart p k cx) s =
     (if \<not> (sem_request k \<and> node_addr p \<and> q_links (ss_queue s) p = None) then Inr ((SemNothing, []), s)
      else bind_res (acquire_many_poll (length (ss_futures s)) A id id [] [] sem_addr p k cx AcquireStart [] (ss_queue s))
        (\<lambda>r. Inr (sem_polled p k (s\<lparr>ss_futures := ss_futures s @ [(p, k)]\<rparr>) r)))"
| "sem_op_step A (SemPoll p cx) s =
     (case map_of (ss_futures s) p of
        None \<Rightarrow> Inr ((SemNothing, []), s)
      | Some k \<Rightarrow> bind_res (acquire_many_poll (length (ss_futures s)) A id id [] [] sem_addr p k cx (AcquireAwait k) [] (ss_queue s))
          (\<lambda>r. Inr (sem_polled p k s r)))"
| "sem_op_step A (SemCancel p) s =
     (case map_of (ss_futures s) p of
        None \<Rightarrow> Inr ((SemNothing, []), s)
      | Some k \<Rightarrow> bind_res (acquire_many_drop (length (ss_futures s)) A id id p (AcquireAwait k) [] (ss_queue s)) (\<lambda>(log, q).
          Inr ((SemNothing, log), s\<lparr>ss_queue := q, ss_futures := without p (ss_futures s)\<rparr>)))"
| "sem_op_step A (SemAdd k) s =
     (if ss_budget s < unat k then Inr ((SemNothing, []), s)
      else bind_res (add_permits (length (ss_futures s)) A id id k [] (ss_queue s)) (\<lambda>(log, q).
        Inr ((SemNothing, log), s\<lparr>ss_queue := q, ss_budget := ss_budget s - unat k\<rparr>)))"
| "sem_op_step A (SemForgetPermits k) s =
     (if 2 ^ 62 \<le> unat k then Inr ((SemNothing, []), s)
      else bind_res (forget_permits [] k (ss_queue s)) (\<lambda>(n, q).
        Inr ((SemForgot (unat n), []), s\<lparr>ss_queue := q, ss_budget := ss_budget s + unat n\<rparr>)))"
| "sem_op_step A (SemDrop i) s =
     (if length (ss_held s) \<le> i then Inr ((SemNothing, []), s)
      else bind_res (permit_drop (length (ss_futures s)) A id id (ss_held s ! i) [] (ss_queue s)) (\<lambda>(log, q).
        Inr ((SemNothing, log), s\<lparr>ss_queue := q, ss_held := drop_nth i (ss_held s)\<rparr>)))"
| "sem_op_step A (SemForget i) s =
     (if length (ss_held s) \<le> i then Inr ((SemNothing, []), s)
      else bind_res (permit_drop (length (ss_futures s)) A id id (permit_forget (ss_held s ! i)) [] (ss_queue s)) (\<lambda>(log, q).
        Inr ((SemNothing, log), s\<lparr>ss_queue := q, ss_held := drop_nth i (ss_held s),
          ss_budget := ss_budget s + unat (sp_permits (ss_held s ! i))\<rparr>)))"
| "sem_op_step A (SemSplit i n) s =
     (if length (ss_held s) \<le> i then Inr ((SemNothing, []), s)
      else case permit_split n (ss_held s ! i) of
          (None, _) \<Rightarrow> Inr ((SemNothing, []), s)
        | (Some new, old) \<Rightarrow> Inr ((SemAcquired (unat (num_permits new)), []), s\<lparr>ss_held := (ss_held s)[i := old] @ [new]\<rparr>))"
| "sem_op_step A (SemMerge i j) s =
     (if length (ss_held s) \<le> i \<or> length (ss_held s) \<le> j \<or> i = j
         \<or> 2 ^ 32 \<le> unat (sp_permits (ss_held s ! i)) + unat (sp_permits (ss_held s ! j)) then Inr ((SemNothing, []), s)
      else bind_res (permit_merge (ss_held s ! i) (ss_held s ! j)) (\<lambda>(self, other).
        bind_res (permit_drop (length (ss_futures s)) A id id other [] (ss_queue s)) (\<lambda>(log, q).
          Inr ((SemNothing, log), s\<lparr>ss_queue := q, ss_held := drop_nth j ((ss_held s)[i := self])\<rparr>))))"
| "sem_op_step A (SemClose d) s =
     (if \<not> (node_addr d \<and> q_links (ss_queue s) d = None) then Inr ((SemNothing, []), s)
      else bind_res (sem_close (Suc (length (ss_futures s))) A d id id [] (ss_queue s)) (\<lambda>(log, q).
        Inr ((SemNothing, log), s\<lparr>ss_queue := q\<rparr>)))"

text \<open>
  The calls on which permits get lost: cancelling the last waiter of the queue after it has taken over
  permits (\<open>cancel_corrupts_state\<close>).
\<close>

fun cancel_loses :: "sem_op \<Rightarrow> sem_system \<Rightarrow> bool" where
  "cancel_loses (SemCancel p) s \<longleftrightarrow>
     (case map_of (ss_futures s) p of
        None \<Rightarrow> False
      | Some k \<Rightarrow> tail_node usize_state (ss_queue s) = Some p \<and> remaining (ss_queue s) p < unat k)"
| "cancel_loses _ s \<longleftrightarrow> False"

text \<open>
  The permits there are: available, in the hands of clients, taken over by pending futures, and those
  that may still be added.
\<close>

definition sem_total :: "sem_system \<Rightarrow> nat" where
  "sem_total s = unat (available_permits (ss_queue s)) + sum_list (map (\<lambda>h. unat (sp_permits h)) (ss_held s))
     + sum_list (map (\<lambda>(p, k). unat k - remaining (ss_queue s) p) (ss_futures s)) + ss_budget s"

text \<open>A new semaphore, without clients yet.\<close>

definition sem_start :: "usize \<Rightarrow> sem_waiter queue \<Rightarrow> sem_system" where
  "sem_start permits q = \<lparr>ss_queue = q, ss_futures = [], ss_held = [], ss_budget = unat (MAX_PERMITS - permits)\<rparr>"

section \<open>The abstract semaphore\<close>

text \<open>
  What is available, the waiters in order of arrival with the task to wake, the pending futures with
  the permits they asked for and still need, and the numbers of permits held.
\<close>

record abs_sem =
  as_closed :: bool
  as_avail :: nat
  as_waiting :: "(addr \<times> waker) list"
  as_futures :: "(addr \<times> nat \<times> nat) list"
  as_held :: "nat list"
  as_budget :: nat

definition need_in :: "(addr \<times> nat \<times> nat) list \<Rightarrow> addr \<Rightarrow> nat" where
  "need_in fs p = (case map_of fs p of None \<Rightarrow> 0 | Some (k, r) \<Rightarrow> r)"

text \<open>
  \<open>k\<close> permits become free: the waiters get them in order, as \<open>grant\<close> says, and what
  nobody needs is available. The result are the tasks to wake.
\<close>

definition set_needs :: "addr list \<Rightarrow> (addr \<times> nat) list \<Rightarrow> (addr \<times> nat \<times> nat) list \<Rightarrow> (addr \<times> nat \<times> nat) list" where
  "set_needs served needs fs = map (\<lambda>(p, k, r). (p, k,
     if p \<in> set served then 0 else case map_of needs p of Some r' \<Rightarrow> r' | None \<Rightarrow> r)) fs"

definition abs_give :: "nat \<Rightarrow> abs_sem \<Rightarrow> waker list \<times> abs_sem" where
  "abs_give k a =
     (if as_waiting a = [] then ([], a\<lparr>as_avail := as_avail a + k\<rparr>)
      else if k = 0 then ([], a)
      else let ws = as_waiting a; (m, rs, l) = grant k (map (need_in (as_futures a)) (map fst ws)) in
        (map snd (take m ws),
         a\<lparr>as_waiting := drop m ws, as_avail := if drop m ws = [] then l else 0,
           as_futures := set_needs (map fst (take m ws)) (zip (map fst (drop m ws)) rs) (as_futures a)\<rparr>))"

text \<open>A future goes away, and what it had taken over becomes free again.\<close>

definition abs_drop :: "addr \<Rightarrow> abs_sem \<Rightarrow> waker list \<times> abs_sem" where
  "abs_drop p a =
     (case map_of (as_futures a) p of
        None \<Rightarrow> ([], a)
      | Some (k, r) \<Rightarrow> abs_give (k - r) (a\<lparr>as_waiting := without p (as_waiting a), as_futures := without p (as_futures a)\<rparr>))"

text \<open>
  The last of the waiters goes away after it has taken over \<open>t\<close> permits. They do not become
  free as above: they are gone if others wait; if nobody does, their number is taken for a state word,
  of which the lowest bit is the flag for closed.
\<close>

definition abs_lose :: "addr \<Rightarrow> nat \<Rightarrow> abs_sem \<Rightarrow> abs_sem" where
  "abs_lose p t a =
     (let b = a\<lparr>as_waiting := without p (as_waiting a), as_futures := without p (as_futures a)\<rparr> in
      if as_waiting b = [] then b\<lparr>as_avail := t div 2, as_closed := odd t\<rparr> else b)"

fun sem_loses :: "sem_op \<Rightarrow> abs_sem \<Rightarrow> bool" where
  "sem_loses (SemCancel p) a \<longleftrightarrow>
     (case map_of (as_futures a) p of
        None \<Rightarrow> False
      | Some (k, r) \<Rightarrow> as_waiting a \<noteq> [] \<and> fst (last (as_waiting a)) = p \<and> r < k)"
| "sem_loses _ a \<longleftrightarrow> False"

definition abs_took :: "nat \<Rightarrow> abs_sem \<Rightarrow> abs_sem" where
  "abs_took k a = a\<lparr>as_held := as_held a @ [k]\<rparr>"

fun sem_op_spec :: "sem_op \<Rightarrow> abs_sem \<Rightarrow> (sem_result \<times> wakeups) \<times> abs_sem" where
  "sem_op_spec (SemTry k) a =
     (if \<not> sem_request k then ((SemNothing, []), a)
      else if as_closed a then ((SemClosed, []), a)
      else if as_avail a < unat k then ((SemNoPermits, []), a)
      else ((SemAcquired (unat k), []), abs_took (unat k) (a\<lparr>as_avail := as_avail a - unat k\<rparr>)))"
| "sem_op_spec (SemStart p k cx) a =
     (if \<not> (sem_request k \<and> node_addr p \<and> map_of (as_futures a) p = None) then ((SemNothing, []), a)
      else if as_closed a then ((SemClosed, []), a)
      else if as_avail a < unat k then ((SemPending, []), a\<lparr>as_avail := 0, as_waiting := as_waiting a @ [(p, cx)],
        as_futures := as_futures a @ [(p, unat k, unat k - as_avail a)]\<rparr>)
      else ((SemAcquired (unat k), []), abs_took (unat k) (a\<lparr>as_avail := as_avail a - unat k\<rparr>)))"
| "sem_op_spec (SemPoll p cx) a =
     (case map_of (as_futures a) p of
        None \<Rightarrow> ((SemNothing, []), a)
      | Some (k, r) \<Rightarrow>
          if p \<in> fst ` set (as_waiting a)
          then ((SemPending, []), a\<lparr>as_waiting := assign p cx (as_waiting a)\<rparr>)
          else if as_closed a then let (ws, a) = abs_drop p a in ((SemClosed, unlocked_wakes ws), a)
          else ((SemAcquired k, []), abs_took k (a\<lparr>as_futures := without p (as_futures a)\<rparr>)))"
| "sem_op_spec (SemCancel p) a =
     (case map_of (as_futures a) p of
        None \<Rightarrow> ((SemNothing, []), a)
      | Some (k, r) \<Rightarrow>
          if sem_loses (SemCancel p) a then ((SemNothing, []), abs_lose p (k - r) a)
          else let (ws, a) = abs_drop p a in ((SemNothing, unlocked_wakes ws), a))"
| "sem_op_spec (SemAdd k) a =
     (if as_budget a < unat k then ((SemNothing, []), a)
      else let (ws, a) = abs_give (unat k) (a\<lparr>as_budget := as_budget a - unat k\<rparr>) in ((SemNothing, unlocked_wakes ws), a))"
| "sem_op_spec (SemForgetPermits k) a =
     (if 2 ^ 62 \<le> unat k then ((SemNothing, []), a)
      else let n = (if as_waiting a = [] then min (unat k) (as_avail a) else 0) in
        ((SemForgot n, []), a\<lparr>as_avail := as_avail a - n, as_budget := as_budget a + n\<rparr>))"
| "sem_op_spec (SemDrop i) a =
     (if length (as_held a) \<le> i then ((SemNothing, []), a)
      else let (ws, a) = abs_give (as_held a ! i) (a\<lparr>as_held := drop_nth i (as_held a)\<rparr>) in ((SemNothing, unlocked_wakes ws), a))"
| "sem_op_spec (SemForget i) a =
     (if length (as_held a) \<le> i then ((SemNothing, []), a)
      else ((SemNothing, []), a\<lparr>as_held := drop_nth i (as_held a), as_budget := as_budget a + as_held a ! i\<rparr>))"
| "sem_op_spec (SemSplit i n) a =
     (if length (as_held a) \<le> i \<or> as_held a ! i < unat n then ((SemNothing, []), a)
      else ((SemAcquired (unat n), []), a\<lparr>as_held := (as_held a)[i := as_held a ! i - unat n] @ [unat n]\<rparr>))"
| "sem_op_spec (SemMerge i j) a =
     (if length (as_held a) \<le> i \<or> length (as_held a) \<le> j \<or> i = j \<or> 2 ^ 32 \<le> as_held a ! i + as_held a ! j
      then ((SemNothing, []), a)
      else ((SemNothing, []), a\<lparr>as_held := drop_nth j ((as_held a)[i := as_held a ! i + as_held a ! j])\<rparr>))"
| "sem_op_spec (SemClose d) a =
     (if \<not> (node_addr d \<and> map_of (as_futures a) d = None) then ((SemNothing, []), a)
      else ((SemNothing, unlocked_wakes (map snd (as_waiting a))), a\<lparr>as_closed := True, as_waiting := []\<rparr>))"

text \<open>
  The only call that faults: \<^verbatim>\<open>forget_permits\<close> with more permits than are available. It
  panics.
\<close>

fun sem_op_fault :: "sem_op \<Rightarrow> abs_sem \<Rightarrow> fault option" where
  "sem_op_fault (SemForgetPermits k) a =
     (if unat k < 2 ^ 62 \<and> as_waiting a = [] \<and> as_avail a < unat k then Some (Panic ''queue state overflow'') else None)"
| "sem_op_fault _ a = None"

text \<open>
  All permits there are: available, held by clients, taken over by pending futures, and not yet
  brought into being.
\<close>

definition taken :: "(addr \<times> nat \<times> nat) list \<Rightarrow> nat" where
  "taken fs = sum_list (map (\<lambda>(p, k, r). k - r) fs)"

definition abs_total :: "abs_sem \<Rightarrow> nat" where
  "abs_total a = as_avail a + sum_list (as_held a) + taken (as_futures a) + as_budget a"

text \<open>
  The invariant: the waiters are futures; while there are any, nothing is available and the semaphore
  is open; a future that does not wait has all it asked for, unless the semaphore is closed.
\<close>

definition waiting_inv :: "bool \<Rightarrow> nat \<Rightarrow> (addr \<times> waker) list \<Rightarrow> (addr \<times> nat \<times> nat) list \<Rightarrow> bool" where
  "waiting_inv closed avail ws fs \<longleftrightarrow> distinct (map fst ws) \<and> distinct (map fst fs) \<and> fst ` set ws \<subseteq> fst ` set fs
     \<and> (ws \<noteq> [] \<longrightarrow> avail = 0 \<and> \<not> closed)
     \<and> (\<forall>p k r. (p, k, r) \<in> set fs \<longrightarrow> r \<le> k \<and> 0 < k \<and> k < 2 ^ 31 \<and> (p \<notin> fst ` set ws \<and> \<not> closed \<longrightarrow> r = 0))"

definition abs_inv :: "abs_sem \<Rightarrow> bool" where
  "abs_inv a \<longleftrightarrow> waiting_inv (as_closed a) (as_avail a) (as_waiting a) (as_futures a)"

definition abs_ok :: "abs_sem \<Rightarrow> bool" where
  "abs_ok a \<longleftrightarrow> abs_inv a \<and> abs_total a < 2 ^ 61"

definition abs_start :: "usize \<Rightarrow> abs_sem" where
  "abs_start permits = \<lparr>as_closed = False, as_avail = unat permits, as_waiting = [], as_futures = [], as_held = [],
     as_budget = unat (MAX_PERMITS - permits)\<rparr>"

section \<open>The abstract semaphore keeps its permits\<close>


lemma grant_le: "grant k rs = (m, rs', l) \<Longrightarrow> m \<le> length rs \<and> list_all2 (\<le>) rs' (drop m rs)"
proof (induction k rs arbitrary: m rs' l rule: grant.induct)
  case (2 k r rs)
  then show ?case by (auto split: if_splits prod.splits simp: list_all2_refl)
qed simp

lemma need_in_Cons: "need_in ((p, k, r) # fs) = (need_in fs)(p := r)"
  by (auto simp: need_in_def fun_eq_iff)

lemma sum_needs: "distinct (map fst fs) \<Longrightarrow> sum_list (map (\<lambda>(p, k, r). r) fs) = sum (need_in fs) (fst ` set fs)"
proof (induction fs)
  case (Cons f fs)
  obtain p k r where f: "f = (p, k, r)" by (cases f)
  have "sum (need_in (f # fs)) (fst ` set fs) = sum (need_in fs) (fst ` set fs)"
    by (rule sum.cong) (use Cons.prems f in \<open>auto simp: need_in_Cons\<close>)
  with Cons f show ?case by (simp add: need_in_Cons)
qed simp

lemma set_needs_keys [simp]: "map fst (set_needs served needs fs) = map fst fs" "fst ` set (set_needs served needs fs) = fst ` set fs"
proof -
  show k: "map fst (set_needs served needs fs) = map fst fs" by (induction fs) (auto simp: set_needs_def)
  show "fst ` set (set_needs served needs fs) = fst ` set fs" using arg_cong [OF k, of set] by simp
qed

lemma map_of_set_needs:
  "map_of (set_needs served needs fs) p = map_option (\<lambda>(k, r). (k,
     if p \<in> set served then 0 else case map_of needs p of Some r' \<Rightarrow> r' | None \<Rightarrow> r)) (map_of fs p)"
  by (induction fs) (auto simp: set_needs_def)

lemma need_in_set_needs:
  "p \<in> fst ` set fs \<Longrightarrow> need_in (set_needs served needs fs) p =
    (if p \<in> set served then 0 else case map_of needs p of Some r \<Rightarrow> r | None \<Rightarrow> need_in fs p)"
proof -
  assume "p \<in> fst ` set fs"
  then obtain k r where "map_of fs p = Some (k, r)" using map_of_eq_None_iff [of fs p] by (cases "map_of fs p") auto
  then show ?thesis by (auto simp: need_in_def map_of_set_needs split: option.split)
qed

lemma sum_set_needs:
  assumes fs: "distinct (map fst fs)" and w: "distinct (served @ map fst needs)" "set (served @ map fst needs) \<subseteq> fst ` set fs"
  shows "sum_list (map (\<lambda>(p, k, r). r) (set_needs served needs fs)) + sum_list (map (need_in fs) (served @ map fst needs))
    = sum_list (map (\<lambda>(p, k, r). r) fs) + sum_list (map snd needs)"
proof -
  let ?F = "fst ` set fs" and ?W = "set (served @ map fst needs)" and ?n = "need_in (set_needs served needs fs)"
  have split: "sum f ?F = sum f (?F - ?W) + sum f ?W" for f :: "addr \<Rightarrow> nat"
    using w(2) by (intro sum.subset_diff) auto
  have "sum ?n (?F - ?W) = sum (need_in fs) (?F - ?W)"
    by (rule sum.cong) (auto simp: need_in_set_needs map_of_eq_None_iff [THEN iffD2])
  moreover have "sum ?n ?W = sum_list (map snd needs)"
  proof -
    have "sum ?n ?W = sum ?n (set served) + sum ?n (set (map fst needs))"
      using w(1) by (simp add: sum.union_disjoint)
    also have "sum ?n (set served) = 0" using w(2) by (intro sum.neutral ballI) (subst need_in_set_needs, auto)
    also have "sum ?n (set (map fst needs)) = sum_list (map ?n (map fst needs))"
      by (rule sum_list_distinct_conv_sum_set [symmetric]) (use w(1) in simp)
    also have "map ?n (map fst needs) = map snd needs"
    proof -
      have "?n x = r" if "(x, r) \<in> set needs" for x r
      proof -
        have "x \<in> fst ` set fs" "x \<notin> set served" "map_of needs x = Some r" using that w by force+
        then show ?thesis by (simp add: need_in_set_needs)
      qed
      then show ?thesis by auto
    qed
    finally show ?thesis by simp
  qed
  moreover have "sum (need_in fs) ?W = sum_list (map (need_in fs) (served @ map fst needs))"
    using w(1) by (simp add: sum_list_distinct_conv_sum_set del: map_append sum_list_append set_append)
  ultimately show ?thesis
    using split [of ?n] split [of "need_in fs"] sum_needs [OF fs] sum_needs [of "set_needs served needs fs"] fs by simp
qed


lemma taken_needs:
  "\<forall>p k r. (p, k, r) \<in> set fs \<longrightarrow> r \<le> k \<Longrightarrow> taken fs + sum_list (map (\<lambda>(p, k, r). r) fs) = sum_list (map (\<lambda>(p, k, r). k) fs)"
proof (induction fs)
  case (Cons f fs)
  obtain p k r where f: "f = (p, k, r)" by (cases f)
  then have "r \<le> k" using Cons.prems by auto
  with Cons f show ?case by (auto simp: taken_def)
qed (simp add: taken_def)

lemma need_in_mem: "distinct (map fst fs) \<Longrightarrow> (p, k, r) \<in> set fs \<Longrightarrow> need_in fs p = r"
  by (simp add: need_in_def)

lemma set_needs_asked [simp]: "sum_list (map (\<lambda>(p, k, r). k) (set_needs served needs fs)) = sum_list (map (\<lambda>(p, k, r). k) fs)"
  by (induction fs) (auto simp: set_needs_def)

lemma in_set_needs:
  "(p, k, r) \<in> set (set_needs served needs fs) \<longleftrightarrow> (\<exists>r'. (p, k, r') \<in> set fs \<and>
     r = (if p \<in> set served then 0 else case map_of needs p of Some n \<Rightarrow> n | None \<Rightarrow> r'))"
  by (force simp: set_needs_def)

lemma abs_give_eq:
  assumes "as_waiting a \<noteq> []" and "0 < j" and "grant j (map (need_in (as_futures a)) (map fst (as_waiting a))) = (m, rs, l)"
  shows "abs_give j a = (map snd (take m (as_waiting a)), a\<lparr>as_waiting := drop m (as_waiting a),
    as_avail := if drop m (as_waiting a) = [] then l else 0,
    as_futures := set_needs (map fst (take m (as_waiting a))) (zip (map fst (drop m (as_waiting a))) rs) (as_futures a)\<rparr>)"
  using assms by (simp add: abs_give_def Let_def)

lemma abs_give_needs:
  assumes fs: "distinct (map fst fs)" "\<forall>p k r. (p, k, r) \<in> set fs \<longrightarrow> r \<le> k"
    and ws: "distinct ps" "set ps \<subseteq> fst ` set fs"
    and g: "grant j (map (need_in fs) ps) = (m, rs, l)"
  defines "fs' \<equiv> set_needs (take m ps) (zip (drop m ps) rs) fs"
  shows "taken fs' + l = taken fs + j" and "\<forall>p k r. (p, k, r) \<in> set fs' \<longrightarrow> r \<le> k"
proof -
  let ?needs = "zip (drop m ps) rs"
  have len: "length rs = length (drop m ps)" "m \<le> length ps" using grant_conserves [OF g] grant_le [OF g] by auto
  have le: "list_all2 (\<le>) rs (map (need_in fs) (drop m ps))" using grant_le [OF g] by (simp add: drop_map)
  have keys: "take m ps @ map fst ?needs = ps" using len by simp
  have sums: "sum_list (map (\<lambda>(p, k, r). r) fs') + sum_list (map (need_in fs) ps) = sum_list (map (\<lambda>(p, k, r). r) fs) + sum_list rs"
    unfolding fs'_def using sum_set_needs [OF fs(1), of "take m ps" ?needs, unfolded keys] ws len by simp
  have need: "r' \<le> need_in fs p" if "map_of ?needs p = Some r'" for p r'
    using map_of_SomeD [OF that] le len by (auto simp: in_set_zip list_all2_conv_all_nth)
  show r': "\<forall>p k r. (p, k, r) \<in> set fs' \<longrightarrow> r \<le> k"
    unfolding fs'_def using fs need need_in_mem [OF fs(1)] by (fastforce simp: in_set_needs split: if_splits option.splits)
  have "sum_list (map (\<lambda>(p, k, r). k) fs') = sum_list (map (\<lambda>(p, k, r). k) fs)" by (simp add: fs'_def)
  then show "taken fs' + l = taken fs + j"
    using taken_needs [OF fs(2)] taken_needs [OF r'] sums grant_conserves [OF g] by linarith
qed

lemma abs_give_inv:
  assumes inv: "abs_inv a"
  shows "abs_inv (snd (abs_give j a))" and "abs_total (snd (abs_give j a)) = abs_total a + j"
proof -
  let ?ws = "as_waiting a" and ?fs = "as_futures a"
  obtain m rs l where g: "grant j (map (need_in ?fs) (map fst ?ws)) = (m, rs, l)" by (cases "grant j (map (need_in ?fs) (map fst ?ws))")
  let ?fs' = "set_needs (take m (map fst ?ws)) (zip (drop m (map fst ?ws)) rs) ?fs"
  have d: "distinct (map fst ?fs)" "\<forall>p k r. (p, k, r) \<in> set ?fs \<longrightarrow> r \<le> k" "distinct (map fst ?ws)" "set (map fst ?ws) \<subseteq> fst ` set ?fs"
    using inv by (auto simp: abs_inv_def waiting_inv_def)
  note n = abs_give_needs [OF d g]
  have "abs_inv (snd (abs_give j a)) \<and> abs_total (snd (abs_give j a)) = abs_total a + j"
  proof (cases "?ws = [] \<or> j = 0")
    case False
    then have e: "snd (abs_give j a) = a\<lparr>as_waiting := drop m ?ws, as_avail := if drop m ?ws = [] then l else 0, as_futures := ?fs'\<rparr>"
      using g by (simp add: abs_give_eq take_map drop_map)
    have k: "(p, k, r) \<in> set ?fs' \<Longrightarrow> 0 < k \<and> k < 2 ^ 31" for p k r using inv by (auto simp: abs_inv_def waiting_inv_def in_set_needs)
    have z: "r = 0" if "(p, k, r) \<in> set ?fs'" "p \<notin> fst ` set (drop m ?ws)" "\<not> as_closed a" for p k r
    proof (cases "p \<in> set (take m (map fst ?ws))")
      case False
      have "p \<notin> set (drop m (map fst ?ws))" using that(2) by (simp add: drop_map)
      with False have "p \<notin> set (map fst ?ws)" by (metis Un_iff append_take_drop_id set_append)
      moreover have "map_of (zip (drop m (map fst ?ws)) rs) p = None"
        using \<open>p \<notin> set (drop m (map fst ?ws))\<close> by (auto simp: map_of_eq_None_iff dest: set_zip_leftD)
      ultimately show ?thesis using that False inv by (auto simp: in_set_needs abs_inv_def waiting_inv_def)
    qed (use that in \<open>auto simp: in_set_needs\<close>)
    have w: "distinct (map fst (drop m ?ws))" "fst ` set (drop m ?ws) \<subseteq> fst ` set ?fs"
      using distinct_drop [OF d(3), of m] set_drop_subset [of m ?ws] d(4) by (auto simp: drop_map)
    have av: "as_avail a = 0" "\<not> as_closed a" using inv False by (auto simp: abs_inv_def waiting_inv_def)
    have "\<forall>p k r. (p, k, r) \<in> set ?fs' \<longrightarrow> r \<le> k \<and> 0 < k \<and> k < 2 ^ 31
        \<and> (p \<notin> fst ` set (drop m ?ws) \<and> \<not> as_closed a \<longrightarrow> r = 0)"
      using n(2) k z by blast
    moreover have "drop m ?ws \<noteq> [] \<longrightarrow> (if drop m ?ws = [] then l else 0) = 0 \<and> \<not> as_closed a" using av(2) by simp
    ultimately have "waiting_inv (as_closed a) (if drop m ?ws = [] then l else 0) (drop m ?ws) ?fs'"
      using w d(1) unfolding waiting_inv_def set_needs_keys by (intro conjI)
    then have "abs_inv (snd (abs_give j a))" unfolding e abs_inv_def by simp
    moreover have "(if drop m ?ws = [] then l else 0) = l" using grant_conserves [OF g] by auto
    then have "abs_total (snd (abs_give j a)) = abs_total a + j" unfolding e abs_total_def using n(1) av(1) by simp
    ultimately show ?thesis ..
  qed (use inv in \<open>auto simp: abs_give_def abs_total_def abs_inv_def waiting_inv_def\<close>)
  then show "abs_inv (snd (abs_give j a))" "abs_total (snd (abs_give j a)) = abs_total a + j" by simp_all
qed


lemma sum_drop_nth: "i < length xs \<Longrightarrow> sum_list (drop_nth i xs) + xs ! i = sum_list (xs :: nat list)"
  using arg_cong [OF id_take_nth_drop [of i xs], of sum_list] by (simp add: drop_nth_def)

lemma sum_list_upd: "i < length xs \<Longrightarrow> sum_list (xs[i := y]) + xs ! i = sum_list xs + (y :: nat)"
  by (induction xs arbitrary: i) (auto split: nat.split)

lemma taken_without:
  "distinct (map fst fs) \<Longrightarrow> map_of fs p = Some (k, r) \<Longrightarrow> taken (without p fs) + (k - r) = taken fs"
proof (induction fs)
  case (Cons f fs)
  show ?case
  proof (cases "fst f = p")
    case True
    then have "without p fs = fs" using Cons.prems by (intro without_id) auto
    with True Cons.prems show ?thesis by (auto simp: without_def taken_def)
  next
    case False
    with Cons have "taken (without p fs) + (k - r) = taken fs" by (cases f) auto
    with False show ?thesis by (cases f) (auto simp: without_def taken_def)
  qed
qed simp

lemma without_inv: "waiting_inv closed avail ws fs \<Longrightarrow> waiting_inv closed avail (without p ws) (without p fs)"
  by (auto simp: waiting_inv_def set_without)

lemma abs_drop_inv:
  assumes "abs_inv a"
  shows "abs_inv (snd (abs_drop p a))" and "abs_total (snd (abs_drop p a)) = abs_total a"
proof -
  have "abs_inv (snd (abs_drop p a)) \<and> abs_total (snd (abs_drop p a)) = abs_total a"
  proof (cases "map_of (as_futures a) p")
    case (Some kr)
    obtain k r where kr: "kr = (k, r)" by (cases kr)
    let ?b = "a\<lparr>as_waiting := without p (as_waiting a), as_futures := without p (as_futures a)\<rparr>"
    have i: "abs_inv ?b" using assms without_inv by (simp add: abs_inv_def)
    have "r \<le> k" "distinct (map fst (as_futures a))"
      using assms map_of_SomeD [OF Some] kr by (auto simp: abs_inv_def waiting_inv_def)
    then have "abs_total ?b + (k - r) = abs_total a"
      using taken_without [of "as_futures a" p k r] Some kr by (simp add: abs_total_def)
    with abs_give_inv [OF i, of "k - r"] Some kr show ?thesis by (simp add: abs_drop_def)
  qed (use assms in \<open>simp add: abs_drop_def\<close>)
  then show "abs_inv (snd (abs_drop p a))" "abs_total (snd (abs_drop p a)) = abs_total a" by simp_all
qed

lemma abs_lose_inv:
  assumes inv: "abs_inv a" and p: "map_of (as_futures a) p = Some (k, r)" and l: "sem_loses (SemCancel p) a"
  shows "abs_inv (abs_lose p (k - r) a)" and "abs_total (abs_lose p (k - r) a) \<le> abs_total a"
proof -
  have o: "\<not> as_closed a" "as_avail a = 0" using inv l p by (auto simp: abs_inv_def waiting_inv_def)
  have w: "waiting_inv False 0 (without p (as_waiting a)) (without p (as_futures a))"
    using inv o without_inv [of "as_closed a" "as_avail a"] by (simp add: abs_inv_def)
  moreover have "waiting_inv False 0 [] fs \<Longrightarrow> waiting_inv c v [] fs" for c v fs by (auto simp: waiting_inv_def)
  ultimately show "abs_inv (abs_lose p (k - r) a)"
    using o by (cases "without p (as_waiting a)") (simp_all add: abs_lose_def Let_def abs_inv_def)
  have "distinct (map fst (as_futures a))" using inv by (simp add: abs_inv_def waiting_inv_def)
  from taken_without [OF this p] show "abs_total (abs_lose p (k - r) a) \<le> abs_total a"
    using o(2) by (auto simp: abs_lose_def Let_def abs_total_def)
qed

lemma abs_inv_updates [simp]:
  "abs_inv (a\<lparr>as_held := h\<rparr>) = abs_inv a" "abs_inv (a\<lparr>as_budget := b\<rparr>) = abs_inv a"
  "abs_inv (abs_took k a) = abs_inv a"
  by (simp_all add: abs_inv_def abs_took_def)

lemma start_inv:
  assumes "waiting_inv closed avail ws fs" and "map_of fs p = None" and "0 < k" "k < 2 ^ 31" and "avail < k" and "\<not> closed"
  shows "waiting_inv closed 0 (ws @ [(p, cx)]) (fs @ [(p, k, k - avail)])"
  using assms by (auto simp: waiting_inv_def map_of_eq_None_iff)

lemma sem_op_spec_inv:
  assumes inv: "abs_inv a"
  shows "abs_inv (snd (sem_op_spec op a)) \<and> abs_total (snd (sem_op_spec op a)) \<le> abs_total a
    \<and> (\<not> sem_loses op a \<longrightarrow> abs_total (snd (sem_op_spec op a)) = abs_total a)"
proof (cases op)
  case (SemTry k)
  have "abs_inv (a\<lparr>as_avail := as_avail a - unat k\<rparr>)" using inv by (auto simp: abs_inv_def waiting_inv_def)
  with inv SemTry show ?thesis by (simp add: abs_total_def abs_took_def)
next
  case (SemStart p k cx)
  have "abs_inv (a\<lparr>as_avail := as_avail a - unat k\<rparr>)" using inv by (auto simp: abs_inv_def waiting_inv_def)
  moreover have "abs_inv (a\<lparr>as_avail := 0, as_waiting := as_waiting a @ [(p, cx)],
        as_futures := as_futures a @ [(p, unat k, unat k - as_avail a)]\<rparr>)"
    if "sem_request k" "\<forall>aa b. map_of (as_futures a) p \<noteq> Some (aa, b)" "as_avail a < unat k" "\<not> as_closed a"
    using start_inv [of "as_closed a" "as_avail a" "as_waiting a" "as_futures a" p "unat k" cx] inv that
    by (cases "map_of (as_futures a) p") (auto simp: abs_inv_def sem_request_def)
  ultimately show ?thesis using inv SemStart by (auto simp: abs_total_def abs_took_def taken_def)
next
  case (SemPoll p cx)
  show ?thesis
  proof (cases "map_of (as_futures a) p")
    case (Some kr)
    obtain k r where kr: "kr = (k, r)" by (cases kr)
    have i: "waiting_inv (as_closed a) (as_avail a) (as_waiting a) (as_futures a)" using inv by (simp add: abs_inv_def)
    have "abs_inv (a\<lparr>as_waiting := assign p cx (as_waiting a)\<rparr>)" using i by (simp add: abs_inv_def waiting_inv_def)
    moreover have "abs_inv (a\<lparr>as_futures := without p (as_futures a)\<rparr>)
        \<and> abs_total (abs_took k (a\<lparr>as_futures := without p (as_futures a)\<rparr>)) = abs_total a"
      if "p \<notin> fst ` set (as_waiting a)" "\<not> as_closed a"
    proof -
      have "without p (as_waiting a) = as_waiting a" using that(1) by (rule without_id)
      then have "abs_inv (a\<lparr>as_futures := without p (as_futures a)\<rparr>)" using without_inv [OF i, of p] by (simp add: abs_inv_def)
      moreover have "r = 0" using i that map_of_SomeD [OF Some] kr by (auto simp: waiting_inv_def)
      ultimately show ?thesis using taken_without [of "as_futures a" p k r] Some kr i
        by (simp add: abs_total_def abs_took_def waiting_inv_def)
    qed
    ultimately show ?thesis using abs_drop_inv [OF inv, of p] inv SemPoll Some kr
      by (auto simp: abs_total_def split: prod.splits)
  qed (use inv SemPoll in simp)
next
  case (SemCancel p)
  then show ?thesis using abs_drop_inv [OF inv, of p] abs_lose_inv [OF inv, of p] inv
    by (cases "sem_loses op a") (auto simp del: sem_loses.simps(1) split: option.split prod.splits)
next
  case (SemForgetPermits k)
  have "abs_inv (a\<lparr>as_avail := as_avail a - n\<rparr>)" for n using inv by (auto simp: abs_inv_def waiting_inv_def)
  with SemForgetPermits inv show ?thesis by (auto simp: abs_total_def Let_def abs_inv_def)
next
  case (SemAdd k)
  then show ?thesis using abs_give_inv [of "a\<lparr>as_budget := as_budget a - unat k\<rparr>" "unat k"] inv
    by (auto simp: abs_total_def split: prod.splits)
next
  case (SemDrop i)
  then show ?thesis
    using abs_give_inv [of "a\<lparr>as_held := drop_nth i (as_held a)\<rparr>" "as_held a ! i"] sum_drop_nth [of i "as_held a"] inv
    by (auto simp: abs_total_def split: prod.splits)
next
  case (SemForget i)
  then show ?thesis using sum_drop_nth [of i "as_held a"] inv by (simp add: abs_total_def)
next
  case (SemSplit i n)
  then show ?thesis using sum_list_upd [of i "as_held a" "as_held a ! i - unat n"] inv
    by (auto simp: abs_total_def not_le not_less)
next
  case (SemMerge i j)
  let ?h = "(as_held a)[i := as_held a ! i + as_held a ! j]"
  have "sum_list (drop_nth j ?h) = sum_list (as_held a)" if "i < length (as_held a)" "j < length (as_held a)" "i \<noteq> j"
    using sum_list_upd [of i "as_held a" "as_held a ! i + as_held a ! j"] sum_drop_nth [of j ?h] that by simp
  with SemMerge inv show ?thesis by (simp add: abs_total_def)
next
  case (SemClose d)
  have "abs_inv (a\<lparr>as_closed := True, as_waiting := []\<rparr>)" using inv by (simp add: abs_inv_def waiting_inv_def)
  with SemClose inv show ?thesis by (simp add: abs_total_def)
qed

section \<open>Wake-ups\<close>

text \<open>The calls that poll the future at \<open>p\<close> for the task \<open>cx\<close>, and those that concern it.\<close>

fun sem_polls :: "addr \<Rightarrow> waker \<Rightarrow> sem_op \<Rightarrow> bool" where
  "sem_polls p cx (SemStart x k w) \<longleftrightarrow> x = p \<and> w = cx"
| "sem_polls p cx (SemPoll x w) \<longleftrightarrow> x = p \<and> w = cx"
| "sem_polls p cx _ \<longleftrightarrow> False"

definition sem_concerns :: "addr \<Rightarrow> sem_op \<Rightarrow> bool" where
  "sem_concerns p op \<longleftrightarrow> (\<exists>cx. sem_polls p cx op) \<or> op = SemCancel p"

definition sem_waits :: "addr \<Rightarrow> waker \<Rightarrow> abs_sem \<Rightarrow> bool \<Rightarrow> bool" where
  "sem_waits p cx a b \<longleftrightarrow> is_served (as_waiting a) (fst ` set (as_futures a)) p cx b"

lemma sem_waits_give:
  assumes s: "sem_waits p cx a b" and d: "distinct (map fst (as_waiting a))" "fst ` set (as_waiting a) \<subseteq> fst ` set (as_futures a)"
  shows "sem_waits p cx (snd (abs_give k a)) (b \<or> cx \<in> set (fst (abs_give k a)))"
proof (cases "as_waiting a = [] \<or> k = 0")
  case True
  then show ?thesis using s by (auto simp: sem_waits_def abs_give_def)
next
  case False
  obtain m rs l where g: "grant k (map (need_in (as_futures a)) (map fst (as_waiting a))) = (m, rs, l)" by (metis prod_cases3)
  have "is_served (drop m (as_waiting a)) (fst ` set (as_futures a)) p cx (b \<or> cx \<in> snd ` set (take m (as_waiting a)))"
  proof (rule served_take [OF s [unfolded sem_waits_def] d(1)])
    show "as_waiting a = take m (as_waiting a) @ drop m (as_waiting a) \<or> as_waiting a = drop m (as_waiting a) @ take m (as_waiting a)" by simp
    have "fst ` set (take m (as_waiting a)) \<subseteq> fst ` set (as_waiting a)" by (intro image_mono set_take_subset)
    then show "p \<in> fst ` set (as_futures a) \<union> fst ` set (take m (as_waiting a)) \<Longrightarrow> p \<in> fst ` set (as_futures a)" using d(2) by blast
  qed
  then show ?thesis using False g by (simp add: sem_waits_def abs_give_def Let_def)
qed

lemma sem_waits_drop:
  assumes s: "sem_waits p cx a b" and x: "x \<noteq> p" and d: "distinct (map fst (as_waiting a))" "fst ` set (as_waiting a) \<subseteq> fst ` set (as_futures a)"
  shows "sem_waits p cx (snd (abs_drop x a)) (b \<or> cx \<in> set (fst (abs_drop x a)))"
proof (cases "map_of (as_futures a) x")
  case None
  then show ?thesis using s by (simp add: abs_drop_def sem_waits_def is_served_def)
next
  case (Some kr)
  let ?a = "a\<lparr>as_waiting := without x (as_waiting a), as_futures := without x (as_futures a)\<rparr>"
  have "sem_waits p cx ?a b" using s x by (auto simp: sem_waits_def served_other intro: served_mono)
  moreover have "fst ` set (as_waiting ?a) \<subseteq> fst ` set (as_futures ?a)" using d(2) by auto
  ultimately show ?thesis using sem_waits_give [of p cx ?a b] d(1) Some by (cases kr) (simp add: abs_drop_def)
qed

lemma sem_waits_upd [simp]:
  "sem_waits p cx (a\<lparr>as_avail := n\<rparr>) b = sem_waits p cx a b" "sem_waits p cx (a\<lparr>as_held := h\<rparr>) b = sem_waits p cx a b"
  "sem_waits p cx (a\<lparr>as_budget := n\<rparr>) b = sem_waits p cx a b" "sem_waits p cx (abs_took n a) b = sem_waits p cx a b"
  by (simp_all add: sem_waits_def abs_took_def)

lemma sem_waits_step:
  assumes s: "sem_waits p cx a b" and inv: "abs_inv a" and op: "\<not> sem_concerns p op"
  shows "sem_waits p cx (snd (sem_op_spec op a)) (b \<or> cx \<in> fst ` set (snd (fst (sem_op_spec op a))))"
proof -
  have d: "distinct (map fst (as_waiting a))" "fst ` set (as_waiting a) \<subseteq> fst ` set (as_futures a)"
    using inv by (simp_all add: abs_inv_def waiting_inv_def)
  show ?thesis
  proof (cases op)
    case (SemStart x k w)
    then have "x \<noteq> p" using op by (simp add: sem_concerns_def)
    then show ?thesis using s SemStart by (auto simp: sem_waits_def served_other abs_took_def intro: served_mono)
  next
    case (SemPoll x w)
    then have x: "x \<noteq> p" using op by (simp add: sem_concerns_def)
    then have "sem_waits p cx (a\<lparr>as_futures := without x (as_futures a)\<rparr>) b" "sem_waits p cx (a\<lparr>as_waiting := assign x w (as_waiting a)\<rparr>) b"
      using s by (auto simp: sem_waits_def served_other intro: served_mono)
    then show ?thesis using s SemPoll sem_waits_drop [OF s x d] by (simp add: split_beta image_image split: option.split)
  next
    case (SemCancel x)
    then have x: "x \<noteq> p" using op by (simp add: sem_concerns_def)
    have "is_served (without x (as_waiting a)) (fst ` set (as_futures a) - {x}) p cx b"
      using s x by (auto simp: sem_waits_def served_other intro: served_mono)
    then have "sem_waits p cx (abs_lose x t a) b" for t
      by (cases "without x (as_waiting a)") (simp_all add: sem_waits_def abs_lose_def Let_def)
    then show ?thesis using s SemCancel sem_waits_drop [OF s x d]
      by (simp add: split_beta image_image del: sem_loses.simps(1) split: option.split)
  next
    case (SemAdd k)
    then show ?thesis using s sem_waits_give [of p cx "a\<lparr>as_budget := as_budget a - unat k\<rparr>" b "unat k"] d
      by (simp add: split_beta image_image)
  next
    case (SemDrop i)
    then show ?thesis using s sem_waits_give [of p cx "a\<lparr>as_held := drop_nth i (as_held a)\<rparr>" b "as_held a ! i"] d
      by (simp add: split_beta image_image)
  next
    case (SemForget i)
    then show ?thesis using s by (simp add: sem_waits_def)
  next
    case (SemClose x)
    have "is_served [] (fst ` set (as_futures a)) p cx (b \<or> cx \<in> snd ` set (as_waiting a))"
      using d(2) by (intro served_take [OF s [unfolded sem_waits_def] d(1), of "as_waiting a"]) auto
    then show ?thesis using s SemClose by (simp add: sem_waits_def image_image)
  qed (use s in \<open>simp_all add: Let_def\<close>)
qed

lemma sem_pending:
  assumes op: "sem_polls p cx op" "fst (fst (sem_op_spec op a)) = SemPending"
  shows "sem_waits p cx (snd (sem_op_spec op a)) False"
proof (cases op)
  case (SemStart x k w)
  then show ?thesis using op by (auto simp: sem_waits_def is_served_def split: if_splits)
next
  case (SemPoll x w)
  then show ?thesis using op assign_mem [of p "as_waiting a" cx]
    by (auto simp: sem_waits_def is_served_def split_beta split: option.splits if_splits)
qed (use op in simp_all)

end
