(* ===== verification/Semaphore_Refine.thy ===== *)
theory Semaphore_Refine
  imports Semaphore_Client
begin

text \<open>
  The semaphore of \<^verbatim>\<open>examples/semaphore.rs\<close> implements the abstract one of
  \<^verbatim>\<open>Semaphore_Client\<close>: the relation between the two, one lemma per operation, and
  the simulation they give for every sequence of calls, up to the first panic. The operations run one
  after the other here, from the state in which the previous one has left the queue.
\<close>

section \<open>The abstraction\<close>

text \<open>
  How a queue stands for an abstract semaphore, with the futures \<open>fl\<close>: each of their nodes is
  queued while it waits and dequeued otherwise. Nothing is said of other nodes.
\<close>

definition sem_queue_rel :: "(addr \<times> u32) list \<Rightarrow> sem_waiter queue \<Rightarrow> abs_sem \<Rightarrow> bool" where
  "sem_queue_rel fl q a \<longleftrightarrow> sem_ok q (map fst (as_waiting a))
     \<and> unat (available_permits q) = as_avail a \<and> sem_is_closed q = as_closed a
     \<and> map (sem_waker_of q) (map fst (as_waiting a)) = map snd (as_waiting a)
     \<and> as_futures a = map (\<lambda>(p, k). (p, unat k, remaining q p)) fl
     \<and> (\<forall>p\<in>fst ` set fl. q_data q p \<noteq> None
          \<and> node_states q p = Some (if p \<in> fst ` set (as_waiting a) then Queued else Dequeued))"

lemma need_remaining: "p \<in> fst ` set fl \<Longrightarrow> need_in (map (\<lambda>(p, k). (p, unat k, remaining q p)) fl) p = remaining q p"
  by (induction fl) (auto simp: need_in_def)

lemma futures_keys [simp]: "map fst (map (\<lambda>(p, k). (p, f p k)) fl) = map fst fl"
  by (induction fl) auto

lemma map_of_map_futures: "map_of (map (\<lambda>(p, k). (p, f p k)) fl) p = map_option (f p) (map_of fl p)"
  by (induction fl) auto

lemma sem_queue_rel_keys: "sem_queue_rel fl q a \<Longrightarrow> map fst (as_futures a) = map fst fl \<and> fst ` set (as_futures a) = fst ` set fl"
proof -
  assume "sem_queue_rel fl q a"
  then have "as_futures a = map (\<lambda>(p, k). (p, unat k, remaining q p)) fl" by (simp add: sem_queue_rel_def)
  then have "map fst (as_futures a) = map fst fl" using futures_keys [of "\<lambda>p k. (unat k, remaining q p)" fl] by simp
  then show ?thesis by (metis list.set_map)
qed

lemma sem_queue_rel_node:
  "sem_queue_rel fl q a \<Longrightarrow> p \<in> fst ` set fl \<Longrightarrow>
   q_data q p \<noteq> None \<and> node_states q p = Some (if p \<in> fst ` set (as_waiting a) then Queued else Dequeued)"
  unfolding sem_queue_rel_def by blast

lemma sem_queue_rel_future:
  "sem_queue_rel fl q a \<Longrightarrow> map_of (as_futures a) p = map_option (\<lambda>k. (unat k, remaining q p)) (map_of fl p)"
  by (simp add: sem_queue_rel_def map_of_map_futures)

lemma sem_queue_rel_locked [simp]:
  "sem_queue_rel fl (q\<lparr>q_locked := b\<rparr>) a = sem_queue_rel fl q a" "sem_queue_rel fl (unlock q) a = sem_queue_rel fl q a"
  by (simp_all add: sem_queue_rel_def available_permits_def sem_is_closed_def state_of_def node_states_def unlock_def)

lemma no_state: "state_of usize_state q = None \<Longrightarrow> unat (available_permits q) = 0 \<and> \<not> sem_is_closed q"
  by (simp add: available_permits_def sem_is_closed_def)

lemma shifted_state:
  assumes "state_of usize_state q = Some (push_bit PERMIT_SHIFT (of_nat l))" and "l < 2 ^ 62"
  shows "unat (available_permits q) = l \<and> \<not> sem_is_closed q"
proof -
  have "unat (of_nat l :: usize) = l" using assms(2) by (simp add: unsigned_of_nat take_bit_nat_eq_self_iff)
  then have "unat (push_bit PERMIT_SHIFT (of_nat l :: usize)) = 2 * l" using assms(2) by (simp add: shift_permits)
  then show ?thesis using available_unat [OF assms(1)] sem_closed_iff [OF assms(1)] by simp
qed

text \<open>What \<open>granted\<close> says is \<open>abs_give\<close>.\<close>

lemma granted_needs:
  assumes fl: "fs = map (\<lambda>(p, k). (p, unat k, remaining q p)) fl"
    and t: "\<forall>x\<in>set (take m ns). remaining q' x = 0" and o: "\<forall>x. x \<notin> set ns \<longrightarrow> remaining q' x = remaining q x"
  shows "set_needs (take m ns) (zip (drop m ns) (map (remaining q') (drop m ns))) fs = map (\<lambda>(p, k). (p, unat k, remaining q' p)) fl"
proof -
  have "(if p \<in> set (take m ns) then 0 else case map_of (zip (drop m ns) (map (remaining q') (drop m ns))) p of
      Some r \<Rightarrow> r | None \<Rightarrow> remaining q p) = remaining q' p" for p
  proof -
    have "p \<notin> set (take m ns) \<Longrightarrow> p \<notin> set (drop m ns) \<Longrightarrow> p \<notin> set ns" by (metis Un_iff append_take_drop_id set_append)
    then show ?thesis using t o by (auto simp: map_of_zip_map)
  qed
  then show ?thesis unfolding fl set_needs_def by auto
qed

lemma granted_give:
  assumes rel: "sem_queue_rel fl q a" and inv: "abs_inv a" and w: "as_waiting a \<noteq> []" and k: "0 < k" "k < 2 ^ 62"
    and g: "granted k q (map fst (as_waiting a)) [] log log' q'"
  shows "log' = log @ unlocked_wakes (fst (abs_give k a)) \<and> sem_queue_rel fl q' (snd (abs_give k a)) \<and> \<not> q_locked q'
    \<and> dom (node_states q') = dom (node_states q)
    \<and> (\<forall>x. x \<notin> fst ` set (as_waiting a) \<longrightarrow> node_states q' x = node_states q x \<and> q_data q' x = q_data q x)"
proof -
  let ?ws = "as_waiting a" and ?ns = "map fst (as_waiting a)"
  obtain m rs l where m: "grant k (map (remaining q) ?ns) = (m, rs, l)"
    "log' = log @ unlocked_wakes (map (sem_waker_of q) (take m ?ns))"
    "sem_ok q' (drop m ?ns)" "\<not> q_locked q'" "map (remaining q') (drop m ?ns) = rs"
    "\<forall>x\<in>set (take m ?ns). node_states q' x = Some Dequeued \<and> remaining q' x = 0 \<and> q_data q' x \<noteq> None"
    "\<forall>x\<in>set (drop m ?ns). sem_waker_of q' x = sem_waker_of q x"
    "\<forall>z. z \<notin> set ?ns \<longrightarrow> node_states q' z = node_states q z \<and> q_data q' z = q_data q z"
    "drop m ?ns = [] \<longrightarrow> state_of usize_state q' = Some (push_bit PERMIT_SHIFT (of_nat l))"
    using g unfolding granted_def by auto
  have keys: "set ?ns \<subseteq> fst ` set fl" using inv sem_queue_rel_keys [OF rel] by (auto simp: abs_inv_def waiting_inv_def)
  have fs: "as_futures a = map (\<lambda>(p, k). (p, unat k, remaining q p)) fl" and wk: "map (sem_waker_of q) ?ns = map snd ?ws"
    and st: "\<forall>p\<in>fst ` set fl. q_data q p \<noteq> None \<and> node_states q p = Some (if p \<in> fst ` set ?ws then Queued else Dequeued)"
    using rel by (auto simp: sem_queue_rel_def)
  have needs: "map (need_in (as_futures a)) ?ns = map (remaining q) ?ns"
    unfolding fs using keys by (intro map_cong refl need_remaining) auto
  have give: "abs_give k a = (map snd (take m ?ws), a\<lparr>as_waiting := drop m ?ws, as_avail := if drop m ?ws = [] then l else 0,
    as_futures := set_needs (map fst (take m ?ws)) (zip (map fst (drop m ?ws)) rs) (as_futures a)\<rparr>)"
    by (rule abs_give_eq [OF w k(1)]) (use m(1) needs in \<open>simp only:\<close>)
  have "unat (available_permits q') = (if drop m ?ws = [] then l else 0) \<and> \<not> sem_is_closed q'"
  proof (cases "drop m ?ws = []")
    case True
    then have "state_of usize_state q' = Some (push_bit PERMIT_SHIFT (of_nat l))" using m(9) by (simp add: drop_map)
    moreover have "l < 2 ^ 62" using grant_conserves [OF m(1)] k(2) by simp
    ultimately have "unat (available_permits q') = l \<and> \<not> sem_is_closed q'" by (rule shifted_state)
    with True show ?thesis by simp
  next
    case False
    then show ?thesis using no_state [OF sem_state_None [OF m(3)]] by (simp add: drop_map)
  qed
  moreover have "\<not> as_closed a" using inv w by (auto simp: abs_inv_def waiting_inv_def)
  moreover have "map (sem_waker_of q') (drop m ?ns) = map snd (drop m ?ws)"
  proof -
    have "map (sem_waker_of q') (drop m ?ns) = map (sem_waker_of q) (drop m ?ns)" using m(7) by (intro map_cong) auto
    also have "\<dots> = map snd (drop m ?ws)" using arg_cong [OF wk, of "drop m"] by (simp only: drop_map)
    finally show ?thesis .
  qed
  moreover have "set_needs (take m ?ns) (zip (drop m ?ns) rs) (as_futures a) = map (\<lambda>(p, k). (p, unat k, remaining q' p)) fl"
    unfolding m(5) [symmetric] by (rule granted_needs [OF fs]) (use m(6,8) in \<open>auto simp: remaining_def\<close>)
  moreover have node: "q_data q' p \<noteq> None \<and> node_states q' p = Some (if p \<in> set (drop m ?ns) then Queued else Dequeued)" if "p \<in> fst ` set fl" for p
  proof (cases "p \<in> set (drop m ?ns)")
    case True
    then show ?thesis using sem_waiter_at [OF m(3) True] queue_wf_queued_iff [OF sem_ok_wf [OF m(3)], of p] by auto
  next
    case False
    then have "p \<in> set (take m ?ns) \<or> p \<notin> set ?ns" by (metis Un_iff append_take_drop_id set_append)
    then show ?thesis using False m(6,8) st that by auto
  qed
  ultimately have "sem_queue_rel fl q' (snd (abs_give k a))"
    unfolding give sem_queue_rel_def using m(3) by (simp add: drop_map take_map)
  moreover have "log' = log @ unlocked_wakes (fst (abs_give k a))"
    unfolding give m(2) using arg_cong [OF wk, of "take m"] by (simp only: take_map fst_conv)
  moreover have "dom (node_states q') = dom (node_states q)"
  proof -
    have "(node_states q' x = None) = (node_states q x = None)" for x
    proof (cases "x \<in> set ?ns")
      case True
      then have "x \<in> fst ` set fl" using keys by blast
      then show ?thesis using node [of x] bspec [OF st, of x] by simp
    qed (use m(8) in simp)
    then show ?thesis by (auto simp: dom_def)
  qed
  ultimately show ?thesis using m(4,8) by simp
qed


definition gave :: "(addr \<times> u32) list \<Rightarrow> nat \<Rightarrow> sem_waiter queue \<Rightarrow> abs_sem \<Rightarrow> wakeups \<Rightarrow> (wakeups \<times> sem_waiter queue) res \<Rightarrow> bool" where
  "gave fl k q a log r \<longleftrightarrow> (\<exists>q'. r = Inr (log @ unlocked_wakes (fst (abs_give k a)), q')
     \<and> sem_queue_rel fl q' (snd (abs_give k a)) \<and> \<not> q_locked q' \<and> dom (node_states q') = dom (node_states q)
     \<and> (\<forall>x. x \<notin> fst ` set (as_waiting a) \<longrightarrow> node_states q' x = node_states q x \<and> q_data q' x = q_data q x))"

lemma node_states_tail [simp]: "node_states (q\<lparr>q_tail := w\<rparr>) = node_states q"
  by (simp add: node_states_def fun_eq_iff)

text \<open>A queue without waiters gets another state word.\<close>

lemma sem_queue_rel_tail:
  assumes rel: "sem_queue_rel fl q a" and e: "as_waiting a = []" and new: "tail_to_enum usize_state w = State st"
    and old: "state_of usize_state q \<noteq> None" and a': "as_waiting a' = []" "as_futures a' = as_futures a"
    "as_avail a' = unat st div 2" "as_closed a' \<longleftrightarrow> odd (unat st)"
  shows "sem_queue_rel fl (q\<lparr>q_tail := w\<rparr>) a'"
proof -
  have st: "state_of usize_state (q\<lparr>q_tail := w\<rparr>) = Some st" using new by (simp add: state_of_def)
  have "tail_node usize_state q = None" "tail_node usize_state (q\<lparr>q_tail := w\<rparr>) = None"
    using old new by (auto simp: state_of_def tail_node_def sop_state_def sop_tail_def split: state_or_ptr.splits)
  then have "sem_ok (q\<lparr>q_tail := w\<rparr>) []" using rel e by (simp add: sem_queue_rel_def sem_ok_def queue_wf_def queue_inv_def nodes_ok_def)
  then show ?thesis using rel e a' available_unat [OF st] sem_closed_iff [OF st]
    by (simp add: sem_queue_rel_def remaining_def node_states_def)
qed

lemma sem_state_Some: "sem_ok q [] \<Longrightarrow> \<exists>st. state_of usize_state q = Some st"
  using is_empty_wf [of q "[]"] by (auto simp: sem_ok_def is_empty_def)

lemma empty_gives:
  assumes rel: "sem_queue_rel fl q a" and e: "as_waiting a = []" and lk: "\<not> q_locked q"
    and room: "as_avail a + unat k < 2 ^ 61" and k: "k \<noteq> 0"
  shows "gave fl (unat k) q a log (add_permits n A id id k log q)"
proof -
  obtain st where st: "state_of usize_state q = Some st" using rel e sem_state_Some by (auto simp: sem_queue_rel_def)
  note b = sem_state_bound [OF st]
  have av: "unat st div 2 = as_avail a" using rel available_unat [OF st] by (simp add: sem_queue_rel_def)
  have cl: "odd (unat st) \<longleftrightarrow> as_closed a" using rel sem_closed_iff [OF st] by (simp add: sem_queue_rel_def)
  let ?st = "st + push_bit PERMIT_SHIFT k"
  have n: "check_add_permits st k = Inr ?st" "unat ?st = unat st + 2 * unat k" using check_add_eq [OF b, of k] room av by simp_all
  obtain w where w: "enum_to_tail usize_state (State ?st) = Inr w" "tail_to_enum usize_state w = State ?st"
    by (rule encode_state_word [of ?st]) (use n(2) room av in simp)
  have "add_permits n A id id k log q = Inr (log, q\<lparr>q_tail := w\<rparr>)"
    using k n(1) w(1)
    by (simp add: add_permits_def fetch_update_state_or_locked_def fetch_update_empty [OF st] del: fetch_update_state.simps)
  moreover have "sem_queue_rel fl (q\<lparr>q_tail := w\<rparr>) (a\<lparr>as_avail := as_avail a + unat k\<rparr>)"
    by (rule sem_queue_rel_tail [OF rel e w(2)]) (use st n(2) av cl e in auto)
  ultimately show ?thesis using e lk by (simp add: gave_def abs_give_def)
qed

text \<open>A future goes away.\<close>

abbreviation abs_without :: "addr \<Rightarrow> abs_sem \<Rightarrow> abs_sem" where
  "abs_without p a \<equiv> a\<lparr>as_waiting := without p (as_waiting a), as_futures := without p (as_futures a)\<rparr>"

lemma sem_queue_rel_without:
  assumes rel: "sem_queue_rel fl q a" and inv: "abs_inv a" and wf: "queue_wf usize_state q' (map fst (without p (as_waiting a)))"
    and st: "unat (available_permits q') = v" "sem_is_closed q' = c"
    and same: "\<And>x. x \<noteq> p \<Longrightarrow> q_data q' x = q_data q x \<and> node_states q' x = node_states q x"
  shows "sem_queue_rel (without p fl) q' ((abs_without p a)\<lparr>as_avail := v, as_closed := c\<rparr>)"
proof -
  let ?ws = "without p (as_waiting a)"
  have ok: "sem_ok q (map fst (as_waiting a))" and wk: "\<forall>(x, w)\<in>set (as_waiting a). sem_waker_of q x = w"
    and fs: "as_futures a = map (\<lambda>(p, k). (p, unat k, remaining q p)) fl"
    using rel by (auto simp: sem_queue_rel_def)
  have read: "x \<noteq> p \<Longrightarrow> sem_waker_of q' x = sem_waker_of q x \<and> remaining q' x = remaining q x" for x
    using same by (simp add: sem_waker_of_def remaining_def)
  have "sem_ok q' (map fst ?ws)" by (rule sem_ok_cong [OF ok wf]) (use same in auto)
  moreover have "map (sem_waker_of q') (map fst ?ws) = map snd ?ws" using wk read by (auto simp: set_without simp del: without_keys)
  moreover have "without p (as_futures a) = map (\<lambda>(p, k). (p, unat k, remaining q' p)) (without p fl)"
    unfolding fs using read by (auto simp: without_map set_without)
  moreover have "q_data q' x \<noteq> None \<and> node_states q' x = Some (if x \<in> fst ` set ?ws then Queued else Dequeued)"
    if "x \<in> fst ` set (without p fl)" for x
    using sem_queue_rel_node [OF rel, of x] same [of x] that by simp
  ultimately show ?thesis using st by (simp add: sem_queue_rel_def)
qed

lemma sem_queue_rel_left:
  assumes "sem_queue_rel fl q a" and "abs_inv a" and "queue_wf usize_state q' (map fst (without p (as_waiting a)))"
    and "unat (available_permits q') = as_avail a" "sem_is_closed q' = as_closed a"
    and "\<And>x. x \<noteq> p \<Longrightarrow> q_data q' x = q_data q x \<and> node_states q' x = node_states q x"
  shows "sem_queue_rel (without p fl) q' (abs_without p a)"
proof -
  have "(abs_without p a)\<lparr>as_avail := as_avail a, as_closed := as_closed a\<rparr> = abs_without p a" by (cases a) simp
  with sem_queue_rel_without [OF assms] show ?thesis by simp
qed

lemma sem_queue_rel_free:
  assumes rel: "sem_queue_rel fl q a" and p: "p \<notin> fst ` set fl" and inv: "abs_inv a"
  shows "sem_queue_rel fl (node_free p q) a" and "node_states (node_free p q) = (node_states q)(p := None)"
proof -
  have n: "p \<notin> fst ` set (as_waiting a)" "p \<notin> fst ` set (as_futures a)"
    using inv sem_queue_rel_keys [OF rel] p by (auto simp: abs_inv_def waiting_inv_def)
  have "queue_wf usize_state q (map fst (as_waiting a))" using rel by (simp add: sem_queue_rel_def sem_ok_def)
  moreover have "p \<notin> set (map fst (as_waiting a))" using n by simp
  ultimately have wf: "queue_wf usize_state (node_free p q) (map fst (as_waiting a))"
    and st: "node_states (node_free p q) = (node_states q)(p := None)" by (rule usize_qs.wf_free)+
  show "node_states (node_free p q) = (node_states q)(p := None)" by (rule st)
  have word: "unat (available_permits (node_free p q)) = as_avail a" "sem_is_closed (node_free p q) = as_closed a"
    using rel by (simp_all add: sem_queue_rel_def available_permits_def sem_is_closed_def state_of_def node_free_def)
  have "sem_queue_rel (without p fl) (node_free p q) (abs_without p a)"
    by (rule sem_queue_rel_left [OF rel inv _ word]) (use wf n st in \<open>simp_all add: without_id node_free_def\<close>)
  then show "sem_queue_rel fl (node_free p q) a" using n p by (simp add: without_id)
qed

text \<open>A waiter leaves the queue; the given state is installed if nobody is left.\<close>

lemma abs_lose_none:
  assumes inv: "abs_inv a" and p: "p \<in> fst ` set (as_waiting a)" and t: "fst (last (as_waiting a)) = p \<Longrightarrow> t = 0"
  shows "abs_lose p t a = abs_without p a"
proof (cases "without p (as_waiting a) = []")
  case True
  have w: "as_waiting a \<noteq> []" using p by auto
  then have "last (as_waiting a) \<notin> set (without p (as_waiting a))" using True by simp
  then have "t = 0" using t w by (simp add: set_without)
  moreover have "as_avail a = 0" "\<not> as_closed a" using inv w by (auto simp: abs_inv_def waiting_inv_def)
  ultimately show ?thesis using True by (cases a) (simp add: abs_lose_def)
qed (simp add: abs_lose_def)

lemma remove_waiter:
  assumes rel: "sem_queue_rel fl q a" and inv: "abs_inv a" and p: "p \<in> fst ` set (as_waiting a)"
    and v: "tail_to_enum usize_state v = State j"
  obtains q1 where "remove usize_state p v False (q\<lparr>q_locked := True\<rparr>) = Inr (fst (last (as_waiting a)) = p, q1)"
    "sem_queue_rel (without p fl) q1 (abs_lose p (unat j) a)" "q_locked q1" "node_states q1 = (node_states q)(p \<mapsto> Dequeued)"
proof -
  let ?q = "q\<lparr>q_locked := True\<rparr>" and ?ns = "map fst (as_waiting a)"
  have wf: "queue_wf usize_state ?q ?ns" using rel by (simp add: sem_queue_rel_def sem_ok_def)
  have mem: "p \<in> set ?ns" using p by simp
  have "as_waiting a \<noteq> []" using p by auto
  then have lst: "last ?ns = fst (last (as_waiting a))" by (simp add: last_map)
  obtain q1 where q1: "remove usize_state p v False ?q = Inr (p = last ?ns, q1)" "queue_wf usize_state q1 (remove1 p ?ns)"
    "node_states q1 = (node_states ?q)(p \<mapsto> Dequeued)" "frame ?q q1" "remove1 p ?ns = [] \<longrightarrow> state_of usize_state q1 = Some j"
    by (rule usize_qs.wf_remove [OF wf mem v])
  have ns: "map fst (without p (as_waiting a)) = remove1 p ?ns"
    using inv by (simp add: remove1_filter abs_inv_def waiting_inv_def)
  have wf1: "queue_wf usize_state q1 (map fst (without p (as_waiting a)))" using q1(2) ns by simp
  have same: "x \<noteq> p \<Longrightarrow> q_data q1 x = q_data q x \<and> node_states q1 x = node_states q x" for x
    using q1(3,4) by (simp add: frame_def)
  have "sem_queue_rel (without p fl) q1 (abs_lose p (unat j) a)"
  proof (cases "without p (as_waiting a) = []")
    case True
    then have st: "state_of usize_state q1 = Some j" using ns q1(5) by simp
    show ?thesis using sem_queue_rel_without [OF rel inv wf1 available_unat [OF st] sem_closed_iff [OF st] same] True
      by (simp add: abs_lose_def)
  next
    case False
    then have "remove1 p ?ns \<noteq> []" using ns by (metis map_is_Nil_conv)
    then have "state_of usize_state q1 = None" using is_empty_wf [OF q1(2)] by (simp add: is_empty_def)
    moreover have "as_avail a = 0" "\<not> as_closed a" using inv p by (auto simp: abs_inv_def waiting_inv_def)
    ultimately show ?thesis using False no_state [of q1] by (simp add: abs_lose_def sem_queue_rel_left [OF rel inv wf1 _ _ same])
  qed
  with q1 lst show ?thesis by (intro that [of q1]) (auto simp: frame_def)
qed

lemma gave_zero: "sem_queue_rel fl q a \<Longrightarrow> gave fl 0 q a log (Inr (log, unlock q))"
  by (simp add: gave_def abs_give_def) (simp add: unlock_def)

text \<open>What a future has taken over.\<close>

lemma taken_over:
  assumes rel: "sem_queue_rel fl q a" and inv: "abs_inv a" and p: "map_of fl p = Some k" and room: "abs_total a < 2 ^ 61"
  obtains w where "q_data q p = Some w" "sub_checked k (sw_permits_remaining w) = Inr (k - sw_permits_remaining w)"
    "unat (ucast (k - sw_permits_remaining w) :: usize) = unat k - remaining q p"
    "as_avail a + (unat k - remaining q p) < 2 ^ 61" "abs_inv (abs_without p a)"
proof -
  have fs: "map_of (as_futures a) p = Some (unat k, remaining q p)" using sem_queue_rel_future [OF rel] p by simp
  have le: "remaining q p \<le> unat k" and d: "distinct (map fst (as_futures a))"
    using inv map_of_SomeD [OF fs] by (auto simp: abs_inv_def waiting_inv_def)
  obtain w where w: "q_data q p = Some w" using sem_queue_rel_node [OF rel, of p] map_of_SomeD [OF p] by force
  have "as_avail a + (unat k - remaining q p) < 2 ^ 61" using room taken_without [OF d fs] by (simp add: abs_total_def)
  moreover have "abs_inv (abs_without p a)" using inv without_inv by (simp add: abs_inv_def)
  ultimately show ?thesis using le w
    by (intro that [of w]) (simp_all add: sub_checked_def remaining_def word_le_nat_alt u32_permits unat_sub)
qed

context bounded_wakers
begin

lemma locked_gives:
  assumes rel: "sem_queue_rel fl q a" and inv: "abs_inv a" and w: "as_waiting a \<noteq> []" and k: "0 < unat k" "unat k < 2 ^ 61"
    and n: "length (as_waiting a) \<le> n"
  shows "gave fl (unat k) q a log (add_permits_locked n A id k log (q\<lparr>q_locked := True\<rparr>))"
proof -
  let ?q = "q\<lparr>q_locked := True\<rparr>" and ?ns = "map fst (as_waiting a)"
  have ok: "sem_ok ?q ?ns" "q_locked ?q" "?ns \<noteq> []" "length ?ns \<le> n" using rel w n by (simp_all add: sem_queue_rel_def)
  have len: "length ([] :: waker list) < 32" "unat k < 2 ^ 62" using k by simp_all
  obtain log' q' where r: "add_permits_loop n A id k (av_new A) log ?q = Inr (log', q')" "granted (unat k) ?q ?ns [] log log' q'"
    using add_permits_loop_ok [OF new_rep len(1) ok(1-3) len(2) ok(4)] by blast
  have "add_permits_locked n A id k log ?q = Inr (log', q')"
    using r(1) sem_not_closed [OF ok(1,3)] by (simp add: add_permits_locked_def)
  with granted_give [OF rel inv w k(1) len(2)] r(2) show ?thesis by (simp add: gave_def granted_relock)
qed

lemma add_gives:
  assumes rel: "sem_queue_rel fl q a" and inv: "abs_inv a" and lk: "\<not> q_locked q"
    and room: "as_avail a + unat k < 2 ^ 61" and n: "length (as_waiting a) \<le> n"
  shows "gave fl (unat k) q a log (add_permits n A id id k log q)"
proof (cases "k = 0")
  case True
  have "(a\<lparr>as_avail := as_avail a\<rparr>) = a" by simp
  with True rel lk show ?thesis by (simp add: gave_def abs_give_def add_permits_def)
next
  case False
  then have pos: "0 < unat k" by (simp add: unat_gt_0)
  show ?thesis
  proof (cases "as_waiting a = []")
    case True
    then show ?thesis by (rule empty_gives [OF rel _ lk room False])
  next
    case w: False
    have None: "state_of usize_state q = None" using rel w by (intro sem_state_None) (auto simp: sem_queue_rel_def)
    have "add_permits n A id id k log q = add_permits_locked n A id k log (q\<lparr>q_locked := True\<rparr>)"
      using False lock_nonempty(2) [where gap = id, of q] None lk by (simp add: add_permits_def)
    with locked_gives [OF rel inv w pos _ n] room show ?thesis by simp
  qed
qed

lemma cancel_dequeued:
  assumes rel: "sem_queue_rel fl q a" and inv: "abs_inv a" and lk: "\<not> q_locked q" and p: "map_of fl p = Some k"
    and out: "p \<notin> fst ` set (as_waiting a)" and room: "abs_total a < 2 ^ 61" and n: "length (as_waiting a) \<le> n"
  shows "gave (without p fl) (unat k - remaining q p) q (abs_without p a) log (cancel n A id id p k log q)"
proof -
  obtain w where w: "q_data q p = Some w" "sub_checked k (sw_permits_remaining w) = Inr (k - sw_permits_remaining w)"
    "unat (ucast (k - sw_permits_remaining w) :: usize) = unat k - remaining q p"
    "as_avail a + (unat k - remaining q p) < 2 ^ 61" "abs_inv (abs_without p a)"
    by (rule taken_over [OF rel inv p room])
  let ?j = "ucast (k - sw_permits_remaining w) :: usize"
  have st: "node_states q p = Some Dequeued" using sem_queue_rel_node [OF rel, of p] out map_of_SomeD [OF p] by force
  have "sem_queue_rel (without p fl) q (abs_without p a)"
    by (rule sem_queue_rel_left [OF rel inv]) (use rel out in \<open>auto simp: sem_queue_rel_def sem_ok_def without_id\<close>)
  then have "gave (without p fl) (unat ?j) q (abs_without p a) log (add_permits n A id id ?j log q)"
    by (rule add_gives [OF _ w(5) lk]) (use w(3,4) n out in \<open>simp_all add: without_id\<close>)
  moreover have "cancel n A id id p k log q = add_permits n A id id ?j log q"
    using node_state_eq [OF lk st] w by (simp add: cancel_def with_data_def)
  ultimately show ?thesis using w(3) by simp
qed

text \<open>
  A waiter is cancelled. If it was the last one of the queue, what it had taken over is installed as the
  state word, or nowhere.
\<close>

lemma cancel_leaves:
  assumes rel: "sem_queue_rel fl q a" and inv: "abs_inv a" and lk: "\<not> q_locked q" and p: "map_of fl p = Some k"
    and mem: "p \<in> fst ` set (as_waiting a)" and room: "abs_total a < 2 ^ 61"
  obtains q1 j where "unat j = unat k - remaining q p" "unat j < 2 ^ 61"
    "cancel n A id id p k log q =
      (if fst (last (as_waiting a)) = p \<or> j = 0 then Inr (log, unlock q1) else add_permits_locked n A id j log q1)"
    "sem_queue_rel (without p fl) q1 (abs_lose p (unat j) a)" "q_locked q1" "node_states q1 = (node_states q)(p \<mapsto> Dequeued)"
proof -
  obtain w where w: "q_data q p = Some w" "sub_checked k (sw_permits_remaining w) = Inr (k - sw_permits_remaining w)"
    "unat (ucast (k - sw_permits_remaining w) :: usize) = unat k - remaining q p"
    "as_avail a + (unat k - remaining q p) < 2 ^ 61"
    by (rule taken_over [OF rel inv p room])
  let ?j = "ucast (k - sw_permits_remaining w) :: usize"
  have st: "node_states q p = Some Queued" using sem_queue_rel_node [OF rel, of p] mem map_of_SomeD [OF p] by force
  obtain v where v: "enum_to_tail usize_state (State ?j) = Inr v" "tail_to_enum usize_state v = State ?j"
    by (rule encode_state_word [of ?j]) (use w(3,4) in simp)
  obtain q1 where q1: "remove usize_state p v False (q\<lparr>q_locked := True\<rparr>) = Inr (fst (last (as_waiting a)) = p, q1)"
    "sem_queue_rel (without p fl) q1 (abs_lose p (unat ?j) a)" "q_locked q1" "node_states q1 = (node_states q)(p \<mapsto> Dequeued)"
    by (rule remove_waiter [OF rel inv mem v(2)])
  have "\<not> as_closed a" using mem inv by (auto simp: abs_inv_def waiting_inv_def)
  then have "\<not> sem_is_closed q1" if "fst (last (as_waiting a)) \<noteq> p"
    using q1(2) abs_lose_none [OF inv mem, of "unat ?j"] that by (simp add: sem_queue_rel_def)
  moreover have "k - sw_permits_remaining w > 0 \<longleftrightarrow> ?j \<noteq> 0"
    using u32_permits [of "k - sw_permits_remaining w"] by (simp add: word_gt_0 unat_eq_0 [symmetric] del: unat_eq_0)
  ultimately have "cancel n A id id p k log q =
      (if fst (last (as_waiting a)) = p \<or> ?j = 0 then Inr (log, unlock q1) else add_permits_locked n A id ?j log q1)"
    using node_state_eq [OF lk st] w v(1) q1(1)
    by (auto simp: cancel_def with_data_def node_queued_dequeue_try_set_queue_state_def)
  with w(3,4) q1(2-) show ?thesis by (intro that [of ?j q1]) simp_all
qed

lemma cancel_queued:
  assumes rel: "sem_queue_rel fl q a" and inv: "abs_inv a" and lk: "\<not> q_locked q" and p: "map_of fl p = Some k"
    and mem: "p \<in> fst ` set (as_waiting a)" and safe: "fst (last (as_waiting a)) = p \<Longrightarrow> unat k \<le> remaining q p"
    and room: "abs_total a < 2 ^ 61" and n: "length (as_waiting a) \<le> n"
  shows "\<exists>q1. gave (without p fl) (unat k - remaining q p) q1 (abs_without p a) log (cancel n A id id p k log q)
    \<and> node_states q1 = (node_states q)(p \<mapsto> Dequeued)"
proof -
  let ?b = "abs_without p a"
  obtain q1 j where j: "unat j = unat k - remaining q p" "unat j < 2 ^ 61"
    "cancel n A id id p k log q =
      (if fst (last (as_waiting a)) = p \<or> j = 0 then Inr (log, unlock q1) else add_permits_locked n A id j log q1)"
    and q1: "sem_queue_rel (without p fl) q1 (abs_lose p (unat j) a)" "q_locked q1" "node_states q1 = (node_states q)(p \<mapsto> Dequeued)"
    by (rule cancel_leaves [OF rel inv lk p mem room])
  have lst: "j = 0" if "fst (last (as_waiting a)) = p" using safe [OF that] j(1) by (simp add: unat_eq_0)
  then have rel1: "sem_queue_rel (without p fl) q1 ?b" using q1(1) abs_lose_none [OF inv mem, of "unat j"] by simp
  have inv1: "abs_inv ?b" using inv without_inv by (simp add: abs_inv_def)
  have "gave (without p fl) (unat j) q1 ?b log (cancel n A id id p k log q)"
  proof (cases "j = 0")
    case False
    have "as_waiting a \<noteq> []" using mem by auto
    then have "last (as_waiting a) \<in> set (as_waiting ?b)" using False lst by (auto simp: set_without)
    then have "as_waiting ?b \<noteq> []" by force
    moreover have "length (as_waiting ?b) \<le> n" using n le_trans [OF length_filter_le] by (simp add: without_def)
    ultimately have "gave (without p fl) (unat j) q1 ?b log (add_permits_locked n A id j log (q1\<lparr>q_locked := True\<rparr>))"
      using False j(2) unat_gt_0 [of j] by (intro locked_gives [OF rel1 inv1]) simp_all
    moreover have "q1\<lparr>q_locked := True\<rparr> = q1" using q1(2) by (cases q1) simp
    ultimately show ?thesis using j(3) lst False by auto
  qed (use j(3) gave_zero [OF rel1] in simp)
  then show ?thesis using j(1) q1(3) by auto
qed

text \<open>The end of \<^verbatim>\<open>drop\<close>: the node of the future goes away.\<close>

lemma acquire_drop_end:
  assumes rel: "sem_queue_rel fl q a" and inv: "abs_inv a" and p: "map_of fl p = Some k"
    and run: "cancel n A id id p k log q = Inr (log', q2)" and q2: "sem_queue_rel (without p fl) q2 b" "abs_inv b" "\<not> q_locked q2"
    and st: "dom (node_states q2) = dom (node_states q)" "node_states q2 p = Some Dequeued"
  shows "\<exists>q'. acquire_drop n A id id p k log q = Inr (log', q') \<and> sem_queue_rel (without p fl) q' b \<and> \<not> q_locked q'
    \<and> dom (node_states q') = dom (node_states q) - {p}"
proof -
  have "map_of (as_futures a) p = Some (unat k, remaining q p)" using sem_queue_rel_future [OF rel] p by simp
  then have "0 < unat k" using inv map_of_SomeD [of "as_futures a"] unfolding abs_inv_def waiting_inv_def by blast
  then have "k > 0" by (simp add: word_less_nat_alt)
  then have "acquire_drop n A id id p k log q = Inr (log', node_free p q2)"
    using run raw_state_eq [OF st(2)] by (simp add: acquire_drop_def node_drop_def)
  then show ?thesis using sem_queue_rel_free [OF q2(1) _ q2(2), of p] q2(3) st(1) by (auto simp: node_free_def)
qed

lemma acquire_drop_refines:
  assumes rel: "sem_queue_rel fl q a" and inv: "abs_inv a" and lk: "\<not> q_locked q" and p: "map_of fl p = Some k"
    and safe: "p \<in> fst ` set (as_waiting a) \<Longrightarrow> fst (last (as_waiting a)) = p \<Longrightarrow> unat k \<le> remaining q p"
    and room: "abs_total a < 2 ^ 61" and n: "length (as_waiting a) \<le> n"
  shows "\<exists>q'. acquire_drop n A id id p k log q = Inr (log @ unlocked_wakes (fst (abs_drop p a)), q')
    \<and> sem_queue_rel (without p fl) q' (snd (abs_drop p a)) \<and> \<not> q_locked q' \<and> dom (node_states q') = dom (node_states q) - {p}"
proof -
  let ?b = "abs_without p a" and ?j = "unat k - remaining q p"
  have mem: "p \<in> fst ` set fl" using map_of_SomeD [OF p] by force
  have drop: "abs_drop p a = abs_give ?j ?b" using sem_queue_rel_future [OF rel] p by (simp add: abs_drop_def)
  obtain q1 where q1: "gave (without p fl) ?j q1 ?b log (cancel n A id id p k log q)"
    "dom (node_states q1) = dom (node_states q)" "node_states q1 p = Some Dequeued"
  proof (cases "p \<in> fst ` set (as_waiting a)")
    case True
    obtain q1 where q1: "gave (without p fl) ?j q1 ?b log (cancel n A id id p k log q)" "node_states q1 = (node_states q)(p \<mapsto> Dequeued)"
      using cancel_queued [OF rel inv lk p True safe [OF True] room n] by blast
    have "dom (node_states q1) = dom (node_states q)" using sem_queue_rel_node [OF rel mem] q1(2) by auto
    then show ?thesis using that [OF q1(1)] q1(2) by simp
  next
    case False
    then have "node_states q p = Some Dequeued" using sem_queue_rel_node [OF rel mem] by simp
    then show ?thesis using that [OF cancel_dequeued [OF rel inv lk p False room n]] by simp
  qed
  obtain q2 where q2: "cancel n A id id p k log q = Inr (log @ unlocked_wakes (fst (abs_drop p a)), q2)"
    "sem_queue_rel (without p fl) q2 (snd (abs_drop p a))" "\<not> q_locked q2" "dom (node_states q2) = dom (node_states q)"
    "node_states q2 p = Some Dequeued"
    using q1 by (auto simp: gave_def drop)
  show ?thesis by (rule acquire_drop_end [OF rel inv p q2(1,2) abs_drop_inv(1) [OF inv] q2(3-5)])
qed

lemma acquire_drop_loses:
  assumes rel: "sem_queue_rel fl q a" and inv: "abs_inv a" and lk: "\<not> q_locked q" and p: "map_of fl p = Some k"
    and loses: "sem_loses (SemCancel p) a" and room: "abs_total a < 2 ^ 61"
  shows "\<exists>q'. acquire_drop n A id id p k log q = Inr (log, q') \<and> sem_queue_rel (without p fl) q' (abs_lose p (unat k - remaining q p) a)
    \<and> \<not> q_locked q' \<and> dom (node_states q') = dom (node_states q) - {p}"
proof -
  have fs: "map_of (as_futures a) p = Some (unat k, remaining q p)" using sem_queue_rel_future [OF rel] p by simp
  then have lst: "as_waiting a \<noteq> []" "fst (last (as_waiting a)) = p" using loses by auto
  have mem: "p \<in> fst ` set (as_waiting a)" using lst(2) imageI [OF last_in_set [OF lst(1)], of fst] by simp
  have "p \<in> fst ` set fl" using map_of_SomeD [OF p] by force
  note node = sem_queue_rel_node [OF rel this]
  obtain q1 j where j: "unat j = unat k - remaining q p"
    "cancel n A id id p k log q =
      (if fst (last (as_waiting a)) = p \<or> j = 0 then Inr (log, unlock q1) else add_permits_locked n A id j log q1)"
    and q1: "sem_queue_rel (without p fl) q1 (abs_lose p (unat j) a)" "node_states q1 = (node_states q)(p \<mapsto> Dequeued)"
    by (rule cancel_leaves [OF rel inv lk p mem room])
  have run: "cancel n A id id p k log q = Inr (log, unlock q1)" using j(2) lst(2) by simp
  have st: "node_states (unlock q1) = node_states q1" "\<not> q_locked (unlock q1)" by (simp_all add: unlock_def node_states_def fun_eq_iff)
  show ?thesis
  proof (rule acquire_drop_end [OF rel inv p run])
    show "sem_queue_rel (without p fl) (unlock q1) (abs_lose p (unat k - remaining q p) a)" using q1(1) j(1) by simp
    show "abs_inv (abs_lose p (unat k - remaining q p) a)" by (rule abs_lose_inv(1) [OF inv fs loses])
    show "dom (node_states (unlock q1)) = dom (node_states q)" unfolding st(1) q1(2) using node by auto
  qed (use st q1(2) in simp_all)
qed

end

section \<open>The simulation\<close>

definition sem_rel :: "sem_system \<Rightarrow> abs_sem \<Rightarrow> bool" where
  "sem_rel s a \<longleftrightarrow> sem_queue_rel (ss_futures s) (ss_queue s) a \<and> abs_ok a \<and> \<not> q_locked (ss_queue s)
     \<and> dom (node_states (ss_queue s)) = fst ` set (ss_futures s)
     \<and> as_held a = map (\<lambda>h. unat (sp_permits h)) (ss_held s) \<and> (\<forall>h\<in>set (ss_held s). sp_sem h = sem_addr)
     \<and> as_budget a = ss_budget s"

text \<open>A step that returns \<open>r\<close> agrees with one of the abstract semaphore.\<close>

definition agrees :: "(sem_result \<times> wakeups) \<times> sem_system \<Rightarrow> (sem_result \<times> wakeups) \<times> abs_sem \<Rightarrow> bool" where
  "agrees r a \<longleftrightarrow> fst r = fst a \<and> sem_rel (snd r) (snd a)"

lemma sem_relD:
  assumes "sem_rel s a"
  shows "sem_queue_rel (ss_futures s) (ss_queue s) a" "abs_inv a" "abs_total a < 2 ^ 61" "\<not> q_locked (ss_queue s)"
    "dom (node_states (ss_queue s)) = fst ` set (ss_futures s)" "as_held a = map (\<lambda>h. unat (sp_permits h)) (ss_held s)"
    "as_budget a = ss_budget s" "\<forall>h\<in>set (ss_held s). sp_sem h = sem_addr"
  using assms by (auto simp: sem_rel_def abs_ok_def)

lemma waiting_length:
  assumes r: "sem_rel s a"
  shows "length (as_waiting a) \<le> length (ss_futures s)"
proof -
  have "distinct (map fst (as_waiting a))" "fst ` set (as_waiting a) \<subseteq> fst ` set (ss_futures s)"
    using sem_relD(2) [OF r] sem_queue_rel_keys [OF sem_relD(1) [OF r]] by (simp_all add: abs_inv_def waiting_inv_def)
  from keys_fewer [OF this] show ?thesis by simp
qed

lemma free_node: "sem_rel s a \<Longrightarrow> q_links (ss_queue s) p = None \<longleftrightarrow> map_of (as_futures a) p = None"
proof -
  assume r: "sem_rel s a"
  have "q_links (ss_queue s) p = None \<longleftrightarrow> node_states (ss_queue s) p = None" by (simp add: node_states_def)
  also have "\<dots> \<longleftrightarrow> p \<notin> fst ` set (ss_futures s)" using sem_relD(5) [OF r] domIff [of p "node_states (ss_queue s)"] by blast
  finally show ?thesis using sem_queue_rel_keys [OF sem_relD(1) [OF r]] by (simp add: map_of_eq_None_iff)
qed

text \<open>The related states after a step: the invariant is carried by the abstract semaphore.\<close>

lemma sem_relI:
  assumes "sem_rel s a" and "sem_queue_rel (ss_futures s') (ss_queue s') (snd (sem_op_spec op a))" and "\<not> q_locked (ss_queue s')"
    and "dom (node_states (ss_queue s')) = fst ` set (ss_futures s')"
    and "as_held (snd (sem_op_spec op a)) = map (\<lambda>h. unat (sp_permits h)) (ss_held s')" and "\<forall>h\<in>set (ss_held s'). sp_sem h = sem_addr"
    and "as_budget (snd (sem_op_spec op a)) = ss_budget s'"
  shows "sem_rel s' (snd (sem_op_spec op a))"
  using assms sem_op_spec_inv [OF sem_relD(2) [OF assms(1)], of op] sem_relD(3) [OF assms(1)] by (simp add: sem_rel_def abs_ok_def)

lemma sem_queue_rel_other [simp]:
  "sem_queue_rel fl q (a\<lparr>as_held := h\<rparr>) = sem_queue_rel fl q a" "sem_queue_rel fl q (a\<lparr>as_budget := b\<rparr>) = sem_queue_rel fl q a"
  "sem_queue_rel fl q (abs_took k a) = sem_queue_rel fl q a"
  by (simp_all add: sem_queue_rel_def abs_took_def)

lemma abs_give_other [simp]:
  "as_held (snd (abs_give k a)) = as_held a" "as_budget (snd (abs_give k a)) = as_budget a"
  by (simp_all add: abs_give_def Let_def split_beta)

lemma abs_drop_other [simp]:
  "as_held (snd (abs_drop p a)) = as_held a" "as_budget (snd (abs_drop p a)) = as_budget a"
  by (simp_all add: abs_drop_def split: option.split)

lemma abs_lose_other [simp]:
  "as_held (abs_lose p t a) = as_held a" "as_budget (abs_lose p t a) = as_budget a"
  by (simp_all add: abs_lose_def Let_def)

lemma drop_nth_map: "map f (drop_nth i xs) = drop_nth i (map f xs)"
  by (simp add: drop_nth_def take_map drop_map)

lemma in_drop_nthD: "x \<in> set (drop_nth i xs) \<Longrightarrow> x \<in> set xs"
  by (auto simp: drop_nth_def dest: in_set_takeD in_set_dropD)

lemma no_permits_added: "add_permits n A gap others 0 log q = Inr (log, q)"
  by (simp add: add_permits_def)

definition sem_step_ok :: "'v wakers_ops \<Rightarrow> sem_op \<Rightarrow> sem_system \<Rightarrow> abs_sem \<Rightarrow> bool" where
  "sem_step_ok A op s a \<longleftrightarrow> (\<exists>s'. sem_op_step A op s = Inr (fst (sem_op_spec op a), s') \<and> sem_rel s' (snd (sem_op_spec op a)))"

text \<open>Permits are split, merged and forgotten without a look at the queue.\<close>

lemma split_step: "sem_rel s a \<Longrightarrow> sem_step_ok A (SemSplit i n) s a"
proof -
  assume r: "sem_rel s a"
  note d = sem_relD [OF r]
  show ?thesis
  proof (cases "i < length (ss_held s)")
    case True
    let ?h = "ss_held s ! i"
    obtain new old where e: "permit_split n ?h = (new, old)" by (cases "permit_split n ?h")
    note p = permit_split_conserves [OF e]
    have held: "as_held a ! i = unat (sp_permits ?h)" "length (as_held a) = length (ss_held s)" using d(6) True by simp_all
    show ?thesis
    proof (cases new)
      case None
      then have "sem_op_spec (SemSplit i n) a = ((SemNothing, []), a)" using p(3) held True by simp
      moreover have "sem_op_step A (SemSplit i n) s = Inr ((SemNothing, []), s)" using e None True by simp
      ultimately show ?thesis using r by (simp add: sem_step_ok_def)
    next
      case (Some o')
      have n: "unat (sp_permits o') = unat n" "unat (sp_permits old) = unat (sp_permits ?h) - unat n" "\<not> unat (sp_permits ?h) < unat n"
        using p(1) [OF Some] p(3) Some by auto
      have sem: "sp_sem o' = sem_addr" "sp_sem old = sem_addr"
        using e Some d(8) True by (auto simp: permit_split_def Let_def split: if_splits)
      let ?s = "s\<lparr>ss_held := (ss_held s)[i := old] @ [o']\<rparr>"
      have "sem_op_step A (SemSplit i n) s = Inr (fst (sem_op_spec (SemSplit i n) a), ?s)"
        using e Some True held n by (simp add: num_permits_def u32_permits)
      moreover have "sem_rel ?s (snd (sem_op_spec (SemSplit i n) a))"
        by (rule sem_relI [OF r])
          (use d True held n sem in \<open>auto simp: map_update dest: set_update_subset_insert [THEN subsetD]\<close>)
      ultimately show ?thesis by (auto simp: sem_step_ok_def)
    qed
  qed (use r d(6) in \<open>simp add: sem_step_ok_def\<close>)
qed

lemma forget_step: "sem_rel s a \<Longrightarrow> sem_step_ok A (SemForget i) s a"
proof -
  assume r: "sem_rel s a"
  note d = sem_relD [OF r]
  show ?thesis
  proof (cases "i < length (ss_held s)")
    case True
    let ?s = "s\<lparr>ss_held := drop_nth i (ss_held s), ss_budget := ss_budget s + unat (sp_permits (ss_held s ! i))\<rparr>"
    have held: "as_held a ! i = unat (sp_permits (ss_held s ! i))" "length (as_held a) = length (ss_held s)" using d(6) True by simp_all
    have "sem_op_step A (SemForget i) s = Inr (fst (sem_op_spec (SemForget i) a), ?s)"
      using True held by (simp add: permit_drop_def permit_forget_def no_permits_added)
    moreover have "sem_rel ?s (snd (sem_op_spec (SemForget i) a))"
      by (rule sem_relI [OF r]) (use d True held in \<open>auto simp: drop_nth_map dest: in_drop_nthD\<close>)
    ultimately show ?thesis by (auto simp: sem_step_ok_def)
  qed (use r d(6) in \<open>simp add: sem_step_ok_def\<close>)
qed

lemma merge_step: "sem_rel s a \<Longrightarrow> sem_step_ok A (SemMerge i j) s a"
proof -
  assume r: "sem_rel s a"
  note d = sem_relD [OF r]
  let ?h = "ss_held s ! i" and ?o = "ss_held s ! j"
  show ?thesis
  proof (cases "i < length (ss_held s) \<and> j < length (ss_held s) \<and> i \<noteq> j \<and> unat (sp_permits ?h) + unat (sp_permits ?o) < 2 ^ 32")
    case True
    let ?m = "?h\<lparr>sp_permits := sp_permits ?h + sp_permits ?o\<rparr>"
    let ?s = "s\<lparr>ss_held := drop_nth j ((ss_held s)[i := ?m])\<rparr>"
    have held: "as_held a ! i = unat (sp_permits ?h)" "as_held a ! j = unat (sp_permits ?o)" "length (as_held a) = length (ss_held s)"
      using d(6) True by simp_all
    have "sp_sem ?h = sem_addr" "sp_sem ?o = sem_addr" using d(8) True by simp_all
    then have "sem_op_step A (SemMerge i j) s = Inr (fst (sem_op_spec (SemMerge i j) a), ?s)"
      using True held by (simp add: permit_merge_def permit_drop_def no_permits_added)
    moreover have "unat (sp_permits ?m) = unat (sp_permits ?h) + unat (sp_permits ?o)" using True by (simp add: unat_word_ariths)
    then have "sem_rel ?s (snd (sem_op_spec (SemMerge i j) a))"
      by (intro sem_relI [OF r])
        (use d True held \<open>sp_sem ?h = _\<close> in
          \<open>auto simp: drop_nth_map map_update dest!: in_drop_nthD dest: set_update_subset_insert [THEN subsetD]\<close>)
    ultimately show ?thesis by (auto simp: sem_step_ok_def)
  next
    case False
    then show ?thesis using r d(6) by (auto simp: sem_step_ok_def)
  qed
qed

text \<open>Attempts.\<close>

lemma look_takes:
  assumes rel: "sem_queue_rel fl q a" and k: "0 < unat k" and room: "\<not> as_closed a" "unat k \<le> as_avail a"
  obtains st w where "look_acquire k q = Inr (Inr st, q\<lparr>q_tail := w\<rparr>)"
    "sem_queue_rel fl (q\<lparr>q_tail := w\<rparr>) (a\<lparr>as_avail := as_avail a - unat k\<rparr>)"
proof -
  have q: "sem_ok q (map fst (as_waiting a))" "\<not> sem_is_closed q" "unat k \<le> unat (available_permits q)"
    using rel room by (simp_all add: sem_queue_rel_def)
  obtain st w where w: "look_acquire k q = Inr (Inr st, q\<lparr>q_tail := w\<rparr>)" "sem_ok (q\<lparr>q_tail := w\<rparr>) (map fst (as_waiting a))"
    "map fst (as_waiting a) = []" "unat (available_permits (q\<lparr>q_tail := w\<rparr>)) = unat (available_permits q) - unat k"
    "\<not> sem_is_closed (q\<lparr>q_tail := w\<rparr>)"
    by (rule look_acquire_ok [OF q(1) k q(2,3)])
  have "sem_queue_rel fl (q\<lparr>q_tail := w\<rparr>) (a\<lparr>as_avail := as_avail a - unat k\<rparr>)"
    using rel w(2-5) room by (simp add: sem_queue_rel_def remaining_def)
  with w(1) show ?thesis by (rule that)
qed

lemma look_refuses:
  "sem_queue_rel fl q a \<Longrightarrow> as_closed a \<or> as_avail a < unat k \<Longrightarrow> look_acquire k q = Inr (Inl (state_of usize_state q), q)"
  by (intro look_acquire_refused) (auto simp: sem_queue_rel_def)

lemma try_step: "sem_rel s a \<Longrightarrow> sem_step_ok A (SemTry k) s a"
proof -
  assume r: "sem_rel s a"
  note d = sem_relD [OF r]
  let ?q = "ss_queue s"
  consider "\<not> sem_request k" | "sem_request k" "as_closed a \<or> as_avail a < unat k" | "sem_request k" "\<not> as_closed a" "unat k \<le> as_avail a"
    by fastforce
  then show ?thesis
  proof cases
    case 2
    have "sem_is_closed ?q = as_closed a" using d(1) by (simp add: sem_queue_rel_def)
    then have "try_acquire_many [] sem_addr k ?q = Inr (Inl (if as_closed a then TryClosed else TryNoPermits), ?q)"
      using look_refuses [OF d(1) 2(2)]
      by (auto simp: try_acquire_many_def sem_is_closed_def simp del: fetch_update_state.simps split: option.splits)
    then show ?thesis using 2 r by (auto simp: sem_step_ok_def)
  next
    case 3
    then have pos: "0 < unat k" by (simp add: sem_request_def)
    obtain st w where w: "look_acquire k ?q = Inr (Inr st, ?q\<lparr>q_tail := w\<rparr>)"
      "sem_queue_rel (ss_futures s) (?q\<lparr>q_tail := w\<rparr>) (a\<lparr>as_avail := as_avail a - unat k\<rparr>)"
      by (rule look_takes [OF d(1) pos 3(2,3)])
    let ?s = "s\<lparr>ss_queue := ?q\<lparr>q_tail := w\<rparr>, ss_held := ss_held s @ [\<lparr>sp_sem = sem_addr, sp_permits = k\<rparr>]\<rparr>"
    have "sem_op_step A (SemTry k) s = Inr (fst (sem_op_spec (SemTry k) a), ?s)"
      using 3 w(1) by (simp add: try_acquire_many_def del: fetch_update_state.simps)
    moreover have "sem_rel ?s (snd (sem_op_spec (SemTry k) a))"
      by (intro sem_relI [OF r]) (use d 3 w(2) in \<open>auto simp: abs_took_def\<close>)
    ultimately show ?thesis by (auto simp: sem_step_ok_def)
  qed (use r in \<open>simp add: sem_step_ok_def\<close>)
qed

text \<open>Permits that are available are forgotten.\<close>

lemma waiting_no_state: "sem_queue_rel fl q a \<Longrightarrow> as_waiting a \<noteq> [] \<Longrightarrow> state_of usize_state q = None"
  by (intro sem_state_None) (auto simp: sem_queue_rel_def)

lemma forgotten:
  assumes rel: "sem_queue_rel fl q a" and inv: "abs_inv a" and k: "unat k < 2 ^ 62" and room: "as_waiting a = [] \<longrightarrow> unat k \<le> as_avail a"
  obtains n q' where "forget_permits [] k q = Inr (n, q')" "unat n = (if as_waiting a = [] then min (unat k) (as_avail a) else 0)"
    "sem_queue_rel fl q' (a\<lparr>as_avail := as_avail a - unat n\<rparr>)" "q_locked q' = q_locked q" "node_states q' = node_states q"
proof (cases "as_waiting a = []")
  case True
  obtain st where st: "state_of usize_state q = Some st" using rel True sem_state_Some by (auto simp: sem_queue_rel_def)
  have av: "unat st div 2 = as_avail a" "odd (unat st) \<longleftrightarrow> as_closed a"
    using rel available_unat [OF st] sem_closed_iff [OF st] by (simp_all add: sem_queue_rel_def)
  have le: "unat k \<le> unat (available_permits q)" using room True rel by (simp add: sem_queue_rel_def)
  obtain w st' where w: "forget_permits [] k q = Inr (k, q\<lparr>q_tail := w\<rparr>)" "tail_to_enum usize_state w = State st'"
    "unat st' = unat st - 2 * unat k"
    using forget_permits_cases(2) [OF k st le] by blast
  have "2 * unat k \<le> unat st" using le available_unat [OF st] by simp
  then have "unat st' div 2 = as_avail a - unat k" "odd (unat st') \<longleftrightarrow> as_closed a" using w(3) av by auto
  then have "sem_queue_rel fl (q\<lparr>q_tail := w\<rparr>) (a\<lparr>as_avail := as_avail a - unat k\<rparr>)"
    by (intro sem_queue_rel_tail [OF rel True w(2)]) (use st True in simp_all)
  then show ?thesis by (intro that [OF w(1)]) (use True room in simp_all)
next
  case False
  have "(a\<lparr>as_avail := as_avail a - unat (0 :: usize)\<rparr>) = a" by simp
  then show ?thesis
    by (intro that [of 0 q]) (use False rel forget_permits_cases(1) [OF k waiting_no_state [OF rel False]] in simp_all)
qed

lemma forget_permits_step:
  assumes r: "sem_rel s a" and n: "sem_op_fault (SemForgetPermits k) a = None"
  shows "sem_step_ok A (SemForgetPermits k) s a"
proof (cases "unat k < 2 ^ 62")
  case True
  note d = sem_relD [OF r]
  have room: "as_waiting a = [] \<longrightarrow> unat k \<le> as_avail a" using n True by (auto split: if_splits)
  obtain m q' where q': "forget_permits [] k (ss_queue s) = Inr (m, q')"
    "unat m = (if as_waiting a = [] then min (unat k) (as_avail a) else 0)"
    "sem_queue_rel (ss_futures s) q' (a\<lparr>as_avail := as_avail a - unat m\<rparr>)"
    "q_locked q' = q_locked (ss_queue s)" "node_states q' = node_states (ss_queue s)"
    by (rule forgotten [OF d(1,2) True room])
  let ?s = "s\<lparr>ss_queue := q', ss_budget := ss_budget s + unat m\<rparr>"
  have e: "sem_op_spec (SemForgetPermits k) a = ((SemForgot (unat m), []), a\<lparr>as_avail := as_avail a - unat m, as_budget := as_budget a + unat m\<rparr>)"
    by (simp only: sem_op_spec.simps q'(2) Let_def) (use True in simp)
  have "sem_op_step A (SemForgetPermits k) s = Inr (fst (sem_op_spec (SemForgetPermits k) a), ?s)" unfolding e using True q'(1) by simp
  moreover have "sem_rel ?s (snd (sem_op_spec (SemForgetPermits k) a))"
    by (rule sem_relI [OF r], unfold e) (use d q' in simp_all)
  ultimately show ?thesis by (auto simp: sem_step_ok_def)
qed (use r in \<open>simp add: sem_step_ok_def\<close>)

lemma sem_step_panics:
  assumes r: "sem_rel s a" and e: "sem_op_fault op a = Some e"
  shows "sem_op_step A op s = Inl e"
proof -
  obtain k where k: "op = SemForgetPermits k" "unat k < 2 ^ 62" "as_waiting a = []" "as_avail a < unat k" "e = Panic ''queue state overflow''"
    using e by (cases op) (auto split: if_splits)
  note rel = sem_relD(1) [OF r]
  obtain st where st: "state_of usize_state (ss_queue s) = Some st" using rel k(3) sem_state_Some by (auto simp: sem_queue_rel_def)
  have "unat (available_permits (ss_queue s)) < unat k" using rel k(4) by (simp add: sem_queue_rel_def)
  from forget_permits_cases(3) [OF k(2) st this] show ?thesis using k by simp
qed

context bounded_wakers
begin

lemma give_related:
  assumes r: "sem_rel s a" and room: "as_avail a + unat k < 2 ^ 61"
    and b: "sem_queue_rel (ss_futures s) (ss_queue s) b" "abs_inv b" "as_avail b = as_avail a" "as_waiting b = as_waiting a"
  obtains q' where "add_permits (length (ss_futures s)) A id id k [] (ss_queue s) = Inr (unlocked_wakes (fst (abs_give (unat k) b)), q')"
    "sem_queue_rel (ss_futures s) q' (snd (abs_give (unat k) b))" "\<not> q_locked q'" "dom (node_states q') = fst ` set (ss_futures s)"
  using add_gives [OF b(1,2) sem_relD(4) [OF r], of k "length (ss_futures s)" "[]"] room b(3,4) waiting_length [OF r] sem_relD(5) [OF r]
  by (auto simp: gave_def)

lemma add_step: "sem_rel s a \<Longrightarrow> sem_step_ok A (SemAdd k) s a"
proof -
  assume r: "sem_rel s a"
  note d = sem_relD [OF r]
  show ?thesis
  proof (cases "ss_budget s < unat k")
    case False
    let ?b = "a\<lparr>as_budget := as_budget a - unat k\<rparr>"
    have room: "as_avail a + unat k < 2 ^ 61" using False d(3,7) by (simp add: abs_total_def)
    obtain q' where q': "add_permits (length (ss_futures s)) A id id k [] (ss_queue s) = Inr (unlocked_wakes (fst (abs_give (unat k) ?b)), q')"
      "sem_queue_rel (ss_futures s) q' (snd (abs_give (unat k) ?b))" "\<not> q_locked q'" "dom (node_states q') = fst ` set (ss_futures s)"
      by (rule give_related [OF r room, of ?b]) (use d in simp_all)
    let ?s = "s\<lparr>ss_queue := q', ss_budget := ss_budget s - unat k\<rparr>"
    have e: "sem_op_spec (SemAdd k) a = ((SemNothing, unlocked_wakes (fst (abs_give (unat k) ?b))), snd (abs_give (unat k) ?b))"
      using False d(7) by (simp add: split_beta)
    have "sem_op_step A (SemAdd k) s = Inr (fst (sem_op_spec (SemAdd k) a), ?s)" unfolding e using False q'(1) by simp
    moreover have "sem_rel ?s (snd (sem_op_spec (SemAdd k) a))"
      by (rule sem_relI [OF r], unfold e) (use d q' in simp_all)
    ultimately show ?thesis by (auto simp: sem_step_ok_def)
  qed (use r d(7) in \<open>simp add: sem_step_ok_def\<close>)
qed

lemma drop_step: "sem_rel s a \<Longrightarrow> sem_step_ok A (SemDrop i) s a"
proof -
  assume r: "sem_rel s a"
  note d = sem_relD [OF r]
  show ?thesis
  proof (cases "i < length (ss_held s)")
    case True
    let ?k = "ucast (sp_permits (ss_held s ! i)) :: usize" and ?b = "a\<lparr>as_held := drop_nth i (as_held a)\<rparr>"
    have k: "as_held a ! i = unat ?k" "length (as_held a) = length (ss_held s)" using d(6) True by (simp_all add: u32_permits)
    then have room: "as_avail a + unat ?k < 2 ^ 61" using sum_drop_nth [of i "as_held a"] True d(3) by (simp add: abs_total_def)
    obtain q' where q': "add_permits (length (ss_futures s)) A id id ?k [] (ss_queue s) = Inr (unlocked_wakes (fst (abs_give (unat ?k) ?b)), q')"
      "sem_queue_rel (ss_futures s) q' (snd (abs_give (unat ?k) ?b))" "\<not> q_locked q'" "dom (node_states q') = fst ` set (ss_futures s)"
      by (rule give_related [OF r room, of ?b]) (use d in simp_all)
    let ?s = "s\<lparr>ss_queue := q', ss_held := drop_nth i (ss_held s)\<rparr>"
    have e: "sem_op_spec (SemDrop i) a = ((SemNothing, unlocked_wakes (fst (abs_give (unat ?k) ?b))), snd (abs_give (unat ?k) ?b))"
      using True k by (simp add: split_beta)
    have "sem_op_step A (SemDrop i) s = Inr (fst (sem_op_spec (SemDrop i) a), ?s)"
      unfolding e using True q'(1) by (simp add: permit_drop_def)
    moreover have "sem_rel ?s (snd (sem_op_spec (SemDrop i) a))"
      by (rule sem_relI [OF r], unfold e) (use d q' in \<open>auto simp: drop_nth_map dest: in_drop_nthD\<close>)
    ultimately show ?thesis by (auto simp: sem_step_ok_def)
  qed (use r d(6) in \<open>simp add: sem_step_ok_def\<close>)
qed

lemma cancel_step: "sem_rel s a \<Longrightarrow> sem_step_ok A (SemCancel p) s a"
proof -
  assume r: "sem_rel s a"
  note d = sem_relD [OF r]
  show ?thesis
  proof (cases "map_of (ss_futures s) p")
    case None
    then show ?thesis using r sem_queue_rel_future [OF d(1), of p] by (simp add: sem_step_ok_def)
  next
    case (Some k)
    let ?b = "if sem_loses (SemCancel p) a then ([], abs_lose p (unat k - remaining (ss_queue s) p) a) else abs_drop p a"
    have f: "map_of (as_futures a) p = Some (unat k, remaining (ss_queue s) p)" using sem_queue_rel_future [OF d(1), of p] Some by simp
    have "\<exists>q'. acquire_drop (length (ss_futures s)) A id id p k [] (ss_queue s) = Inr (unlocked_wakes (fst ?b), q')
        \<and> sem_queue_rel (without p (ss_futures s)) q' (snd ?b) \<and> \<not> q_locked q'
        \<and> dom (node_states q') = dom (node_states (ss_queue s)) - {p}"
    proof (cases "sem_loses (SemCancel p) a")
      case True
      with acquire_drop_loses [OF d(1,2,4) Some True d(3), of "length (ss_futures s)" "[]"] show ?thesis by simp
    next
      case False
      then have "p \<in> fst ` set (as_waiting a) \<Longrightarrow> fst (last (as_waiting a)) = p \<Longrightarrow> unat k \<le> remaining (ss_queue s) p"
        using f by auto
      with acquire_drop_refines [OF d(1,2,4) Some _ d(3) waiting_length [OF r], of "[]"] False show ?thesis by simp
    qed
    then obtain q' where q': "acquire_drop (length (ss_futures s)) A id id p k [] (ss_queue s) = Inr (unlocked_wakes (fst ?b), q')"
        "sem_queue_rel (without p (ss_futures s)) q' (snd ?b)" "\<not> q_locked q'"
        "dom (node_states q') = dom (node_states (ss_queue s)) - {p}" by blast
    let ?s = "s\<lparr>ss_queue := q', ss_futures := without p (ss_futures s)\<rparr>"
    have e: "sem_op_spec (SemCancel p) a = ((SemNothing, unlocked_wakes (fst ?b)), snd ?b)"
      using f by (simp add: split_beta del: sem_loses.simps)
    have "sem_op_step A (SemCancel p) s = Inr (fst (sem_op_spec (SemCancel p) a), ?s)"
      unfolding e using Some q'(1) by (simp add: acquire_many_drop_def)
    moreover have "sem_rel ?s (snd (sem_op_spec (SemCancel p) a))"
      by (rule sem_relI [OF r], unfold e) (use d q' in \<open>simp_all del: sem_loses.simps\<close>)
    ultimately show ?thesis by (auto simp: sem_step_ok_def)
  qed
qed

end

text \<open>A new future: its node exists before anything is known about its permits.\<close>

lemma new_node_rel:
  assumes rel: "sem_queue_rel fl q a" and p: "node_addr p" "q_links q p = None" "p \<notin> fst ` set fl" and inv: "abs_inv a"
  shows "sem_queue_rel fl (node_with_data p d q) a" and "node_states (node_with_data p d q) = (node_states q)(p \<mapsto> Unqueued)"
proof -
  have n: "p \<notin> fst ` set (as_waiting a)" "p \<notin> fst ` set (as_futures a)"
    using inv sem_queue_rel_keys [OF rel] p(3) by (auto simp: abs_inv_def waiting_inv_def)
  have "queue_wf usize_state q (map fst (as_waiting a))" using rel by (simp add: sem_queue_rel_def sem_ok_def)
  then have wf: "queue_wf usize_state (node_with_data p d q) (map fst (as_waiting a))"
    and st: "node_states (node_with_data p d q) = (node_states q)(p \<mapsto> Unqueued)" using p(1,2) by (rule usize_qs.wf_alloc)+
  show "node_states (node_with_data p d q) = (node_states q)(p \<mapsto> Unqueued)" by (rule st)
  have word: "unat (available_permits (node_with_data p d q)) = as_avail a" "sem_is_closed (node_with_data p d q) = as_closed a"
    using rel by (simp_all add: sem_queue_rel_def available_permits_def sem_is_closed_def state_of_def node_with_data_def)
  have "sem_queue_rel (without p fl) (node_with_data p d q) (abs_without p a)"
    by (rule sem_queue_rel_left [OF rel inv _ word]) (use wf n st in \<open>simp_all add: without_id node_with_data_def\<close>)
  then show "sem_queue_rel fl (node_with_data p d q) a" using n p(3) by (simp add: without_id)
qed

lemma enqueued_rel:
  assumes rel: "sem_queue_rel fl q a" and inv: "abs_inv a" and p: "p \<notin> fst ` set fl"
    and ok: "sem_ok q' (map fst (as_waiting a) @ [p])" and st: "node_states q' = (node_states q)(p \<mapsto> Queued)"
    and d: "q_data q' = (q_data q)(p \<mapsto> \<lparr>sw_waker = Some cx, sw_permits_remaining = rem\<rparr>)"
    and rem: "unat rem = unat k - as_avail a" and op: "\<not> as_closed a"
  shows "sem_queue_rel (fl @ [(p, k)]) q' (a\<lparr>as_avail := 0, as_waiting := as_waiting a @ [(p, cx)],
    as_futures := as_futures a @ [(p, unat k, unat k - as_avail a)]\<rparr>)"
proof -
  have n: "p \<notin> fst ` set (as_waiting a)" using inv sem_queue_rel_keys [OF rel] p by (auto simp: abs_inv_def waiting_inv_def)
  have same: "x \<noteq> p \<Longrightarrow> sem_waker_of q' x = sem_waker_of q x \<and> remaining q' x = remaining q x" for x
    using d by (simp add: sem_waker_of_def remaining_def)
  have new: "sem_waker_of q' p = cx" "remaining q' p = unat k - as_avail a" using d rem by (simp_all add: sem_waker_of_def remaining_def)
  have "map (sem_waker_of q') (map fst (as_waiting a)) = map (sem_waker_of q) (map fst (as_waiting a))"
    using same n by (intro map_cong refl) (metis list.set_map)
  moreover have "map (\<lambda>(p, k). (p, unat k, remaining q' p)) fl = map (\<lambda>(p, k). (p, unat k, remaining q p)) fl"
    using same p by (intro map_cong) force+
  moreover have "q_data q' x \<noteq> None \<and> node_states q' x = Some (if x \<in> fst ` set (as_waiting a @ [(p, cx)]) then Queued else Dequeued)"
    if "x \<in> fst ` set (fl @ [(p, k)])" for x
    using sem_queue_rel_node [OF rel, of x] that d st by (cases "x = p") auto
  moreover have "state_of usize_state q' = None" using sem_state_None [OF ok] by simp
  ultimately show ?thesis using rel ok op new no_state [of q'] by (simp add: sem_queue_rel_def)
qed

text \<open>The first poll of a future, in the three situations.\<close>

lemma start_takes:
  assumes rel: "sem_queue_rel fl q a" and k: "0 < unat k" and room: "\<not> as_closed a" "unat k \<le> as_avail a"
  obtains q' where "acquire_many_poll n A id id [] [] sem p k cx AcquireStart log q
      = Inr (Ready (Inr \<lparr>sp_sem = sem, sp_permits = k\<rparr>), AcquireDone, log, q')"
    "sem_queue_rel fl q' (a\<lparr>as_avail := as_avail a - unat k\<rparr>)" "q_locked q' = q_locked q" "node_states q' = node_states q"
proof -
  obtain st w where w: "look_acquire k q = Inr (Inr st, q\<lparr>q_tail := w\<rparr>)"
    "sem_queue_rel fl (q\<lparr>q_tail := w\<rparr>) (a\<lparr>as_avail := as_avail a - unat k\<rparr>)"
    by (rule look_takes [OF rel k room])
  show ?thesis
    by (rule that [of "q\<lparr>q_tail := w\<rparr>"]) (use w in \<open>simp_all add: acquire_many_poll_def acquire_many_def del: fetch_update_state.simps\<close>)
qed

lemma start_refused:
  assumes rel: "sem_queue_rel fl q a" and inv: "abs_inv a" and lk: "\<not> q_locked q"
    and p: "node_addr p" "q_links q p = None" "p \<notin> fst ` set fl" and room: "as_closed a \<or> as_avail a < unat k"
  defines "q1 \<equiv> node_with_data p sem_waiter_default q"
  shows "acquire_many_poll n A id id [] [] sem p k cx AcquireStart log q
      = bind_res (poll_acquire_loop [] p cx k q1) (\<lambda>(res, q). case res of
          Pending \<Rightarrow> Inr (Pending, AcquireAwait k, log, q)
        | Ready r \<Rightarrow> bind_res (acquire_drop n A id id p (if res = Ready (Inr ()) then 0 else k) log q) (\<lambda>(log, q).
            Inr (Ready (case r of Inl e \<Rightarrow> Inl e | Inr _ \<Rightarrow> Inr \<lparr>sp_sem = sem, sp_permits = k\<rparr>), AcquireDone, log, q)))"
proof -
  have "node_states q1 p = Some Unqueued" "\<not> q_locked q1"
    using new_node_rel(2) [OF rel p inv] lk by (simp_all add: q1_def node_with_data_def)
  then show ?thesis
    using look_refuses [OF rel room] node_state_eq [of q1 p Unqueued]
    by (auto simp: acquire_many_poll_def acquire_many_def acquire_await_def acquire_poll_def poll_acquire_def q1_def bind_res_def
        simp del: fetch_update_state.simps split: sum.split poll.split)
qed

lemma start_closed:
  assumes rel: "sem_queue_rel fl q a" and inv: "abs_inv a" and lk: "\<not> q_locked q"
    and p: "node_addr p" "q_links q p = None" "p \<notin> fst ` set fl" and closed: "as_closed a"
  obtains q' where "acquire_many_poll n A id id [] [] sem p k cx AcquireStart log q = Inr (Ready (Inl AcquireError), AcquireDone, log, q')"
    "sem_queue_rel fl q' a" "\<not> q_locked q'" "node_states q' = (node_states q)(p := None)"
proof -
  let ?q = "node_with_data p sem_waiter_default q"
  note new = new_node_rel [OF rel p inv, of sem_waiter_default]
  have st: "node_states ?q p = Some Unqueued" "\<not> q_locked ?q" using new(2) lk by (simp_all add: node_with_data_def)
  have "sem_is_closed ?q" using new(1) closed by (simp add: sem_queue_rel_def)
  then have "poll_acquire_loop [] p cx k ?q = Inr (Ready (Inl AcquireError), ?q)"
    by (simp add: poll_acquire_loop.simps look_acquire_refused sem_is_closed_def del: fetch_update_state.simps)
  moreover have "acquire_drop n A id id p k log ?q = Inr (log, node_free p ?q)"
    using node_state_eq [OF st(2,1)] raw_state_eq [OF st(1)] by (simp add: acquire_drop_def cancel_def node_drop_def)
  ultimately have "acquire_many_poll n A id id [] [] sem p k cx AcquireStart log q
      = Inr (Ready (Inl AcquireError), AcquireDone, log, node_free p ?q)"
    using start_refused [OF rel inv lk p, of k n A sem cx log] closed by simp
  then show ?thesis
    by (rule that) (use sem_queue_rel_free [OF new(1) p(3) inv] new(2) st in \<open>simp_all add: node_free_def\<close>)
qed

lemma start_waits:
  assumes rel: "sem_queue_rel fl q a" and inv: "abs_inv a" and lk: "\<not> q_locked q"
    and p: "node_addr p" "q_links q p = None" "p \<notin> fst ` set fl" and room: "\<not> as_closed a" "as_avail a < unat k" and k: "unat k < 2 ^ 31"
  obtains q' where "acquire_many_poll n A id id [] [] sem p k cx AcquireStart log q = Inr (Pending, AcquireAwait k, log, q')"
    "sem_queue_rel (fl @ [(p, k)]) q' (a\<lparr>as_avail := 0, as_waiting := as_waiting a @ [(p, cx)],
       as_futures := as_futures a @ [(p, unat k, unat k - as_avail a)]\<rparr>)"
    "\<not> q_locked q'" "node_states q' = (node_states q)(p \<mapsto> Queued)"
proof -
  let ?q = "node_with_data p sem_waiter_default q"
  note new = new_node_rel [OF rel p inv, of sem_waiter_default]
  have st: "node_states ?q p = Some Unqueued" "q_data ?q p = Some sem_waiter_default" "\<not> q_locked ?q"
    using new(2) lk by (simp_all add: node_with_data_def)
  have q: "sem_ok ?q (map fst (as_waiting a))" "\<not> sem_is_closed ?q" "unat (available_permits ?q) < unat k"
    "unat (available_permits ?q) = as_avail a"
    using new(1) room by (simp_all add: sem_queue_rel_def)
  obtain q' rem where q': "poll_acquire_loop [] p cx k ?q = Inr (Pending, q')" "sem_ok q' (map fst (as_waiting a) @ [p])"
    "q_locked q' = q_locked ?q"
    "q_data q' = (q_data ?q)(p \<mapsto> \<lparr>sw_waker = Some (case sw_waker sem_waiter_default of None \<Rightarrow> cx | Some k \<Rightarrow> k), sw_permits_remaining = rem\<rparr>)"
    "unat rem = unat k - unat (available_permits ?q) mod 2 ^ 31" "node_states q' = (node_states ?q)(p \<mapsto> Queued)"
    by (rule poll_acquire_enqueues [OF q(1) st(1,2) q(2,3)])
  have "unat rem = unat k - as_avail a" using q'(5) q(4) room(2) k by simp
  then have "sem_queue_rel (fl @ [(p, k)]) q' (a\<lparr>as_avail := 0, as_waiting := as_waiting a @ [(p, cx)],
      as_futures := as_futures a @ [(p, unat k, unat k - as_avail a)]\<rparr>)"
    by (intro enqueued_rel [OF new(1) inv p(3) q'(2,6)]) (use q'(4) room(1) in \<open>simp_all add: sem_waiter_default_def\<close>)
  moreover have "acquire_many_poll n A id id [] [] sem p k cx AcquireStart log q = Inr (Pending, AcquireAwait k, log, q')"
    using start_refused [OF rel inv lk p, of k n A sem cx log] room q'(1) by simp
  ultimately show ?thesis using st(3) q'(3,6) new(2) by (intro that) auto
qed

lemma start_step: "sem_rel s a \<Longrightarrow> sem_step_ok A (SemStart p k cx) s a"
proof -
  assume r: "sem_rel s a"
  note d = sem_relD [OF r]
  let ?q = "ss_queue s" and ?op = "SemStart p k cx"
  show ?thesis
  proof (cases "sem_request k \<and> node_addr p \<and> q_links ?q p = None")
    case True
    then have k: "0 < unat k" "unat k < 2 ^ 31" and p: "node_addr p" "q_links ?q p = None" "p \<notin> fst ` set (ss_futures s)"
      and g: "map_of (as_futures a) p = None" and n: "node_states ?q p = None"
      using free_node [OF r] sem_queue_rel_keys [OF d(1)] by (auto simp: sem_request_def map_of_eq_None_iff node_states_def)
    have wo: "without p (ss_futures s @ [(p, k)]) = ss_futures s" using p(3) without_id by (simp add: without_def)
    consider (closed) "as_closed a" | (wait) "\<not> as_closed a" "as_avail a < unat k" | (take) "\<not> as_closed a" "unat k \<le> as_avail a" by fastforce
    then obtain s' where "sem_op_step A ?op s = Inr (fst (sem_op_spec ?op a), s')" "sem_rel s' (snd (sem_op_spec ?op a))"
    proof cases
      case closed
      obtain q' where q': "acquire_many_poll (length (ss_futures s)) A id id [] [] sem_addr p k cx AcquireStart [] ?q
          = Inr (Ready (Inl AcquireError), AcquireDone, [], q')"
        "sem_queue_rel (ss_futures s) q' a" "\<not> q_locked q'" "node_states q' = (node_states ?q)(p := None)"
        by (rule start_closed [OF d(1,2,4) p closed])
      show ?thesis
        by (rule that [of "s\<lparr>ss_queue := q'\<rparr>"])
          (use closed True g q' wo n d in \<open>auto simp: sem_polled_def sem_rel_def abs_ok_def fun_upd_idem\<close>)
    next
      case wait
      obtain q' where q': "acquire_many_poll (length (ss_futures s)) A id id [] [] sem_addr p k cx AcquireStart [] ?q
          = Inr (Pending, AcquireAwait k, [], q')"
        "sem_queue_rel (ss_futures s @ [(p, k)]) q' (a\<lparr>as_avail := 0, as_waiting := as_waiting a @ [(p, cx)],
           as_futures := as_futures a @ [(p, unat k, unat k - as_avail a)]\<rparr>)"
        "\<not> q_locked q'" "node_states q' = (node_states ?q)(p \<mapsto> Queued)"
        by (rule start_waits [OF d(1,2,4) p wait k(2)])
      let ?s = "s\<lparr>ss_queue := q', ss_futures := ss_futures s @ [(p, k)]\<rparr>"
      have "sem_rel ?s (snd (sem_op_spec ?op a))" by (rule sem_relI [OF r]) (use wait True g q' d in auto)
      then show ?thesis by (intro that [of ?s]) (use wait True g q'(1) in \<open>simp_all add: sem_polled_def\<close>)
    next
      case take
      obtain q' where q': "acquire_many_poll (length (ss_futures s)) A id id [] [] sem_addr p k cx AcquireStart [] ?q
          = Inr (Ready (Inr \<lparr>sp_sem = sem_addr, sp_permits = k\<rparr>), AcquireDone, [], q')"
        "sem_queue_rel (ss_futures s) q' (a\<lparr>as_avail := as_avail a - unat k\<rparr>)" "q_locked q' = q_locked ?q" "node_states q' = node_states ?q"
        by (rule start_takes [OF d(1) k(1) take])
      let ?s = "s\<lparr>ss_queue := q', ss_held := ss_held s @ [\<lparr>sp_sem = sem_addr, sp_permits = k\<rparr>]\<rparr>"
      have "sem_rel ?s (snd (sem_op_spec ?op a))" by (rule sem_relI [OF r]) (use take True g q' d in \<open>auto simp: abs_took_def\<close>)
      then show ?thesis by (intro that [of ?s]) (use take True g q'(1) wo in \<open>simp_all add: sem_polled_def\<close>)
    qed
    then show ?thesis unfolding sem_step_ok_def by blast
  next
    case False
    then have "sem_op_spec ?op a = ((SemNothing, []), a)" "sem_op_step A ?op s = Inr ((SemNothing, []), s)"
      using free_node [OF r, of p] by auto
    then show ?thesis using r by (simp add: sem_step_ok_def)
  qed
qed

lemma closed_word: "unat (st OR SEM_CLOSED) div 2 = unat (st :: usize) div 2" "odd (unat (st OR SEM_CLOSED))"
proof -
  have "unat (st OR SEM_CLOSED) = unat st OR 1" by (simp add: SEM_CLOSED_def unsigned_or_eq)
  then have e: "unat (st OR SEM_CLOSED) = unat st + of_bool (even (unat st))" by (simp only: or_one_eq)
  show "unat (st OR SEM_CLOSED) div 2 = unat st div 2" "odd (unat (st OR SEM_CLOSED))" unfolding e by (cases "even (unat st)"; simp)+
qed

lemma close_empty:
  assumes rel: "sem_queue_rel fl q a" and e: "as_waiting a = []"
  obtains q' where "sem_close n A d id others log q = Inr (log, q')"
    "sem_queue_rel fl q' (a\<lparr>as_closed := True, as_waiting := []\<rparr>)" "q_locked q' = q_locked q" "node_states q' = node_states q"
proof -
  obtain st where st: "state_of usize_state q = Some st" using rel e sem_state_Some by (auto simp: sem_queue_rel_def)
  have av: "unat st div 2 = as_avail a" using rel available_unat [OF st] by (simp add: sem_queue_rel_def)
  let ?st = "st OR SEM_CLOSED"
  have "unat ?st div 2 < 2 ^ 62" unfolding closed_word(1) using sem_state_bound [OF st] by (simp add: div_less_iff_less_mult)
  then have "unat ?st < 2 ^ 63" by (simp add: div_less_iff_less_mult)
  then obtain w where w: "enum_to_tail usize_state (State ?st) = Inr w" "tail_to_enum usize_state w = State ?st" by (rule encode_state_word)
  have "sem_close n A d id others log q = Inr (log, q\<lparr>q_tail := w\<rparr>)"
    using w(1) by (simp add: sem_close_def fetch_update_state_or_lock_def fetch_update_state_or_locked_def fetch_update_empty [OF st] del: fetch_update_state.simps)
  moreover have "sem_queue_rel fl (q\<lparr>q_tail := w\<rparr>) (a\<lparr>as_closed := True, as_waiting := []\<rparr>)"
    by (rule sem_queue_rel_tail [OF rel e w(2)]) (use st av closed_word [of st] in auto)
  ultimately show ?thesis by (rule that) simp_all
qed

lemma closed_rel:
  assumes rel: "sem_queue_rel fl q a" and inv: "abs_inv a" and w: "as_waiting a \<noteq> []" and wf: "queue_wf usize_state q' []"
    and st: "state_of usize_state q' = Some SEM_CLOSED"
    and data: "q_data q' = (\<lambda>x. if x \<in> fst ` set (as_waiting a) then map_option (\<lambda>w. w\<lparr>sw_waker := None\<rparr>) (q_data q x) else q_data q x)"
    and states: "node_states q' = (\<lambda>x. if x \<in> fst ` set (as_waiting a) then Some Dequeued else node_states q x)"
  shows "sem_queue_rel fl q' (a\<lparr>as_closed := True, as_waiting := []\<rparr>)"
proof -
  have "as_avail a = 0" using inv w by (auto simp: abs_inv_def waiting_inv_def)
  moreover have "unat (available_permits q') = 0" "sem_is_closed q'"
    using available_unat [OF st] sem_closed_iff [OF st] by (simp_all add: SEM_CLOSED_def)
  moreover have "remaining q' x = remaining q x" if "x \<in> fst ` set fl" for x
    using sem_queue_rel_node [OF rel that] by (auto simp: remaining_def data)
  then have "map (\<lambda>(p, k). (p, unat k, remaining q' p)) fl = map (\<lambda>(p, k). (p, unat k, remaining q p)) fl" by force
  moreover have "q_data q' x \<noteq> None \<and> node_states q' x = Some Dequeued" if "x \<in> fst ` set fl" for x
    using sem_queue_rel_node [OF rel that] by (auto simp: data states)
  ultimately show ?thesis using rel wf by (simp add: sem_queue_rel_def sem_ok_def)
qed

text \<open>The later polls.\<close>

lemma rewaked_rel:
  assumes rel: "sem_queue_rel fl q a" and ok: "sem_ok q' (map fst (as_waiting a))"
    and q': "q' = q\<lparr>q_data := (q_data q)(p \<mapsto> w\<lparr>sw_waker := Some cx\<rparr>)\<rparr>" and w: "q_data q p = Some w"
  shows "sem_queue_rel fl q' (a\<lparr>as_waiting := assign p cx (as_waiting a)\<rparr>)"
proof -
  have r: "remaining q' x = remaining q x" "sem_waker_of q' x = (if x = p then cx else sem_waker_of q x)" for x
    using w by (simp_all add: q' remaining_def sem_waker_of_def)
  have "map (sem_waker_of q) (map fst (as_waiting a)) = map snd (as_waiting a)" using rel by (simp add: sem_queue_rel_def)
  then have "map (sem_waker_of q') (map fst (as_waiting a)) = map snd (assign p cx (as_waiting a))"
    by (auto simp: r assign_def)
  moreover have "available_permits q' = available_permits q" "sem_is_closed q' = sem_is_closed q" "node_states q' = node_states q"
    by (simp_all add: q' available_permits_def sem_is_closed_def state_of_def node_states_def)
  moreover have "q_data q x \<noteq> None \<Longrightarrow> q_data q' x \<noteq> None" for x by (simp add: q')
  ultimately show ?thesis using rel ok unfolding sem_queue_rel_def by (simp add: r)
qed

lemma poll_waiting:
  assumes rel: "sem_queue_rel fl q a" and lk: "\<not> q_locked q" and p: "p \<in> fst ` set fl" and w: "p \<in> fst ` set (as_waiting a)"
  obtains q' where "acquire_many_poll n A id id [] [] sem p k cx (AcquireAwait k) log q = Inr (Pending, AcquireAwait k, log, q')"
    "sem_queue_rel fl q' (a\<lparr>as_waiting := assign p cx (as_waiting a)\<rparr>)" "\<not> q_locked q'" "node_states q' = node_states q"
proof -
  have ok: "sem_ok q (map fst (as_waiting a))" and mem: "p \<in> set (map fst (as_waiting a))" using rel w by (simp_all add: sem_queue_rel_def)
  obtain d where d: "q_data q p = Some d" "node_states q p = Some Queued" using sem_queue_rel_node [OF rel p] w by auto
  let ?q = "q\<lparr>q_data := (q_data q)(p \<mapsto> d\<lparr>sw_waker := Some cx\<rparr>)\<rparr>"
  have view: "node_state p id q = Inr (NodeQueued, q\<lparr>q_locked := True\<rparr>)" using node_state_eq [OF lk d(2)] by simp
  note r = poll_acquire_queued [OF ok lk mem d(1) view, where cx = cx]
  have "acquire_many_poll n A id id [] [] sem p k cx (AcquireAwait k) log q = Inr (Pending, AcquireAwait k, log, ?q)"
    using r(1) by (simp add: acquire_many_poll_def acquire_await_def acquire_poll_def)
  then show ?thesis
    by (rule that [OF _ rewaked_rel [OF rel r(2) refl d(1)]]) (use lk in \<open>simp_all add: node_states_def fun_eq_iff\<close>)
qed

lemma poll_finished:
  assumes rel: "sem_queue_rel fl q a" and inv: "abs_inv a" and lk: "\<not> q_locked q" and p: "p \<in> fst ` set fl" "p \<notin> fst ` set (as_waiting a)"
    and op: "\<not> as_closed a"
  obtains q' where "acquire_many_poll n A id id [] [] sem p k cx (AcquireAwait k) log q
      = Inr (Ready (Inr \<lparr>sp_sem = sem, sp_permits = k\<rparr>), AcquireDone, log, q')"
    "sem_queue_rel (without p fl) q' (a\<lparr>as_futures := without p (as_futures a)\<rparr>)" "\<not> q_locked q'"
    "node_states q' = (node_states q)(p := None)"
proof -
  have st: "node_states q p = Some Dequeued" using sem_queue_rel_node [OF rel p(1)] p(2) by simp
  have "\<not> sem_is_closed q" using rel op by (simp add: sem_queue_rel_def)
  then have run: "acquire_many_poll n A id id [] [] sem p k cx (AcquireAwait k) log q
      = Inr (Ready (Inr \<lparr>sp_sem = sem, sp_permits = k\<rparr>), AcquireDone, log, node_free p q)"
    using node_state_eq [OF lk st] raw_state_eq [OF st]
    by (simp add: acquire_many_poll_def acquire_await_def acquire_poll_def poll_acquire_def acquire_drop_def node_drop_def)
  have w: "without p (as_waiting a) = as_waiting a" using p(2) by (rule without_id)
  have "sem_queue_rel (without p fl) q (abs_without p a)"
    by (rule sem_queue_rel_left [OF rel inv]) (use rel w in \<open>auto simp: sem_queue_rel_def sem_ok_def\<close>)
  then have g: "sem_queue_rel (without p fl) q (a\<lparr>as_futures := without p (as_futures a)\<rparr>)" using w by simp
  have i: "abs_inv (a\<lparr>as_futures := without p (as_futures a)\<rparr>)"
    using inv without_inv [of "as_closed a" "as_avail a" "as_waiting a" "as_futures a" p] w by (simp add: abs_inv_def)
  have n: "p \<notin> fst ` set (without p fl)" by simp
  show ?thesis
    by (rule that [OF run sem_queue_rel_free(1) [OF g n i] _ sem_queue_rel_free(2) [OF g n i]]) (use lk in \<open>simp add: node_free_def\<close>)
qed

context bounded_wakers
begin

text \<open>Closing.\<close>

lemma close_refines:
  assumes rel: "sem_queue_rel fl q a" and inv: "abs_inv a" and lk: "\<not> q_locked q" and d: "node_addr d" "q_links q d = None"
    and n: "length (as_waiting a) < n"
  shows "\<exists>q'. sem_close n A d id id log q = Inr (log @ unlocked_wakes (map snd (as_waiting a)), q')
    \<and> sem_queue_rel fl q' (a\<lparr>as_closed := True, as_waiting := []\<rparr>) \<and> \<not> q_locked q' \<and> dom (node_states q') = dom (node_states q)"
proof (cases "as_waiting a = []")
  case True
  obtain q' where "sem_close n A d id id log q = Inr (log, q')" "sem_queue_rel fl q' (a\<lparr>as_closed := True, as_waiting := []\<rparr>)"
    "q_locked q' = q_locked q" "node_states q' = node_states q"
    by (rule close_empty [OF rel True])
  then show ?thesis using lk True by simp
next
  case False
  let ?ns = "map fst (as_waiting a)" and ?get = "\<lambda>w. bind_res (unwrap UNWRAP_NONE (sw_waker w)) (\<lambda>k. Inr (Some k))"
    and ?upd = "\<lambda>w. w\<lparr>sw_waker := None\<rparr>" and ?q = "q\<lparr>q_locked := True\<rparr>"
  have ok: "sem_ok q ?ns" and wk: "map (sem_waker_of q) ?ns = map snd (as_waiting a)" using rel by (auto simp: sem_queue_rel_def)
  have D: "\<forall>x\<in>set ?ns. \<exists>w. q_data ?q x = Some w \<and> ?get w = Inr (Some (sem_waker_of q x))"
    using ok by (fastforce simp: sem_ok_def sem_waker_of_def unwrap_def)
  have wf: "queue_wf usize_state ?q ?ns" "q_locked ?q" "q_links ?q d = None" "length ?ns < n" using ok d n by (simp_all add: sem_ok_def)
  have st: "SEM_CLOSED \<le> INTRUSIVE_QUEUE_MAX_STATE" by (simp add: SEM_CLOSED_def max_state_value)
  obtain q' where q': "drain_wakers A ?get ?upd n SEM_CLOSED d id log ?q = Inr (log @ unlocked_wakes (wakers_of (\<lambda>x. Some (sem_waker_of q x)) ?ns), q')"
    "queue_wf usize_state q' []" "\<not> q_locked q'" "state_of usize_state q' = (if ?ns = [] then state_of usize_state ?q else Some SEM_CLOSED)"
    "q_data q' = (\<lambda>x. if x \<in> set ?ns then map_option ?upd (q_data ?q x) else q_data ?q x)"
    "node_states q' = (\<lambda>x. if x \<in> set ?ns then Some Dequeued else node_states ?q x)"
    by (rule drain_wakers_alone [OF wf(1-3) d(1) D st wf(4)])
  have "sem_close n A d id id log q = Inr (log @ unlocked_wakes (map snd (as_waiting a)), q')"
    using q'(1) lock_nonempty(1) [where gap = id, of q] sem_state_None [OF ok] False lk wakers_of_Some [of ?ns _ "sem_waker_of q"] wk
    by (simp add: sem_close_def)
  moreover have "sem_queue_rel fl q' (a\<lparr>as_closed := True, as_waiting := []\<rparr>)"
    by (rule closed_rel [OF rel inv False]) (use q' False in auto)
  moreover have "dom (node_states q') = dom (node_states q)"
    using q'(6) queue_wf_queued_iff [OF sem_ok_wf [OF ok]] by (auto simp: dom_def)
  ultimately show ?thesis using q'(3) by blast
qed

lemma poll_step: "sem_rel s a \<Longrightarrow> sem_step_ok A (SemPoll p cx) s a"
proof -
  assume r: "sem_rel s a"
  note d = sem_relD [OF r]
  let ?q = "ss_queue s" and ?op = "SemPoll p cx" and ?fl = "ss_futures s"
  show ?thesis
  proof (cases "map_of ?fl p")
    case None
    then show ?thesis using r sem_queue_rel_future [OF d(1), of p] by (simp add: sem_step_ok_def)
  next
    case (Some k)
    have f: "map_of (as_futures a) p = Some (unat k, remaining ?q p)" using sem_queue_rel_future [OF d(1), of p] Some by simp
    have p: "p \<in> fst ` set ?fl" using map_of_SomeD [OF Some] by force
    consider (wait) "p \<in> fst ` set (as_waiting a)" | (closed) "p \<notin> fst ` set (as_waiting a)" "as_closed a"
      | (ready) "p \<notin> fst ` set (as_waiting a)" "\<not> as_closed a" by blast
    then obtain s' where "sem_op_step A ?op s = Inr (fst (sem_op_spec ?op a), s')" "sem_rel s' (snd (sem_op_spec ?op a))"
    proof cases
      case wait
      obtain q' where q': "acquire_many_poll (length ?fl) A id id [] [] sem_addr p k cx (AcquireAwait k) [] ?q = Inr (Pending, AcquireAwait k, [], q')"
        "sem_queue_rel ?fl q' (a\<lparr>as_waiting := assign p cx (as_waiting a)\<rparr>)" "\<not> q_locked q'" "node_states q' = node_states ?q"
        by (rule poll_waiting [OF d(1,4) p wait])
      have "sem_rel (s\<lparr>ss_queue := q'\<rparr>) (snd (sem_op_spec ?op a))" by (rule sem_relI [OF r]) (use wait f q' d in auto)
      then show ?thesis by (intro that [of "s\<lparr>ss_queue := q'\<rparr>"]) (use wait f Some q'(1) in \<open>simp_all add: sem_polled_def\<close>)
    next
      case closed
      have "node_states ?q p = Some Dequeued" "sem_is_closed ?q" using sem_queue_rel_node [OF d(1) p] closed d(1) by (simp_all add: sem_queue_rel_def)
      then have poll: "poll_acquire id [] p cx k ?q = Inr (Ready (Inl AcquireError), ?q)"
        using node_state_eq [OF d(4)] by (simp add: poll_acquire_def)
      obtain q' where q': "acquire_drop (length ?fl) A id id p k [] ?q = Inr (unlocked_wakes (fst (abs_drop p a)), q')"
        "sem_queue_rel (without p ?fl) q' (snd (abs_drop p a))" "\<not> q_locked q'" "dom (node_states q') = dom (node_states ?q) - {p}"
        using acquire_drop_refines [OF d(1,2,4) Some _ d(3) waiting_length [OF r], of "[]"] closed(1) by auto
      let ?s = "s\<lparr>ss_queue := q', ss_futures := without p ?fl\<rparr>"
      have e: "sem_op_spec ?op a = ((SemClosed, unlocked_wakes (fst (abs_drop p a))), snd (abs_drop p a))"
        using f closed by (simp add: split_beta)
      have "sem_op_step A ?op s = Inr (fst (sem_op_spec ?op a), ?s)"
        unfolding e using Some poll q'(1) by (simp add: acquire_many_poll_def acquire_await_def acquire_poll_def sem_polled_def)
      moreover have "sem_rel ?s (snd (sem_op_spec ?op a))" by (rule sem_relI [OF r], unfold e) (use d q' in simp_all)
      ultimately show ?thesis by (rule that)
    next
      case ready
      obtain q' where q': "acquire_many_poll (length ?fl) A id id [] [] sem_addr p k cx (AcquireAwait k) [] ?q
          = Inr (Ready (Inr \<lparr>sp_sem = sem_addr, sp_permits = k\<rparr>), AcquireDone, [], q')"
        "sem_queue_rel (without p ?fl) q' (a\<lparr>as_futures := without p (as_futures a)\<rparr>)" "\<not> q_locked q'"
        "node_states q' = (node_states ?q)(p := None)"
        by (rule poll_finished [OF d(1,2,4) p ready])
      let ?s = "s\<lparr>ss_queue := q', ss_futures := without p ?fl, ss_held := ss_held s @ [\<lparr>sp_sem = sem_addr, sp_permits = k\<rparr>]\<rparr>"
      have "sem_rel ?s (snd (sem_op_spec ?op a))" by (rule sem_relI [OF r]) (use ready f q' d in \<open>auto simp: abs_took_def\<close>)
      then show ?thesis by (intro that [of ?s]) (use ready f Some q'(1) in \<open>simp_all add: sem_polled_def\<close>)
    qed
    then show ?thesis unfolding sem_step_ok_def by blast
  qed
qed

lemma close_step: "sem_rel s a \<Longrightarrow> sem_step_ok A (SemClose d) s a"
proof -
  assume r: "sem_rel s a"
  note rd = sem_relD [OF r]
  let ?q = "ss_queue s" and ?op = "SemClose d" and ?a = "a\<lparr>as_closed := True, as_waiting := []\<rparr>"
  show ?thesis
  proof (cases "node_addr d \<and> q_links ?q d = None")
    case True
    then have g: "map_of (as_futures a) d = None" using free_node [OF r] by simp
    obtain q' where q': "sem_close (Suc (length (ss_futures s))) A d id id [] ?q = Inr (unlocked_wakes (map snd (as_waiting a)), q')"
      "sem_queue_rel (ss_futures s) q' ?a" "\<not> q_locked q'" "dom (node_states q') = dom (node_states ?q)"
      using close_refines [OF rd(1,2,4), of d "Suc (length (ss_futures s))" "[]"] True waiting_length [OF r] by auto
    have "sem_rel (s\<lparr>ss_queue := q'\<rparr>) (snd (sem_op_spec ?op a))"
      by (rule sem_relI [OF r]) (use True g q' rd in auto)
    then show ?thesis unfolding sem_step_ok_def
      by (intro exI [of _ "s\<lparr>ss_queue := q'\<rparr>"]) (use True g q'(1) in simp)
  next
    case False
    then have "sem_op_spec ?op a = ((SemNothing, []), a)" "sem_op_step A ?op s = Inr ((SemNothing, []), s)"
      using free_node [OF r, of d] by auto
    then show ?thesis using r by (simp add: sem_step_ok_def)
  qed
qed

lemma sem_step_refines: "sem_rel s a \<Longrightarrow> sem_op_fault op a = None \<Longrightarrow> sem_step_ok A op s a"
  by (cases op)
    (simp_all only: try_step start_step poll_step cancel_step add_step forget_permits_step drop_step forget_step split_step merge_step close_step)

end

sublocale bounded_wakers \<subseteq> fair: waking sem_rel "sem_op_step A" sem_op_spec sem_op_fault sem_waits sem_polls sem_concerns SemPending
proof
  fix s a op
  assume r: "sem_rel s a"
  show "sem_op_fault op a = None \<Longrightarrow> \<exists>s'. sem_op_step A op s = Inr (fst (sem_op_spec op a), s') \<and> sem_rel s' (snd (sem_op_spec op a))"
    using sem_step_refines [OF r] by (simp add: sem_step_ok_def)
  show "sem_op_fault op a = Some e \<Longrightarrow> sem_op_step A op s = Inl e" for e
    by (rule sem_step_panics [OF r])
qed (use sem_pending sem_waits_step sem_relD(2) in \<open>blast+\<close>)

section \<open>Sequences of calls\<close>

lemma cancel_loses_iff:
  assumes "sem_rel s a"
  shows "cancel_loses op s \<longleftrightarrow> sem_loses op a"
proof (cases op)
  case (SemCancel p)
  note rel = sem_relD(1) [OF assms]
  have "tail_node usize_state (ss_queue s) = (if as_waiting a = [] then None else Some (fst (last (as_waiting a))))"
    using queue_inv_tail [OF queue_wf_inv [OF sem_ok_wf], of "ss_queue s" "map fst (as_waiting a)"] rel by (simp add: sem_queue_rel_def last_map)
  then show ?thesis using SemCancel sem_queue_rel_future [OF rel, of p] by (auto split: option.split)
qed simp_all

context bounded_wakers
begin

lemmas sem_run_outcome = fair.run_outcome
lemmas sem_run_succeeds = fair.run_succeeds
lemmas sem_served = fair.no_lost_wakeup

text \<open>The permits there are after a run.\<close>

lemma sem_run_total:
  assumes "sem_rel s a" and "run_impl (sem_op_step A) ops s = Inr (outs, s')"
  shows "\<exists>a'. sem_rel s' a' \<and> abs_total a' \<le> abs_total a \<and> (avoids cancel_loses (sem_op_step A) ops s \<longrightarrow> abs_total a' = abs_total a)"
  using assms
proof (induction ops arbitrary: s a outs)
  case (Cons op ops)
  obtain out s1 outs1 where s1: "sem_op_step A op s = Inr (out, s1)" "run_impl (sem_op_step A) ops s1 = Inr (outs1, s')"
    using Cons.prems(2) by (auto simp: bind_res_def split: sum.splits)
  note inv = sem_op_spec_inv [OF sem_relD(2) [OF Cons.prems(1)], of op]
  obtain a' where "sem_rel s' a'" "abs_total a' \<le> abs_total (snd (sem_op_spec op a))"
    "avoids cancel_loses (sem_op_step A) ops s1 \<longrightarrow> abs_total a' = abs_total (snd (sem_op_spec op a))"
    using Cons.IH [OF fair.step_succeeds(3) [OF Cons.prems(1) s1(1)] s1(2)] by blast
  then show ?case using inv cancel_loses_iff [OF Cons.prems(1), of op] s1(1) by (intro exI [of _ a']) auto
qed auto

end

lemma sem_new_start:
  assumes "permits \<le> MAX_PERMITS"
  obtains q where "sem_new permits = Inr q" "sem_rel (sem_start permits q) (abs_start permits)" "abs_total (abs_start permits) = 2 ^ 61 - 1"
proof -
  have p: "unat permits < 2 ^ 61" using assms by (simp add: word_le_nat_alt MAX_PERMITS_unat)
  let ?st = "push_bit PERMIT_SHIFT permits"
  have st: "unat ?st = 2 * unat permits" using p by (simp add: shift_permits)
  have add: "check_add_permits 0 permits = Inr ?st" using check_add_eq(1) [of 0 permits] p by simp
  have max: "?st \<le> INTRUSIVE_QUEUE_MAX_STATE" using p by (intro shifted_permits_valid) simp
  obtain w where w: "enum_to_tail usize_state (State ?st) = Inr w" "tail_to_enum usize_state w = State ?st"
    using usize_qs.state_encodable [OF max] by blast
  have e: "w = push_bit STATE_SHIFT ?st" using w(1) max by (simp add: usize_state_def state_to_ptr_def split: if_splits)
  let ?q = "new_impl w :: sem_waiter queue"
  have new: "sem_new permits = Inr ?q" using add max e by (simp add: sem_new_def with_state_const_def state_to_ptr_def)
  have so: "state_of usize_state ?q = Some ?st" using w(2) by (simp add: state_of_def new_impl_def)
  have "queue_wf usize_state ?q []"
    using w(2) by (simp add: queue_wf_def queue_inv_def nodes_ok_def chain_def refs_def cell_def prev_of_def tail_node_def new_impl_def)
  then have "sem_queue_rel [] ?q (abs_start permits)"
    using available_unat [OF so] sem_closed_iff [OF so] st by (simp add: sem_queue_rel_def sem_ok_def abs_start_def)
  moreover have t: "abs_total (abs_start permits) = 2 ^ 61 - 1"
    using assms p by (simp add: abs_total_def abs_start_def taken_def unat_sub MAX_PERMITS_unat)
  moreover have "abs_inv (abs_start permits)" by (simp add: abs_inv_def waiting_inv_def abs_start_def)
  ultimately have "sem_rel (sem_start permits ?q) (abs_start permits)"
    by (simp add: sem_rel_def abs_ok_def sem_start_def) (simp add: abs_start_def new_impl_def node_states_def fun_eq_iff)
  with new t show ?thesis by (intro that)
qed

lemma taken_map: "taken (map (\<lambda>(p, k). (p, f k, g p)) fl) = sum_list (map (\<lambda>(p, k). f k - g p) fl)"
  by (induction fl) (auto simp: taken_def)

text \<open>
  C6. A semaphore is a fair one: whatever sequence of these calls its clients make on a new semaphore
  (attempts, futures that are started, polled, cancelled and dropped when they are ready, permits
  added, forgotten, dropped, split and merged, closing), the calls give the results and wake the tasks
  that the abstract semaphore with its list of waiters in order of arrival does, each task once and
  without the lock held. Two behaviours are part of the abstract semaphore because the code has them.
  \<^verbatim>\<open>forget_permits\<close> panics when more is asked for than is available, which ends the run on
  both sides (\<open>sem_op_fault\<close>). Cancelling the last waiter of the queue after it has taken over
  permits does not free them (\<open>sem_loses\<close>): they are gone if others wait, and their number
  becomes the state word if nobody does, so that half of them are available and an odd number closes
  the semaphore. Requests are for 1 to \<open>2 ^ 31 - 1\<close> permits, the permits that are added stay
  within the maximum, less than \<open>2 ^ 62\<close> are forgotten at once and merged permits fit 32 bits;
  other calls are left out, and \<^verbatim>\<open>acquire_many_owned\<close> is not one of the calls.
\<close>

theorem semaphore_refines_fair:
  assumes "bounded_wakers A rep" and "permits \<le> MAX_PERMITS"
  shows "\<exists>q. sem_new permits = Inr q \<and>
    outcome (run_impl (sem_op_step A) ops (sem_start permits q))
      = outcome (run_impl (faulty sem_op_fault sem_op_spec) ops (abs_start permits))"
proof -
  obtain q where q: "sem_new permits = Inr q" "sem_rel (sem_start permits q) (abs_start permits)"
    by (rule sem_new_start [OF assms(2)])
  with bounded_wakers.sem_run_outcome [OF assms(1) q(2), of ops] show ?thesis by blast
qed

text \<open>
  A future asks for two permits of a semaphore with one and waits; when another one is added its task
  is woken, and it is ready at the next poll. A second future takes over one of the two permits it asked
  for and is cancelled: the semaphore is closed from then on. There is nothing left to forget.
\<close>

theorem semaphore_refines_fair_witness:
  "\<exists>q. sem_new 1 = Inr q
    \<and> outcome (run_impl (sem_op_step waker_list_ops)
        [SemStart 4096 2 9, SemAdd 1, SemPoll 4096 9, SemAdd 1, SemStart 8192 2 7, SemCancel 8192, SemTry 1] (sem_start 1 q))
      = Inr [(SemPending, []), (SemNothing, [(9, False)]), (SemAcquired 2, []), (SemNothing, []), (SemPending, []),
          (SemNothing, []), (SemClosed, [])]
    \<and> outcome (run_impl (sem_op_step waker_list_ops) [SemForgetPermits 2] (sem_start 1 q)) = Inl (Panic ''queue state overflow'')"
proof -
  have one: "1 \<le> MAX_PERMITS" by (simp add: word_le_nat_alt MAX_PERMITS_unat)
  have b: "unat (MAX_PERMITS - 1) = 2 ^ 61 - 2" using one by (simp add: unat_sub MAX_PERMITS_unat)
  let ?ops = "[SemStart 4096 2 9, SemAdd 1, SemPoll 4096 9, SemAdd 1, SemStart 8192 2 7, SemCancel 8192, SemTry 1]"
  have "outcome (run_impl (faulty sem_op_fault sem_op_spec) ?ops (abs_start 1))
      = Inr [(SemPending, []), (SemNothing, [(9, False)]), (SemAcquired 2, []), (SemNothing, []), (SemPending, []),
          (SemNothing, []), (SemClosed, [])]"
    using b by (simp add: faulty_def abs_start_def sem_request_def example_addrs abs_give_def need_in_def set_needs_def abs_took_def
        abs_lose_def without_def)
  moreover have "outcome (run_impl (faulty sem_op_fault sem_op_spec) [SemForgetPermits 2] (abs_start 1)) = Inl (Panic ''queue state overflow'')"
    by (simp add: faulty_def abs_start_def)
  moreover note semaphore_refines_fair [OF crate_wakers.bounded_wakers_axioms one, of ?ops]
    semaphore_refines_fair [OF crate_wakers.bounded_wakers_axioms one, of "[SemForgetPermits 2]"]
  ultimately show ?thesis by auto
qed

text \<open>
  C7. No sequence of the calls of \<open>sem_op_step\<close> creates a permit, and none loses one unless it
  cancels the last waiter of the queue after that has taken over permits (\<open>cancel_loses\<close>, the
  fault of \<open>cancel_corrupts_state\<close>): those available, those that clients hold, those that pending
  futures have taken over and those that may still be added are never more than the maximum, and exactly
  the maximum as long as no such cancellation happened. Permits forgotten, from a client's hand or by
  \<^verbatim>\<open>forget_permits\<close>, may be added again. While anybody waits nothing is available, the queue
  is well formed and its waiters are pending futures. \<^verbatim>\<open>acquire_many_owned\<close>, which does hand
  out permits that it has not taken, is not one of the calls.
\<close>

theorem semaphore_conserves_permits:
  assumes "bounded_wakers A rep" and "sem_new permits = Inr q" and "permits \<le> MAX_PERMITS"
    and "run_impl (sem_op_step A) ops (sem_start permits q) = Inr (outs, s)"
  shows "sem_total s \<le> unat MAX_PERMITS
    \<and> (avoids cancel_loses (sem_op_step A) ops (sem_start permits q) \<longrightarrow> sem_total s = unat MAX_PERMITS)
    \<and> (\<exists>ns. sem_ok (ss_queue s) ns \<and> set ns \<subseteq> fst ` set (ss_futures s)
      \<and> (ns \<noteq> [] \<longrightarrow> available_permits (ss_queue s) = 0 \<and> \<not> sem_is_closed (ss_queue s)))"
proof -
  obtain q' where q': "sem_new permits = Inr q'" "sem_rel (sem_start permits q') (abs_start permits)"
    "abs_total (abs_start permits) = 2 ^ 61 - 1"
    by (rule sem_new_start [OF assms(3)])
  then have start: "sem_rel (sem_start permits q) (abs_start permits)" using assms(2) by simp
  obtain a where rel: "sem_rel s a" and a: "abs_total a \<le> 2 ^ 61 - 1"
    "avoids cancel_loses (sem_op_step A) ops (sem_start permits q) \<longrightarrow> abs_total a = 2 ^ 61 - 1"
    using bounded_wakers.sem_run_total [OF assms(1) start assms(4)] q'(3) by auto
  note d = sem_relD [OF rel]
  have "taken (as_futures a) = sum_list (map (\<lambda>(p, k). unat k - remaining (ss_queue s) p) (ss_futures s))"
    using d(1) by (simp add: sem_queue_rel_def taken_map)
  moreover have "as_avail a = unat (available_permits (ss_queue s))" using d(1) by (simp add: sem_queue_rel_def)
  ultimately have "sem_total s = abs_total a" using d(6,7) by (simp add: sem_total_def abs_total_def)
  moreover have k: "fst ` set (as_waiting a) \<subseteq> fst ` set (ss_futures s)" "as_waiting a \<noteq> [] \<longrightarrow> as_avail a = 0 \<and> \<not> as_closed a"
    using d(2) sem_queue_rel_keys [OF d(1)] by (auto simp: abs_inv_def waiting_inv_def)
  then have "\<exists>ns. sem_ok (ss_queue s) ns \<and> set ns \<subseteq> fst ` set (ss_futures s)
      \<and> (ns \<noteq> [] \<longrightarrow> available_permits (ss_queue s) = 0 \<and> \<not> sem_is_closed (ss_queue s))"
    using d(1) by (intro exI [of _ "map fst (as_waiting a)"]) (auto simp: sem_queue_rel_def unat_eq_0)
  ultimately show ?thesis using a by (simp add: MAX_PERMITS_unat)
qed

text \<open>A future waits with one permit of two; another one is added. Nothing is cancelled.\<close>

theorem semaphore_conserves_permits_witness:
  "\<exists>q outs s. run_impl (sem_op_step waker_list_ops) [SemStart 4096 2 9, SemAdd 1] (sem_start 1 q) = Inr (outs, s) \<and> sem_total s = unat MAX_PERMITS"
proof -
  let ?ops = "[SemStart 4096 2 9, SemAdd 1]"
  have one: "1 \<le> MAX_PERMITS" by (simp add: word_le_nat_alt MAX_PERMITS_unat)
  obtain q where q: "sem_new 1 = Inr q" "sem_rel (sem_start 1 q) (abs_start 1)" by (rule sem_new_start [OF one])
  have "\<exists>outs a. run_impl (faulty sem_op_fault sem_op_spec) ?ops (abs_start 1) = Inr (outs, a)" by (simp add: faulty_def split_beta)
  then obtain outs s where r: "run_impl (sem_op_step waker_list_ops) ?ops (sem_start 1 q) = Inr (outs, s)"
    using crate_wakers.sem_run_succeeds [OF q(2)] by blast
  have "avoids cancel_loses (sem_op_step waker_list_ops) ?ops (sem_start 1 q)"
    by (simp del: sem_op_step.simps split: sum.split)
  with semaphore_conserves_permits [OF crate_wakers.bounded_wakers_axioms q(1) one r] r show ?thesis by blast
qed

text \<open>
  C8. No wake-up of the semaphore is lost: after a poll of the future at \<open>p\<close> has returned
  \<^verbatim>\<open>Pending\<close> to the task \<open>cx\<close>, and as long as the future is not polled again
  or cancelled, whatever the other clients do, its node is queued with the waker of \<open>cx\<close>, or
  it has been dequeued and \<open>cx\<close> was woken since that poll; in the second case the future has
  all the permits it asked for, or the semaphore is closed.
\<close>

theorem semaphore_no_lost_wakeup:
  assumes "bounded_wakers A rep" and "sem_new permits = Inr q" and "permits \<le> MAX_PERMITS"
    and "run_impl (sem_op_step A) (before @ op # after) (sem_start permits q) = Inr (outs, s)"
    and "sem_polls p cx op" and "fst (outs ! length before) = SemPending" and "\<forall>x\<in>set after. \<not> sem_concerns p x"
  shows "node_states (ss_queue s) p = Some Queued \<and> sem_waker_of (ss_queue s) p = cx
    \<or> node_states (ss_queue s) p = Some Dequeued \<and> cx \<in> woken (drop (Suc (length before)) outs)
      \<and> (remaining (ss_queue s) p = 0 \<or> sem_is_closed (ss_queue s))"
proof -
  have "sem_rel (sem_start permits q) (abs_start permits)" using assms(2) by (metis sem_new_start [OF assms(3)] sum.inject(2))
  then obtain a where a: "sem_rel s a" "sem_waits p cx a (cx \<in> woken (drop (Suc (length before)) outs))"
    by (rule bounded_wakers.sem_served [OF assms(1) _ assms(4-7)])
  note d = sem_relD [OF a(1)]
  have keys: "fst ` set (as_futures a) = fst ` set (ss_futures s)" using sem_queue_rel_keys [OF d(1)] by simp
  have st: "node_states (ss_queue s) p = Some (if p \<in> fst ` set (as_waiting a) then Queued else Dequeued)" if "p \<in> fst ` set (ss_futures s)"
    using d(1) that unfolding sem_queue_rel_def by blast
  show ?thesis
  proof (cases "(p, cx) \<in> set (as_waiting a)")
    case True
    then have w: "p \<in> fst ` set (as_waiting a)" by force
    then have "p \<in> fst ` set (ss_futures s)" using d(2) keys unfolding abs_inv_def waiting_inv_def by blast
    moreover have "map (sem_waker_of (ss_queue s)) (map fst (as_waiting a)) = map snd (as_waiting a)" using d(1) by (simp add: sem_queue_rel_def)
    then have "sem_waker_of (ss_queue s) p = cx" using True by force
    ultimately show ?thesis using st w by simp
  next
    case False
    then have n: "p \<notin> fst ` set (as_waiting a)" "p \<in> fst ` set (ss_futures s)" "cx \<in> woken (drop (Suc (length before)) outs)"
      using a(2) keys by (simp_all add: sem_waits_def is_served_def)
    then obtain k where "(p, k) \<in> set (ss_futures s)" by auto
    then have "(p, unat k, remaining (ss_queue s) p) \<in> set (as_futures a)" using d(1) by (force simp: sem_queue_rel_def)
    then have "remaining (ss_queue s) p = 0 \<or> as_closed a" using d(2) n(1) unfolding abs_inv_def waiting_inv_def by blast
    then show ?thesis using st n d(1) by (simp add: sem_queue_rel_def)
  qed
qed

text \<open>The first two calls of the example above: the future is pending, then woken.\<close>

theorem semaphore_no_lost_wakeup_witness:
  "\<exists>q outs s. run_impl (sem_op_step waker_list_ops) ([] @ SemStart 4096 2 9 # [SemAdd 1]) (sem_start 1 q) = Inr (outs, s)
    \<and> (node_states (ss_queue s) 4096 = Some Queued \<and> sem_waker_of (ss_queue s) 4096 = 9
      \<or> node_states (ss_queue s) 4096 = Some Dequeued \<and> 9 \<in> woken (drop 1 outs)
        \<and> (remaining (ss_queue s) 4096 = 0 \<or> sem_is_closed (ss_queue s)))"
proof -
  let ?ops = "[] @ SemStart 4096 2 9 # [SemAdd 1]"
  have one: "1 \<le> MAX_PERMITS" by (simp add: word_le_nat_alt MAX_PERMITS_unat)
  obtain q where q: "sem_new 1 = Inr q" "sem_rel (sem_start 1 q) (abs_start 1)" by (rule sem_new_start [OF one])
  have "\<exists>outs a. run_impl (faulty sem_op_fault sem_op_spec) ?ops (abs_start 1) = Inr (outs, a) \<and> fst (outs ! length ([] :: sem_op list)) = SemPending"
    by (simp add: faulty_def abs_start_def sem_request_def example_addrs Let_def split_beta)
  then obtain outs s where s: "run_impl (sem_op_step waker_list_ops) ?ops (sem_start 1 q) = Inr (outs, s)"
    "fst (outs ! length ([] :: sem_op list)) = SemPending"
    using crate_wakers.sem_run_succeeds [OF q(2)] by blast
  moreover have "sem_polls 4096 9 (SemStart 4096 2 9)" "\<forall>x\<in>set [SemAdd 1]. \<not> sem_concerns 4096 x" by (simp_all add: sem_concerns_def)
  moreover have n: "Suc (length ([] :: sem_op list)) = 1" by simp
  ultimately show ?thesis using semaphore_no_lost_wakeup [OF crate_wakers.bounded_wakers_axioms q(1) one s(1), unfolded n] s by blast
qed

end
