(* ===== verification/Notify.thy ===== *)
theory Notify
  imports Array_Vec
begin

text \<open>
  \<^verbatim>\<open>examples/notify.rs\<close>: an asynchronous notification primitive on top of the queue. The
  queue's state remembers one notification while nobody waits; \<^verbatim>\<open>notify_waiters\<close> is
  counted by a generation, so that a future knows whether one happened since it was created.

  Interference by other threads acts on the whole \<open>notify\<close>, queue and generation. \<open>A\<close>
  is the vector of wakers.
\<close>

section \<open>State\<close>

definition STATE_UNNOTIFIED :: usize where "STATE_UNNOTIFIED = 0"
definition STATE_NOTIFIED :: usize where "STATE_NOTIFIED = 1"

datatype notify_kind = NotifyOne | NotifyLast | NotifyAll

record notify_waiter =
  nw_waker :: "waker option"
  nw_notification :: "notify_kind option"

definition notify_waiter_default :: notify_waiter where
  "notify_waiter_default = \<lparr>nw_waker = None, nw_notification = None\<rparr>"

record notify =
  n_queue :: "notify_waiter queue"
  n_generation :: u64

definition notify_new :: "notify res" where
  "notify_new = bind_res (with_state_const STATE_UNNOTIFIED) (\<lambda>q. Inr \<lparr>n_queue = q, n_generation = 0\<rparr>)"

definition NONE_UNWRAPPED :: string where
  "NONE_UNWRAPPED = ''called `Option::unwrap()` on a `None` value''"

section \<open>Notifying\<close>

definition mark_notified :: "notify_kind \<Rightarrow> notify_waiter \<Rightarrow> waker option \<times> notify_waiter" where
  "mark_notified k w = (nw_waker w, w\<lparr>nw_notification := Some k, nw_waker := None\<rparr>)"

definition wake_single :: "notify_kind \<Rightarrow> wakeups \<Rightarrow> notify_waiter queue \<Rightarrow> (wakeups \<times> notify_waiter queue) res" where
  "wake_single notification log q =
     bind_res (case notification of
         NotifyOne \<Rightarrow>
           bind_res (bind_res (locked_dequeue usize_state q) (unwrap NONE_UNWRAPPED)) (\<lambda>p.
           bind_res (with_data_mut p (mark_notified notification) q) (\<lambda>(waker, q).
           bind_res (dequeue_try_set_queue_state usize_state p STATE_UNNOTIFIED q) (\<lambda>(_, q). Inr (waker, q))))
       | NotifyLast \<Rightarrow>
           bind_res (unwrap NONE_UNWRAPPED (locked_pop usize_state q)) (\<lambda>p.
           bind_res (with_data_mut p (mark_notified notification) q) (\<lambda>(waker, q).
           bind_res (pop_try_set_queue_state usize_state p STATE_UNNOTIFIED q) (\<lambda>(_, q). Inr (waker, q))))
       | NotifyAll \<Rightarrow> Inl (Panic ''internal error: entered unreachable code'')) (\<lambda>(waker, q).
     let q = unlock q in
     Inr (case waker of None \<Rightarrow> log | Some w \<Rightarrow> wake q w log, q))"

definition notify_single ::
  "notify_kind \<Rightarrow> (notify_waiter queue \<Rightarrow> notify_waiter queue) \<Rightarrow> wakeups \<Rightarrow> notify_waiter queue
   \<Rightarrow> (wakeups \<times> notify_waiter queue) res" where
  "notify_single notification gap log q =
     fetch_update_state_or_locked usize_state (\<lambda>_. Inr STATE_NOTIFIED) gap (wake_single notification) log q"

definition notify_notify_one ::
  "(notify_waiter queue \<Rightarrow> notify_waiter queue) \<Rightarrow> wakeups \<Rightarrow> notify_waiter queue \<Rightarrow> (wakeups \<times> notify_waiter queue) res" where
  "notify_notify_one gap log q = notify_single NotifyOne gap log q"

definition notify_notify_last ::
  "(notify_waiter queue \<Rightarrow> notify_waiter queue) \<Rightarrow> wakeups \<Rightarrow> notify_waiter queue \<Rightarrow> (wakeups \<times> notify_waiter queue) res" where
  "notify_notify_last gap log q = notify_single NotifyLast gap log q"

text \<open>
  \<^verbatim>\<open>notify_waiters\<close> takes the lock, whether somebody waits or not (\<open>gap\<close> is what
  happens to queue and generation before it is granted), and counts up before it
  drains; \<open>n\<close> bounds the rounds of the drain, which is pinned at \<open>s\<close>.
\<close>

definition notify_waiters ::
  "nat \<Rightarrow> 'v wakers_ops \<Rightarrow> addr \<Rightarrow> (notify \<Rightarrow> notify)
   \<Rightarrow> (notify_waiter queue \<Rightarrow> notify_waiter queue) \<Rightarrow> wakeups \<Rightarrow> notify \<Rightarrow> (wakeups \<times> notify) res" where
  "notify_waiters n A s gap others log f =
     (let f = gap f in
     bind_res (lock id (n_queue f)) (\<lambda>q.
     let generation = n_generation f + 1 in
     bind_res (drain_wakers A (\<lambda>w. Inr (nw_waker w)) (\<lambda>w. snd (mark_notified NotifyAll w))
         n STATE_UNNOTIFIED s others log q) (\<lambda>(log, q).
       Inr (log, \<lparr>n_queue = q, n_generation = generation\<rparr>))))"

section \<open>Waiting\<close>

text \<open>A future: the address of its node, the generation it was created in, whether it is done.\<close>

record notified_inner =
  nf_node :: addr
  nf_generation :: u64
  nf_completed :: bool

definition notify_notified :: "addr \<Rightarrow> notify \<Rightarrow> notified_inner \<times> notify" where
  "notify_notified p f =
     (\<lparr>nf_node = p, nf_generation = n_generation f, nf_completed = False\<rparr>,
      f\<lparr>n_queue := node_with_data p notify_waiter_default (n_queue f)\<rparr>)"

definition notify_notified_owned :: "addr \<Rightarrow> notify \<Rightarrow> notified_inner \<times> notify" where
  "notify_notified_owned p f =
     (\<lparr>nf_node = p, nf_generation = n_generation f, nf_completed = False\<rparr>,
      f\<lparr>n_queue := node_with_data p notify_waiter_default (n_queue f)\<rparr>)"

text \<open>The state of the node, with \<open>others\<close> acting before the lock is granted.\<close>

definition notified_state :: "addr \<Rightarrow> (notify \<Rightarrow> notify) \<Rightarrow> notify \<Rightarrow> (node_view \<times> notify) res" where
  "notified_state p others f =
     bind_res (raw_state p (n_queue f)) (\<lambda>raw.
     let g = if raw = Queued then others f else f in
     bind_res (state_from_raw p raw (\<lambda>_. n_queue g) (n_queue f)) (\<lambda>(view, q). Inr (view, g\<lparr>n_queue := q\<rparr>)))"

definition notify_cancel ::
  "(notify \<Rightarrow> notify) \<Rightarrow> (notify_waiter queue \<Rightarrow> notify_waiter queue) \<Rightarrow> notified_inner \<Rightarrow> wakeups \<Rightarrow> notify
   \<Rightarrow> (wakeups \<times> notify) res" where
  "notify_cancel others gap self log f =
     (let p = nf_node self in
      bind_res (notified_state p others f) (\<lambda>(view, f). case view of
          NodeUnqueued \<Rightarrow> Inr (log, f)
        | NodeQueued \<Rightarrow>
            bind_res (node_queued_dequeue_try_set_queue_state usize_state p STATE_UNNOTIFIED (n_queue f)) (\<lambda>(_, q).
              Inr (log, f\<lparr>n_queue := unlock q\<rparr>))
        | NodeDequeued \<Rightarrow>
            bind_res (bind_res (with_data p nw_notification (n_queue f)) (unwrap NONE_UNWRAPPED)) (\<lambda>k.
            bind_res (case k of
                NotifyOne \<Rightarrow> notify_notify_one gap log (n_queue f)
              | NotifyLast \<Rightarrow> notify_notify_last gap log (n_queue f)
              | NotifyAll \<Rightarrow> Inr (log, n_queue f)) (\<lambda>(log, q). Inr (log, f\<lparr>n_queue := q\<rparr>)))))"

text \<open>
  The loop for an unqueued node; a round is a pair of what other threads do before and after its
  insertion. Its result is ready, with a flag that asks for \<^verbatim>\<open>cancel\<close>, or pending.
\<close>

fun poll_notified_loop ::
  "((notify \<Rightarrow> notify) \<times> (notify \<Rightarrow> notify)) list \<Rightarrow> notified_inner \<Rightarrow> waker option \<Rightarrow> notify \<Rightarrow> (bool poll \<times> notify) res" where
  "poll_notified_loop [] self cx f = Inl OutOfFuel"
| "poll_notified_loop ((before_enqueue, after_enqueue) # rounds) self cx f =
     (let p = nf_node self in
      if n_generation f \<noteq> nf_generation self then Inr (Ready False, f)
      else
        bind_res (fetch_update_state usize_state
            (\<lambda>st. Inr (if st = STATE_NOTIFIED then Some STATE_UNNOTIFIED else None)) [] (n_queue f)) (\<lambda>(r, q).
        case r of
          Inr _ \<Rightarrow> Inr (Ready False, f\<lparr>n_queue := q\<rparr>)
        | Inl state \<Rightarrow>
            bind_res (case cx of None \<Rightarrow> Inr ((), q)
                | Some cx \<Rightarrow> with_data_mut p (\<lambda>w. ((), w\<lparr>nw_waker := (case nw_waker w of None \<Rightarrow> Some cx | Some k \<Rightarrow> Some k)\<rparr>)) q) (\<lambda>(_, q).
            let f = before_enqueue (f\<lparr>n_queue := q\<rparr>) in
            bind_res (try_enqueue_with_queue_state usize_state p (\<lambda>s. s = state) [] (n_queue f)) (\<lambda>(ok, q).
            let f = f\<lparr>n_queue := q\<rparr> in
              if \<not> ok then poll_notified_loop rounds self cx f
              else let f = after_enqueue f in
                Inr (if n_generation f \<noteq> nf_generation self then Ready True else Pending, f)))))"

definition poll_notified_impl ::
  "(notify \<Rightarrow> notify) \<Rightarrow> ((notify \<Rightarrow> notify) \<times> (notify \<Rightarrow> notify)) list \<Rightarrow> notified_inner \<Rightarrow> waker option \<Rightarrow> notify
   \<Rightarrow> (bool poll \<times> notify) res" where
  "poll_notified_impl others rounds self cx f =
     (let p = nf_node self in
      bind_res (notified_state p others f) (\<lambda>(view, f). case view of
          NodeUnqueued \<Rightarrow> poll_notified_loop rounds self cx f
        | NodeQueued \<Rightarrow>
            if n_generation f \<noteq> nf_generation self
            then bind_res (node_queued_dequeue_try_set_queue_state usize_state p STATE_UNNOTIFIED (n_queue f)) (\<lambda>(_, q).
                   Inr (Ready False, f\<lparr>n_queue := unlock q\<rparr>))
            else bind_res (case cx of None \<Rightarrow> Inr ((), n_queue f)
                   | Some cx \<Rightarrow> with_data_mut p (\<lambda>w. ((), if nw_waker w \<noteq> Some cx then w\<lparr>nw_waker := Some cx\<rparr> else w)) (n_queue f)) (\<lambda>(_, q).
                   Inr (Pending, f\<lparr>n_queue := unlock q\<rparr>))
        | NodeDequeued \<Rightarrow> Inr (Ready False, f)))"

definition poll_notified ::
  "(notify \<Rightarrow> notify) \<Rightarrow> ((notify \<Rightarrow> notify) \<times> (notify \<Rightarrow> notify)) list \<Rightarrow> (notify_waiter queue \<Rightarrow> notify_waiter queue)
   \<Rightarrow> notified_inner \<Rightarrow> waker option \<Rightarrow> wakeups \<Rightarrow> notify \<Rightarrow> (unit poll \<times> notified_inner \<times> wakeups \<times> notify) res" where
  "poll_notified others rounds gap self cx log f =
     bind_res (poll_notified_impl others rounds self cx f) (\<lambda>(r, f). case r of
         Pending \<Rightarrow> Inr (Pending, self, log, f)
       | Ready undo \<Rightarrow>
           bind_res (if undo then notify_cancel others gap self log f else Inr (log, f)) (\<lambda>(log, f).
             Inr (Ready (), self\<lparr>nf_completed := True\<rparr>, log, f)))"

definition notified_enable ::
  "(notify \<Rightarrow> notify) \<Rightarrow> ((notify \<Rightarrow> notify) \<times> (notify \<Rightarrow> notify)) list \<Rightarrow> (notify_waiter queue \<Rightarrow> notify_waiter queue)
   \<Rightarrow> notified_inner \<Rightarrow> wakeups \<Rightarrow> notify \<Rightarrow> (bool \<times> notified_inner \<times> wakeups \<times> notify) res" where
  "notified_enable others rounds gap self log f =
     bind_res (poll_notified others rounds gap self None log f) (\<lambda>(r, self, log, f). Inr (r = Ready (), self, log, f))"

definition notified_poll ::
  "(notify \<Rightarrow> notify) \<Rightarrow> ((notify \<Rightarrow> notify) \<times> (notify \<Rightarrow> notify)) list \<Rightarrow> (notify_waiter queue \<Rightarrow> notify_waiter queue)
   \<Rightarrow> notified_inner \<Rightarrow> waker \<Rightarrow> wakeups \<Rightarrow> notify \<Rightarrow> (unit poll \<times> notified_inner \<times> wakeups \<times> notify) res" where
  "notified_poll others rounds gap self cx log f = poll_notified others rounds gap self (Some cx) log f"

definition owned_notified_enable ::
  "(notify \<Rightarrow> notify) \<Rightarrow> ((notify \<Rightarrow> notify) \<times> (notify \<Rightarrow> notify)) list \<Rightarrow> (notify_waiter queue \<Rightarrow> notify_waiter queue)
   \<Rightarrow> notified_inner \<Rightarrow> wakeups \<Rightarrow> notify \<Rightarrow> (bool \<times> notified_inner \<times> wakeups \<times> notify) res" where
  "owned_notified_enable others rounds gap self log f =
     bind_res (poll_notified others rounds gap self None log f) (\<lambda>(r, self, log, f). Inr (r = Ready (), self, log, f))"

definition owned_notified_poll ::
  "(notify \<Rightarrow> notify) \<Rightarrow> ((notify \<Rightarrow> notify) \<times> (notify \<Rightarrow> notify)) list \<Rightarrow> (notify_waiter queue \<Rightarrow> notify_waiter queue)
   \<Rightarrow> notified_inner \<Rightarrow> waker \<Rightarrow> wakeups \<Rightarrow> notify \<Rightarrow> (unit poll \<times> notified_inner \<times> wakeups \<times> notify) res" where
  "owned_notified_poll others rounds gap self cx log f = poll_notified others rounds gap self (Some cx) log f"

definition notified_drop ::
  "(notify \<Rightarrow> notify) \<Rightarrow> (notify_waiter queue \<Rightarrow> notify_waiter queue) \<Rightarrow> notified_inner \<Rightarrow> wakeups \<Rightarrow> notify
   \<Rightarrow> (wakeups \<times> notify) res" where
  "notified_drop others gap self log f =
     bind_res (if \<not> nf_completed self then notify_cancel others gap self log f else Inr (log, f)) (\<lambda>(log, f).
     bind_res (node_drop usize_state (nf_node self) gap (n_queue f)) (\<lambda>q. Inr (log, f\<lparr>n_queue := q\<rparr>)))"

section \<open>Invariant\<close>

definition notify_ok :: "notify_waiter queue \<Rightarrow> addr list \<Rightarrow> bool" where
  "notify_ok q ns \<longleftrightarrow> queue_wf usize_state q ns \<and> (\<forall>x\<in>set ns. q_data q x \<noteq> None)"

definition notify_waker :: "notify_waiter queue \<Rightarrow> addr \<Rightarrow> waker option" where
  "notify_waker q x = nw_waker (the (q_data q x))"

abbreviation notified_by :: "notify_kind \<Rightarrow> notify_waiter" where
  "notified_by k \<equiv> \<lparr>nw_waker = None, nw_notification = Some k\<rparr>"

lemma mark_notified_eq: "mark_notified k w = (nw_waker w, notified_by k)"
  by (cases w) (simp add: mark_notified_def)

lemma notify_ok_wf: "notify_ok q ns \<Longrightarrow> queue_wf usize_state q ns"
  by (simp add: notify_ok_def)

lemma notify_ok_locked [simp]:
  "notify_ok (q\<lparr>q_locked := b\<rparr>) ns = notify_ok q ns" "notify_ok (unlock q) ns = notify_ok q ns"
  by (simp_all add: notify_ok_def unlock_def)

lemma notify_reads_locked [simp]:
  "notify_waker (q\<lparr>q_locked := b\<rparr>) = notify_waker q" "node_states (unlock q) = node_states q"
  "q_data (unlock q) = q_data q" "state_of S (unlock q) = state_of S q" "\<not> q_locked (unlock q)"
  by (simp_all add: notify_waker_def fun_eq_iff unlock_def state_of_def)

lemma notify_ok_cong:
  assumes "notify_ok q ns" and "queue_wf usize_state q' ms" and "set ms \<subseteq> set ns" and "\<And>x. x \<in> set ms \<Longrightarrow> q_data q' x = q_data q x"
  shows "notify_ok q' ms"
  using assms by (auto simp: notify_ok_def)

lemma notify_states_encode:
  obtains w where "enum_to_tail usize_state (State STATE_UNNOTIFIED) = Inr w" "tail_to_enum usize_state w = State STATE_UNNOTIFIED"
  using usize_qs.state_encodable [of STATE_UNNOTIFIED] by (auto simp: STATE_UNNOTIFIED_def)

section \<open>Notifying\<close>

lemma wake_single_dequeue:
  assumes ok: "notify_ok q (x # xs)"
  obtains q' where
    "wake_single NotifyOne log q = Inr (log @ unlocked_wakes (found (notify_waker q x)), q')" "notify_ok q' xs" "\<not> q_locked q'"
    "node_states q' = (node_states q)(x \<mapsto> Dequeued)" "q_data q' = (q_data q)(x \<mapsto> notified_by NotifyOne)"
    "xs = [] \<longrightarrow> state_of usize_state q' = Some STATE_UNNOTIFIED"
proof -
  obtain d where d: "q_data q x = Some d" using ok by (auto simp: notify_ok_def)
  let ?q = "q\<lparr>q_data := (q_data q)(x \<mapsto> notified_by NotifyOne)\<rparr>"
  have wf: "queue_wf usize_state ?q (x # xs)" using ok by (simp add: notify_ok_def)
  obtain w where w: "enum_to_tail usize_state (State STATE_UNNOTIFIED) = Inr w" "tail_to_enum usize_state w = State STATE_UNNOTIFIED"
    by (rule notify_states_encode)
  obtain q1 where q1: "remove_with_prev usize_state x w False HEAD_MARKER ?q = Inr (xs = [], q1)" "queue_wf usize_state q1 xs"
    "node_states q1 = (node_states ?q)(x \<mapsto> Dequeued)" "frame ?q q1" "xs = [] \<longrightarrow> state_of usize_state q1 = Some STATE_UNNOTIFIED"
    using usize_qs.wf_dequeue [OF wf w(2)] by metis
  have "locked_dequeue usize_state q = Inr (Some x)" using locked_dequeue_wf [OF notify_ok_wf [OF ok]] by simp
  then have "wake_single NotifyOne log q = Inr (log @ unlocked_wakes (found (notify_waker q x)), unlock q1)"
    using d w(1) q1(1)
    by (simp add: wake_single_def with_data_mut_def mark_notified_eq dequeue_try_set_queue_state_def notify_waker_def
        wake_def unlock_def found_def split: option.split)
  moreover have D: "q_data q1 = (q_data q)(x \<mapsto> notified_by NotifyOne)" using q1(4) by (simp add: frame_def)
  moreover have "notify_ok q1 xs"
    by (rule notify_ok_cong [OF ok q1(2)]) (use D queue_inv_distinct [OF queue_wf_inv [OF wf]] in auto)
  ultimately show ?thesis using q1 by (intro that [of "unlock q1"]) simp_all
qed

lemma wake_single_pop:
  assumes ok: "notify_ok q (xs @ [x])"
  obtains q' where
    "wake_single NotifyLast log q = Inr (log @ unlocked_wakes (found (notify_waker q x)), q')" "notify_ok q' xs" "\<not> q_locked q'"
    "node_states q' = (node_states q)(x \<mapsto> Dequeued)" "q_data q' = (q_data q)(x \<mapsto> notified_by NotifyLast)"
    "xs = [] \<longrightarrow> state_of usize_state q' = Some STATE_UNNOTIFIED"
proof -
  obtain d where d: "q_data q x = Some d" using ok by (auto simp: notify_ok_def)
  let ?q = "q\<lparr>q_data := (q_data q)(x \<mapsto> notified_by NotifyLast)\<rparr>"
  have wf: "queue_wf usize_state ?q (xs @ [x])" using ok by (simp add: notify_ok_def)
  obtain w where w: "enum_to_tail usize_state (State STATE_UNNOTIFIED) = Inr w" "tail_to_enum usize_state w = State STATE_UNNOTIFIED"
    by (rule notify_states_encode)
  obtain q1 where q1: "remove usize_state x w True ?q = Inr (True, q1)" "queue_wf usize_state q1 xs"
    "node_states q1 = (node_states ?q)(x \<mapsto> Dequeued)" "frame ?q q1" "xs = [] \<longrightarrow> state_of usize_state q1 = Some STATE_UNNOTIFIED"
    using usize_qs.wf_pop [OF wf w(2)] by metis
  have "locked_pop usize_state q = Some x" using locked_pop_wf [OF notify_ok_wf [OF ok]] by simp
  then have "wake_single NotifyLast log q = Inr (log @ unlocked_wakes (found (notify_waker q x)), unlock q1)"
    using d w(1) q1(1)
    by (simp add: wake_single_def with_data_mut_def mark_notified_eq pop_try_set_queue_state_def notify_waker_def
        wake_def unlock_def found_def split: option.split)
  moreover have D: "q_data q1 = (q_data q)(x \<mapsto> notified_by NotifyLast)" using q1(4) by (simp add: frame_def)
  moreover have "notify_ok q1 xs"
    by (rule notify_ok_cong [OF ok q1(2)]) (use D queue_inv_distinct [OF queue_wf_inv [OF wf]] in auto)
  ultimately show ?thesis using q1 by (intro that [of "unlock q1"]) simp_all
qed

lemma remove1_snoc: "distinct (xs @ [x]) \<Longrightarrow> remove1 x (xs @ [x]) = xs"
  by (simp add: remove1_append)

text \<open>The waiter a notification is for.\<close>

definition chosen :: "notify_kind \<Rightarrow> addr list \<Rightarrow> addr" where
  "chosen k ns = (if k = NotifyOne then hd ns else last ns)"

lemma wake_single_ok:
  assumes ok: "notify_ok q ns" and ns: "ns \<noteq> []" and k: "k \<noteq> NotifyAll"
  obtains q' where
    "wake_single k log q = Inr (log @ unlocked_wakes (found (notify_waker q (chosen k ns))), q')"
    "notify_ok q' (remove1 (chosen k ns) ns)" "\<not> q_locked q'"
    "node_states q' = (node_states q)(chosen k ns \<mapsto> Dequeued)" "q_data q' = (q_data q)(chosen k ns \<mapsto> notified_by k)"
    "remove1 (chosen k ns) ns = [] \<longrightarrow> state_of usize_state q' = Some STATE_UNNOTIFIED"
proof (cases k)
  case NotifyOne
  then have e: "ns = chosen k ns # remove1 (chosen k ns) ns" using ns by (cases ns) (simp_all add: chosen_def)
  show ?thesis
    using wake_single_dequeue [of q "chosen k ns" "remove1 (chosen k ns) ns" log] e ok NotifyOne that by metis
next
  case NotifyLast
  then have c: "chosen k ns = last ns" by (simp add: chosen_def)
  have "distinct ns" using queue_inv_distinct [OF queue_wf_inv [OF notify_ok_wf [OF ok]]] .
  then have "remove1 (last ns) ns = butlast ns" using remove1_snoc [of "butlast ns" "last ns"] ns by simp
  then have e: "ns = remove1 (chosen k ns) ns @ [chosen k ns]" using ns c by simp
  show ?thesis
    using wake_single_pop [of q "remove1 (chosen k ns) ns" "chosen k ns" log] e ok NotifyLast that by metis
qed (use k in simp)

lemma notify_state_None: "notify_ok q ns \<Longrightarrow> ns \<noteq> [] \<Longrightarrow> state_of usize_state q = None"
  using is_empty_wf [of q ns] by (auto simp: notify_ok_def is_empty_def)

lemma notify_state_Some: "notify_ok q [] \<Longrightarrow> \<exists>st. state_of usize_state q = Some st"
  using is_empty_wf [of q "[]"] by (auto simp: notify_ok_def is_empty_def)

lemma notify_encode: 
  obtains w where "enum_to_tail usize_state (State STATE_NOTIFIED) = Inr w" "tail_to_enum usize_state w = State STATE_NOTIFIED"
  using usize_qs.state_encodable [of STATE_NOTIFIED] by (auto simp: STATE_NOTIFIED_def max_state_value)

lemma notify_ok_tail:
  assumes "notify_ok q []" and "tail_to_enum usize_state w = State st"
  shows "notify_ok (q\<lparr>q_tail := w\<rparr>) []" and "state_of usize_state (q\<lparr>q_tail := w\<rparr>) = Some st"
  using assms by (auto simp: notify_ok_def queue_wf_def queue_inv_def nodes_ok_def tail_node_def state_of_def)

lemma notify_single_empty:
  assumes "notify_ok q []"
  obtains q' where "notify_single k gap log q = Inr (log, q')" "state_of usize_state q' = Some STATE_NOTIFIED" "notify_ok q' []"
    "q_locked q' = q_locked q" "node_states q' = node_states q" "q_data q' = q_data q" "q_links q' = q_links q"
proof -
  obtain st where st: "state_of usize_state q = Some st" using notify_state_Some [OF assms] by blast
  obtain w where w: "enum_to_tail usize_state (State STATE_NOTIFIED) = Inr w" "tail_to_enum usize_state w = State STATE_NOTIFIED"
    by (rule notify_encode)
  have "notify_single k gap log q = Inr (log, q\<lparr>q_tail := w\<rparr>)"
    using st w(1) by (cases "tail_to_enum usize_state (q_tail q)")
      (simp_all add: notify_single_def fetch_update_state_or_locked_def state_of_def)
  moreover have "node_states (q\<lparr>q_tail := w\<rparr>) = node_states q" by (simp add: node_states_def fun_eq_iff)
  ultimately show ?thesis using notify_ok_tail [OF assms w(2)] by (intro that [of "q\<lparr>q_tail := w\<rparr>"]) simp_all
qed

lemma notify_single_waiting:
  assumes "notify_ok q ms" and "ms \<noteq> []" and "\<not> q_locked (gap q)"
  shows "notify_ok (gap q) ns \<Longrightarrow> ns \<noteq> [] \<Longrightarrow>
      notify_single k gap log q = wake_single k log ((gap q)\<lparr>q_locked := True\<rparr>)"
    and "notify_ok (gap q) [] \<Longrightarrow> notify_single k gap log q = notify_single k id log (gap q)"
proof -
  have none: "fetch_update_state usize_state f [] q = Inr (Inl None, q)" for f
    using notify_state_None [OF assms(1,2)] by (cases "tail_to_enum usize_state (q_tail q)") (simp_all add: state_of_def)
  show "notify_single k gap log q = wake_single k log ((gap q)\<lparr>q_locked := True\<rparr>)"
    if "notify_ok (gap q) ns" "ns \<noteq> []"
  proof -
    have "fetch_update_state usize_state f [] ((gap q)\<lparr>q_locked := True\<rparr>) = Inr (Inl None, (gap q)\<lparr>q_locked := True\<rparr>)" for f
      using notify_state_None [OF that] by (cases "tail_to_enum usize_state (q_tail (gap q))") (simp_all add: state_of_def)
    then show ?thesis using none assms(3)
      by (simp add: notify_single_def fetch_update_state_or_locked_def fetch_update_state_locked_def lock_def
          del: fetch_update_state.simps)
  qed
  assume "notify_ok (gap q) []"
  then obtain st where st: "tail_to_enum usize_state (q_tail (gap q)) = State st"
    using notify_state_Some by (auto simp: state_of_def)
  obtain w where "enum_to_tail usize_state (State STATE_NOTIFIED) = Inr w" by (rule notify_encode)
  moreover have "unlock ((gap q)\<lparr>q_locked := True, q_tail := w\<rparr>) = (gap q)\<lparr>q_tail := w\<rparr>" for w
    using assms(3) by (cases "gap q") (simp add: unlock_def)
  ultimately show "notify_single k gap log q = notify_single k id log (gap q)"
    using none assms(3) st
    by (simp add: notify_single_def fetch_update_state_or_locked_def fetch_update_state_locked_def lock_def
        del: fetch_update_state.simps) (simp add: unlock_def)
qed

lemma notify_one_waiting:
  assumes ok: "notify_ok q (x # ys)" and lk: "\<not> q_locked q"
  obtains q' where "notify_notify_one id log q = Inr (log @ unlocked_wakes (found (notify_waker q x)), q')"
    "notify_ok q' ys" "\<not> q_locked q'" "node_states q' = (node_states q)(x \<mapsto> Dequeued)"
    "q_data q' = (q_data q)(x \<mapsto> notified_by NotifyOne)"
proof -
  have okl: "notify_ok (q\<lparr>q_locked := True\<rparr>) (x # ys)" using ok by simp
  obtain q' where q': "wake_single NotifyOne log (q\<lparr>q_locked := True\<rparr>)
      = Inr (log @ unlocked_wakes (found (notify_waker (q\<lparr>q_locked := True\<rparr>) x)), q')" "notify_ok q' ys" "\<not> q_locked q'"
    "node_states q' = (node_states (q\<lparr>q_locked := True\<rparr>))(x \<mapsto> Dequeued)"
    "q_data q' = (q_data (q\<lparr>q_locked := True\<rparr>))(x \<mapsto> notified_by NotifyOne)"
    by (rule wake_single_dequeue [OF okl])
  have "notify_notify_one id log q = wake_single NotifyOne log (q\<lparr>q_locked := True\<rparr>)"
    using notify_single_waiting(1) [where gap = id, OF ok, of "x # ys" NotifyOne log] ok lk
    by (simp add: notify_notify_one_def)
  with q' show ?thesis by (intro that [of q']) simp_all
qed

lemma notified_state_eq:
  assumes "\<not> q_locked (n_queue f)" and "node_states (n_queue f) p = Some st"
  shows "notified_state p id f = Inr (case st of Unqueued \<Rightarrow> (NodeUnqueued, f)
    | Queued \<Rightarrow> (NodeQueued, f\<lparr>n_queue := (n_queue f)\<lparr>q_locked := True\<rparr>\<rparr>) | Dequeued \<Rightarrow> (NodeDequeued, f))"
  using assms raw_state_eq [OF assms(2)] raw_state_eq [of "(n_queue f)\<lparr>q_locked := True\<rparr>" p st]
  by (cases st) (simp_all add: notified_state_def state_from_raw_def lock_def)

text \<open>A poll of an unqueued node while nothing is stored; without a context no waker is left.\<close>

lemma poll_enqueues:
  assumes ok: "notify_ok (n_queue f) ns"
    and p: "node_states (n_queue f) (nf_node self) = Some Unqueued" "q_data (n_queue f) (nf_node self) = Some w" "nw_waker w = None"
    and g: "nf_generation self = n_generation f" and st: "state_of usize_state (n_queue f) \<noteq> Some STATE_NOTIFIED"
  obtains q' where "poll_notified others [(id, id)] gap self cx log f = Inr (Pending, self, log, f\<lparr>n_queue := q'\<rparr>)"
    "notify_ok q' (ns @ [nf_node self])" "q_locked q' = q_locked (n_queue f)"
    "q_data q' = (q_data (n_queue f))(nf_node self \<mapsto> w\<lparr>nw_waker := cx\<rparr>)"
    "dom (q_links q') = dom (q_links (n_queue f))" "node_states q' = (node_states (n_queue f))(nf_node self \<mapsto> Queued)"
proof -
  let ?q = "n_queue f" and ?p = "nf_node self" and ?D = "(q_data (n_queue f))(nf_node self \<mapsto> w\<lparr>nw_waker := cx\<rparr>)"
  obtain q' where q': "try_enqueue_with_queue_state usize_state ?p (\<lambda>s. s = state_of usize_state ?q) []
      (?q\<lparr>q_data := ?D\<rparr>) = Inr (True, q')"
    "queue_wf usize_state q' (ns @ [?p])" "q_locked q' = q_locked ?q" "q_data q' = ?D"
    "dom (q_links q') = dom (q_links ?q)" "node_states q' = (node_states ?q)(?p \<mapsto> Queued)"
    by (rule wf_enqueue_same_state [OF notify_ok_wf [OF ok] p(1)])
  have look: "fetch_update_state usize_state (\<lambda>st. Inr (if st = STATE_NOTIFIED then Some STATE_UNNOTIFIED else None)) [] ?q
      = Inr (Inl (state_of usize_state ?q), ?q)"
    using st by (cases "tail_to_enum usize_state (q_tail ?q)") (simp_all add: state_of_def)
  have same: "?q\<lparr>q_data := ?D\<rparr> = ?q" if "cx = None"
  proof -
    have "w\<lparr>nw_waker := cx\<rparr> = w" using p(3) that by (cases w) simp
    then have "?D = q_data ?q" using p(2) by (simp add: fun_upd_idem)
    then show ?thesis by (cases ?q) simp
  qed
  have "poll_notified_loop [(id, id)] self cx f = Inr (Pending, f\<lparr>n_queue := q'\<rparr>)"
  proof (cases cx)
    case None
    then show ?thesis using look q'(1) g same by (simp add: Let_def del: fetch_update_state.simps)
  next
    case (Some k)
    then show ?thesis using look q'(1) p(2,3) g by (simp add: with_data_mut_def Let_def del: fetch_update_state.simps)
  qed
  moreover have "notified_state ?p others f = Inr (NodeUnqueued, f)"
    using raw_state_eq [OF p(1)] by (simp add: notified_state_def state_from_raw_def)
  ultimately have "poll_notified others [(id, id)] gap self cx log f = Inr (Pending, self, log, f\<lparr>n_queue := q'\<rparr>)"
    by (simp add: poll_notified_def poll_notified_impl_def del: poll_notified_loop.simps)
  moreover have "notify_ok q' (ns @ [?p])" using q'(2,4) ok by (auto simp: notify_ok_def)
  ultimately show ?thesis using q' by (intro that) simp_all
qed

lemma poll_registers:
  assumes ok: "notify_ok (n_queue f) ns" and lk: "\<not> q_locked (n_queue f)"
    and p: "node_states (n_queue f) (nf_node self) = Some Unqueued" "q_data (n_queue f) (nf_node self) = Some w" "nw_waker w = None"
    and g: "nf_generation self = n_generation f" and st: "state_of usize_state (n_queue f) \<noteq> Some STATE_NOTIFIED"
  obtains f' where "notified_poll others [(id, id)] gap self cx log f = Inr (Pending, self, log, f')"
    "notify_ok (n_queue f') (ns @ [nf_node self])" "\<not> q_locked (n_queue f')" "n_generation f' = n_generation f"
    "q_data (n_queue f') = (q_data (n_queue f))(nf_node self \<mapsto> w\<lparr>nw_waker := Some cx\<rparr>)"
    "dom (q_links (n_queue f')) = dom (q_links (n_queue f))"
  by (rule poll_enqueues [OF ok p g st, where cx = "Some cx" and others = others and gap = gap and log = log])
    (use that lk in \<open>simp add: notified_poll_def\<close>)

section \<open>Properties\<close>

text \<open>
  \<^verbatim>\<open>notify_one\<close> and \<^verbatim>\<open>notify_last\<close>. While nobody waits the notification
  is stored in the queue's state, where it stays a single one however often it is repeated. With
  waiters exactly the first and the last one respectively is dequeued, marked with the kind of its
  notification and woken without the lock, and a stored notification is not left behind; the queue
  that counts is the one at the moment the lock is granted.
\<close>

theorem notify_stores_or_wakes:
  assumes "k \<noteq> NotifyAll" and "notify_ok q ms" and "\<not> q_locked q" and "notify_ok (gap q) ns" and "\<not> q_locked (gap q)"
  shows "\<exists>q'. \<not> q_locked q' \<and>
    (if ms = [] \<or> ns = []
     then notify_single k gap log q = Inr (log, q') \<and> notify_ok q' [] \<and> state_of usize_state q' = Some STATE_NOTIFIED
     else notify_single k gap log q = Inr (log @ unlocked_wakes (found (notify_waker (gap q) (chosen k ns))), q')
       \<and> notify_ok q' (remove1 (chosen k ns) ns) \<and> node_states q' (chosen k ns) = Some Dequeued
       \<and> q_data q' (chosen k ns) = Some (notified_by k)
       \<and> (remove1 (chosen k ns) ns = [] \<longrightarrow> state_of usize_state q' = Some STATE_UNNOTIFIED))"
proof (cases "ms = [] \<or> ns = []")
  case True
  show ?thesis
  proof (cases "ms = []")
    case True
    then show ?thesis using notify_single_empty [of q k gap log] assms(2,3) by metis
  next
    case False
    with True have "ns = []" by simp
    then have "notify_single k gap log q = notify_single k id log (gap q)"
      using notify_single_waiting(2) [where gap = gap, OF assms(2) False assms(5)] assms(4) by simp
    then show ?thesis using notify_single_empty [of "gap q" k id log] assms(4,5) True \<open>ns = []\<close> by metis
  qed
next
  case False
  then have ne: "ms \<noteq> []" "ns \<noteq> []" by auto
  have ok: "notify_ok ((gap q)\<lparr>q_locked := True\<rparr>) ns" using assms(4) by simp
  obtain q' where q': "wake_single k log ((gap q)\<lparr>q_locked := True\<rparr>)
      = Inr (log @ unlocked_wakes (found (notify_waker ((gap q)\<lparr>q_locked := True\<rparr>) (chosen k ns))), q')"
    "notify_ok q' (remove1 (chosen k ns) ns)" "\<not> q_locked q'"
    "node_states q' = (node_states ((gap q)\<lparr>q_locked := True\<rparr>))(chosen k ns \<mapsto> Dequeued)"
    "q_data q' = (q_data ((gap q)\<lparr>q_locked := True\<rparr>))(chosen k ns \<mapsto> notified_by k)"
    "remove1 (chosen k ns) ns = [] \<longrightarrow> state_of usize_state q' = Some STATE_UNNOTIFIED"
    by (rule wake_single_ok [OF ok ne(2) assms(1)])
  have "notify_single k gap log q = wake_single k log ((gap q)\<lparr>q_locked := True\<rparr>)"
    by (rule notify_single_waiting(1) [where gap = gap, OF assms(2) ne(1) assms(5,4) ne(2)])
  with q' False show ?thesis by (intro exI [of _ q']) simp
qed

text \<open>Two waiters; the first one has registered a waker, as has the second.\<close>

definition two_notifiees :: "notify_waiter queue" where
  "two_notifiees = \<lparr>q_tail = 8193, q_head = 4096, q_locked = False,
     q_links = [4096 \<mapsto> \<lparr>link_prev = 2, link_next = 8192\<rparr>, 8192 \<mapsto> \<lparr>link_prev = 4096, link_next = 0\<rparr>],
     q_data = [4096 \<mapsto> \<lparr>nw_waker = Some 7, nw_notification = None\<rparr>, 8192 \<mapsto> \<lparr>nw_waker = Some 8, nw_notification = None\<rparr>]\<rparr>"

lemma two_notifiees_ok: "notify_ok two_notifiees [4096, 8192]"
  using queue_wf_same_links [of two_notifiees two_nodes usize_state "[4096, 8192]"] two_nodes_wf
  by (simp add: notify_ok_def two_notifiees_def two_nodes_def)

lemma two_notifiees_simps [simp]:
  "\<not> q_locked two_notifiees" "notify_waker two_notifiees 4096 = Some 7" "notify_waker two_notifiees 8192 = Some 8"
  by (simp_all add: two_notifiees_def notify_waker_def)

theorem notify_stores_or_wakes_witness:
  "\<exists>q'. notify_single NotifyLast id [] two_notifiees = Inr ([(8, False)], q') \<and> notify_ok q' [4096]
     \<and> q_data q' 8192 = Some (notified_by NotifyLast)"
  using notify_stores_or_wakes [of NotifyLast two_notifiees "[4096, 8192]" id "[4096, 8192]" "[]"] two_notifiees_ok
  by (auto simp: chosen_def)

text \<open>
  A notification is not lost with the waiter it went to: dropping a future that was notified by
  \<^verbatim>\<open>notify_one\<close> before it was polled again passes the notification on to the next waiter, or
  stores it if there is none, and the node of the future is gone.
\<close>

theorem dropped_notified_forwards:
  assumes "notify_ok q (x # ys)" and "\<not> q_locked q" and "nf_node self = x" and "\<not> nf_completed self"
  shows "\<exists>q1 log1 log2 f. notify_notify_one id log q = Inr (log1, q1)
    \<and> log1 = log @ unlocked_wakes (found (notify_waker q x))
    \<and> notified_drop id id self log1 \<lparr>n_queue = q1, n_generation = g\<rparr> = Inr (log2, f)
    \<and> q_links (n_queue f) x = None
    \<and> (if ys = [] then log2 = log1 \<and> state_of usize_state (n_queue f) = Some STATE_NOTIFIED
       else log2 = log1 @ unlocked_wakes (found (notify_waker q (hd ys)))
         \<and> q_data (n_queue f) (hd ys) = Some (notified_by NotifyOne)
         \<and> node_states (n_queue f) (hd ys) = Some Dequeued)"
proof -
  let ?log1 = "log @ unlocked_wakes (found (notify_waker q x))"
  have x: "x \<notin> set ys" using queue_inv_distinct [OF queue_wf_inv [OF notify_ok_wf [OF assms(1)]]] by simp
  obtain q1 where q1: "notify_notify_one id log q = Inr (?log1, q1)" "notify_ok q1 ys" "\<not> q_locked q1"
    "node_states q1 = (node_states q)(x \<mapsto> Dequeued)" "q_data q1 = (q_data q)(x \<mapsto> notified_by NotifyOne)"
    by (rule notify_one_waiting [OF assms(1,2)])
  let ?f = "\<lparr>n_queue = q1, n_generation = g\<rparr>"
  have st: "raw_state x q1 = Inr Dequeued" using q1(4) by (intro raw_state_eq) simp
  have cancel: "notify_cancel id id self ?log1 ?f =
      bind_res (notify_notify_one id ?log1 q1) (\<lambda>(log, q). Inr (log, ?f\<lparr>n_queue := q\<rparr>))"
    using st assms(3) q1(5)
    by (simp add: notify_cancel_def notified_state_def state_from_raw_def with_data_def)
  obtain log2 q2 where q2: "notify_notify_one id ?log1 q1 = Inr (log2, q2)" "node_states q2 x = Some Dequeued"
    "if ys = [] then log2 = ?log1 \<and> state_of usize_state q2 = Some STATE_NOTIFIED
     else log2 = ?log1 @ unlocked_wakes (found (notify_waker q (hd ys))) \<and> q_data q2 (hd ys) = Some (notified_by NotifyOne)
       \<and> node_states q2 (hd ys) = Some Dequeued"
  proof (cases ys)
    case Nil
    obtain q2 where "notify_single NotifyOne id ?log1 q1 = Inr (?log1, q2)" "state_of usize_state q2 = Some STATE_NOTIFIED"
      "node_states q2 = node_states q1"
      using notify_single_empty [of q1 NotifyOne id ?log1] q1(2) Nil by metis
    with Nil q1(4) show ?thesis by (intro that [of ?log1 q2]) (simp_all add: notify_notify_one_def)
  next
    case (Cons y zs)
    have ok1: "notify_ok q1 (y # zs)" using q1(2) Cons by simp
    obtain q2 where q2: "notify_notify_one id ?log1 q1 = Inr (?log1 @ unlocked_wakes (found (notify_waker q1 y)), q2)"
      "node_states q2 = (node_states q1)(y \<mapsto> Dequeued)" "q_data q2 = (q_data q1)(y \<mapsto> notified_by NotifyOne)"
      by (rule notify_one_waiting [OF ok1 q1(3)])
    moreover have "notify_waker q1 y = notify_waker q y" using q1(5) x Cons by (auto simp: notify_waker_def)
    ultimately show ?thesis using q2 Cons x q1(4)
      by (intro that [of "?log1 @ unlocked_wakes (found (notify_waker q y))" q2]) auto
  qed
  have "raw_state x q2 = Inr Dequeued" using q2(2) by (rule raw_state_eq)
  then have "notified_drop id id self ?log1 ?f = Inr (log2, ?f\<lparr>n_queue := node_free x q2\<rparr>)"
    using assms(3,4) cancel q2(1) by (simp add: notified_drop_def node_drop_def)
  moreover have "state_of usize_state (node_free x q2) = state_of usize_state q2" "q_links (node_free x q2) x = None"
    by (simp_all add: node_free_def state_of_def)
  moreover have "ys \<noteq> [] \<Longrightarrow> hd ys \<noteq> x" using x by (cases ys) auto
  then have "ys \<noteq> [] \<Longrightarrow> q_data (node_free x q2) (hd ys) = q_data q2 (hd ys) \<and> node_states (node_free x q2) (hd ys) = node_states q2 (hd ys)"
    by (simp add: node_free_def node_states_def)
  ultimately show ?thesis using q1(1) q2(3)
    by (intro exI [of _ q1] exI [of _ ?log1] exI [of _ log2] exI [of _ "?f\<lparr>n_queue := node_free x q2\<rparr>"]) auto
qed

theorem dropped_notified_forwards_witness:
  "\<exists>q1 f. notify_notify_one id [] two_notifiees = Inr ([(7, False)], q1)
     \<and> notified_drop id id \<lparr>nf_node = 4096, nf_generation = 0, nf_completed = False\<rparr> [(7, False)]
          \<lparr>n_queue = q1, n_generation = 0\<rparr> = Inr ([(7, False), (8, False)], f)
     \<and> q_links (n_queue f) 4096 = None"
  using dropped_notified_forwards [OF two_notifiees_ok, of "\<lparr>nf_node = 4096, nf_generation = 0, nf_completed = False\<rparr>" "[]" 0]
  by auto

text \<open>
  C33. \<^verbatim>\<open>notify_waiters\<close> misses nobody. A future that is polled while nothing is stored
  registers its waker at the end of the queue, and a \<^verbatim>\<open>notify_waiters\<close> after that wakes all
  registered wakers in queue order, that one last, without the lock and in finitely many rounds; a
  future that was created before it but has not been polled yet finds the generation changed and is
  ready at its first poll, without touching the queue.
\<close>

theorem notify_waiters_misses_nobody:
  assumes "bounded_wakers A rep" and "notify_ok (n_queue f) ns" and "\<not> q_locked (n_queue f)"
    and "node_states (n_queue f) (nf_node self) = Some Unqueued" and "q_data (n_queue f) (nf_node self) = Some w"
    and "nw_waker w = None" and "nf_generation self = n_generation f"
    and "state_of usize_state (n_queue f) \<noteq> Some STATE_NOTIFIED"
    and "q_links (n_queue f) s = None" and "node_addr s" and "drain_env (=) usize_state s others" and "length ns + 1 < n"
  shows "\<exists>f1 f2. notified_poll id [(id, id)] id self cx log f = Inr (Pending, self, log, f1)
    \<and> notify_ok (n_queue f1) (ns @ [nf_node self])
    \<and> notify_waiters n A s id others log f1
        = Inr (log @ unlocked_wakes (wakers_of (notify_waker (n_queue f)) ns @ [cx]), f2)
    \<and> \<not> q_locked (n_queue f2)
    \<and> (\<forall>late r rounds log. nf_generation late = n_generation f \<longrightarrow> node_states (n_queue f2) (nf_node late) = Some Unqueued
         \<longrightarrow> notified_poll id (r # rounds) id late cx log f2 = Inr (Ready (), late\<lparr>nf_completed := True\<rparr>, log, f2))"
proof -
  let ?p = "nf_node self"
  obtain f1 where f1: "notified_poll id [(id, id)] id self cx log f = Inr (Pending, self, log, f1)"
    "notify_ok (n_queue f1) (ns @ [?p])" "\<not> q_locked (n_queue f1)" "n_generation f1 = n_generation f"
    "q_data (n_queue f1) = (q_data (n_queue f))(?p \<mapsto> w\<lparr>nw_waker := Some cx\<rparr>)"
    "dom (q_links (n_queue f1)) = dom (q_links (n_queue f))"
    by (rule poll_registers [OF assms(2-8)])
  let ?q = "(n_queue f1)\<lparr>q_locked := True\<rparr>"
  let ?k = "notify_waker (n_queue f1)"
  have np: "?p \<notin> set ns"
    using queue_inv_distinct [OF queue_wf_inv [OF notify_ok_wf [OF f1(2)]]] by simp
  have D: "\<forall>x\<in>set (ns @ [?p]). \<exists>w. q_data ?q x = Some w \<and> Inr (nw_waker w) = Inr (?k x)"
    using f1(2) by (fastforce simp: notify_ok_def notify_waker_def)
  have "q_links (n_queue f1) s = None" using f1(6) assms(9) by (metis domIff)
  then have s: "q_links ?q s = None" by simp
  obtain q2 where q2: "drain_wakers A (\<lambda>w. Inr (nw_waker w)) (\<lambda>w. snd (mark_notified NotifyAll w)) n STATE_UNNOTIFIED s others log ?q
      = Inr (log @ unlocked_wakes (wakers_of ?k (ns @ [?p])), q2)" "\<not> q_locked q2"
    using bounded_wakers.drain_wakers_ok [OF assms(1), of ?q "ns @ [?p]" s "\<lambda>w. Inr (nw_waker w)" ?k STATE_UNNOTIFIED others n
        "\<lambda>w. snd (mark_notified NotifyAll w)" log] f1(2) s assms(10-12) D
    by (auto simp: notify_ok_def STATE_UNNOTIFIED_def)
  have "wakers_of ?k (ns @ [?p]) = wakers_of (notify_waker (n_queue f)) ns @ [cx]"
  proof -
    have "wakers_of ?k ns = wakers_of (notify_waker (n_queue f)) ns"
      by (rule wakers_of_cong) (use np f1(5) in \<open>auto simp: notify_waker_def\<close>)
    moreover have "?k ?p = Some cx" using f1(5) by (simp add: notify_waker_def)
    ultimately show ?thesis by simp
  qed
  moreover have "lock id (n_queue f1) = Inr ?q" using f1(3) by (simp add: lock_def)
  ultimately have "notify_waiters n A s id others log f1
      = Inr (log @ unlocked_wakes (wakers_of (notify_waker (n_queue f)) ns @ [cx]), \<lparr>n_queue = q2, n_generation = n_generation f + 1\<rparr>)"
    using q2(1) f1(4) by (simp add: notify_waiters_def Let_def)
  moreover have "notified_poll id (r # rounds) id late cx l \<lparr>n_queue = q2, n_generation = n_generation f + 1\<rparr>
      = Inr (Ready (), late\<lparr>nf_completed := True\<rparr>, l, \<lparr>n_queue = q2, n_generation = n_generation f + 1\<rparr>)"
    if "nf_generation late = n_generation f" "node_states q2 (nf_node late) = Some Unqueued" for late r rounds l
    using that raw_state_eq [OF that(2)]
    by (cases r) (simp add: notified_poll_def poll_notified_def poll_notified_impl_def notified_state_def state_from_raw_def Let_def)
  ultimately show ?thesis using f1(1,2) q2(2)
    by (intro exI [of _ f1] exI [of _ "\<lparr>n_queue = q2, n_generation = n_generation f + 1\<rparr>"]) simp
qed

theorem notify_waiters_misses_nobody_witness:
  "\<exists>f1 f2. notified_poll id [(id, id)] id \<lparr>nf_node = 4096, nf_generation = 0, nf_completed = False\<rparr> 9 []
        \<lparr>n_queue = new_node 0 notify_waiter_default, n_generation = 0\<rparr>
        = Inr (Pending, \<lparr>nf_node = 4096, nf_generation = 0, nf_completed = False\<rparr>, [], f1)
     \<and> notify_waiters 2 waker_list_ops 12288 id id [] f1 = Inr ([(9, False)], f2)"
proof -
  let ?q = "new_node 0 notify_waiter_default" and ?self = "\<lparr>nf_node = 4096, nf_generation = 0, nf_completed = False\<rparr>"
  let ?f = "\<lparr>n_queue = ?q, n_generation = 0\<rparr>"
  have ok: "notify_ok ?q []" using new_node_wf [OF usize_qs.null_is_state] by (simp add: notify_ok_def)
  have env: "drain_env (=) usize_state 12288 (id :: notify_waiter queue \<Rightarrow> notify_waiter queue)" unfolding drain_env_def by auto
  have q: "notify_ok (n_queue ?f) []" "\<not> q_locked (n_queue ?f)" "node_states (n_queue ?f) (nf_node ?self) = Some Unqueued"
    "q_data (n_queue ?f) (nf_node ?self) = Some notify_waiter_default" "nw_waker notify_waiter_default = None"
    "nf_generation ?self = n_generation ?f" "state_of usize_state (n_queue ?f) \<noteq> Some STATE_NOTIFIED"
    "q_links (n_queue ?f) 12288 = None"
    using ok
    by (simp_all add: new_node_def node_with_data_def new_impl_def node_states_def node_link_new_def link_state_def state_of_def
        usize_qs.null_is_state notify_waiter_default_def STATE_NOTIFIED_def)
  have len: "length ([] :: addr list) + 1 < 2" by simp
  obtain f1 f2 where r: "notified_poll id [(id, id)] id ?self 9 [] ?f = Inr (Pending, ?self, [], f1)"
    "notify_waiters 2 waker_list_ops 12288 id id [] f1
       = Inr ([] @ unlocked_wakes (wakers_of (notify_waker (n_queue ?f)) [] @ [9]), f2)"
    using notify_waiters_misses_nobody [OF crate_wakers.bounded_wakers_axioms q two_waiters_simps(5) env len, of 9 "[]"] by blast
  then show ?thesis by auto
qed

end
