(* ===== verification/Notify_Client.thy ===== *)
theory Notify_Client
  imports Notify
begin

text \<open>
  A \<^verbatim>\<open>Notify\<close> of \<^verbatim>\<open>examples/notify.rs\<close> and its clients: any sequence of calls
  by any number of futures, compared with an abstract one that is a list of waiting futures, one stored
  notification and a generation. The calls run one after the other.
\<close>

section \<open>Clients\<close>

record notify_system =
  ny_notify :: notify
  ny_futures :: "(addr \<times> notified_inner) list"

text \<open>
  Futures are named by the address of their node; \<open>NtNotifyWaiters\<close> carries the address of the
  sentinel of its drain. Polls tell the two types of futures apart.
\<close>

datatype notify_op =
    NtNotified addr | NtNotifiedOwned addr | NtPoll bool addr waker | NtEnable bool addr | NtDrop addr
  | NtNotifyOne | NtNotifyLast | NtNotifyWaiters addr

datatype notify_result = NtNothing | NtPending | NtReady | NtFlag bool

fun nt_poll_result :: "unit poll \<Rightarrow> notify_result" where
  "nt_poll_result Pending = NtPending"
| "nt_poll_result (Ready _) = NtReady"

text \<open>
  One call. Calls that the types of the interface rule out (a node address in use, a future that is not
  there) do nothing here.
\<close>

fun notify_op_step :: "'v wakers_ops \<Rightarrow> notify_op \<Rightarrow> notify_system \<Rightarrow> ((notify_result \<times> wakeups) \<times> notify_system) res" where
  "notify_op_step A (NtNotified p) s =
     (if \<not> (node_addr p \<and> q_links (n_queue (ny_notify s)) p = None) then Inr ((NtNothing, []), s)
      else case notify_notified p (ny_notify s) of (self, f) \<Rightarrow>
        Inr ((NtNothing, []), \<lparr>ny_notify = f, ny_futures = ny_futures s @ [(p, self)]\<rparr>))"
| "notify_op_step A (NtNotifiedOwned p) s =
     (if \<not> (node_addr p \<and> q_links (n_queue (ny_notify s)) p = None) then Inr ((NtNothing, []), s)
      else case notify_notified_owned p (ny_notify s) of (self, f) \<Rightarrow>
        Inr ((NtNothing, []), \<lparr>ny_notify = f, ny_futures = ny_futures s @ [(p, self)]\<rparr>))"
| "notify_op_step A (NtPoll owned p cx) s =
     (case map_of (ny_futures s) p of
        None \<Rightarrow> Inr ((NtNothing, []), s)
      | Some self \<Rightarrow> bind_res ((if owned then owned_notified_poll else notified_poll) id [(id, id)] id self cx [] (ny_notify s)) (\<lambda>(r, self, log, f).
          Inr ((nt_poll_result r, log), \<lparr>ny_notify = f, ny_futures = assign p self (ny_futures s)\<rparr>)))"
| "notify_op_step A (NtEnable owned p) s =
     (case map_of (ny_futures s) p of
        None \<Rightarrow> Inr ((NtNothing, []), s)
      | Some self \<Rightarrow> bind_res ((if owned then owned_notified_enable else notified_enable) id [(id, id)] id self [] (ny_notify s)) (\<lambda>(r, self, log, f).
          Inr ((NtFlag r, log), \<lparr>ny_notify = f, ny_futures = assign p self (ny_futures s)\<rparr>)))"
| "notify_op_step A (NtDrop p) s =
     (case map_of (ny_futures s) p of
        None \<Rightarrow> Inr ((NtNothing, []), s)
      | Some self \<Rightarrow> bind_res (notified_drop id id self [] (ny_notify s)) (\<lambda>(log, f).
          Inr ((NtNothing, log), \<lparr>ny_notify = f, ny_futures = without p (ny_futures s)\<rparr>)))"
| "notify_op_step A NtNotifyOne s =
     bind_res (notify_notify_one id [] (n_queue (ny_notify s))) (\<lambda>(log, q).
       Inr ((NtNothing, log), s\<lparr>ny_notify := (ny_notify s)\<lparr>n_queue := q\<rparr>\<rparr>))"
| "notify_op_step A NtNotifyLast s =
     bind_res (notify_notify_last id [] (n_queue (ny_notify s))) (\<lambda>(log, q).
       Inr ((NtNothing, log), s\<lparr>ny_notify := (ny_notify s)\<lparr>n_queue := q\<rparr>\<rparr>))"
| "notify_op_step A (NtNotifyWaiters d) s =
     (if \<not> (node_addr d \<and> q_links (n_queue (ny_notify s)) d = None) then Inr ((NtNothing, []), s)
      else bind_res (notify_waiters (Suc (length (ny_futures s))) A d id id [] (ny_notify s)) (\<lambda>(log, f).
        Inr ((NtNothing, log), s\<lparr>ny_notify := f\<rparr>)))"

definition notify_start :: "notify \<Rightarrow> notify_system" where
  "notify_start f = \<lparr>ny_notify = f, ny_futures = []\<rparr>"

section \<open>The abstract notifier\<close>

text \<open>
  Whether a notification is stored; the waiting futures in order of arrival with the task to wake, if
  they have one; how the others were notified; the futures, with the generation they were created in
  and whether they have completed; the number of \<^verbatim>\<open>notify_waiters\<close> so far, modulo
  \<open>2 ^ 64\<close>.
\<close>

record abs_notifier =
  an_stored :: bool
  an_waiting :: "(addr \<times> waker option) list"
  an_notified :: "addr \<rightharpoonup> notify_kind"
  an_futures :: "(addr \<times> notified_inner) list"
  an_generation :: u64

definition abs_single :: "notify_kind \<Rightarrow> abs_notifier \<Rightarrow> waker list \<times> abs_notifier" where
  "abs_single k a =
     (if an_waiting a = [] then ([], a\<lparr>an_stored := True\<rparr>)
      else let (p, w) = (if k = NotifyOne then hd (an_waiting a) else last (an_waiting a)) in
        (found w, a\<lparr>an_waiting := without p (an_waiting a), an_notified := (an_notified a)(p \<mapsto> k)\<rparr>))"

text \<open>A poll: whether the future waits afterwards.\<close>

definition abs_poll :: "addr \<Rightarrow> notified_inner \<Rightarrow> waker option \<Rightarrow> abs_notifier \<Rightarrow> bool \<times> abs_notifier" where
  "abs_poll p self cx a =
     (if p \<in> fst ` set (an_waiting a)
      then (True, if cx = None then a else a\<lparr>an_waiting := assign p cx (an_waiting a)\<rparr>)
      else if an_notified a p \<noteq> None then (False, a)
      else if an_generation a \<noteq> nf_generation self then (False, a)
      else if an_stored a then (False, a\<lparr>an_stored := False\<rparr>)
      else (True, a\<lparr>an_waiting := an_waiting a @ [(p, cx)]\<rparr>))"

definition abs_complete :: "addr \<Rightarrow> notified_inner \<Rightarrow> bool \<times> abs_notifier \<Rightarrow> abs_notifier" where
  "abs_complete p self r =
     (if fst r then snd r else (snd r)\<lparr>an_futures := assign p (self\<lparr>nf_completed := True\<rparr>) (an_futures (snd r))\<rparr>)"

text \<open>A future goes away; a notification it has received and not seen goes to the next one.\<close>

definition abs_leave :: "addr \<Rightarrow> notified_inner \<Rightarrow> abs_notifier \<Rightarrow> waker list \<times> abs_notifier" where
  "abs_leave p self a =
     (let b = a\<lparr>an_waiting := without p (an_waiting a), an_notified := (an_notified a)(p := None),
          an_futures := without p (an_futures a)\<rparr> in
      case an_notified a p of
        Some k \<Rightarrow> if \<not> nf_completed self \<and> k \<noteq> NotifyAll then abs_single k b else ([], b)
      | None \<Rightarrow> ([], b))"

definition abs_wake_all :: "abs_notifier \<Rightarrow> waker list \<times> abs_notifier" where
  "abs_wake_all a =
     (concat (map (\<lambda>(_, w). found w) (an_waiting a)),
      a\<lparr>an_waiting := [], an_generation := an_generation a + 1,
        an_notified := (\<lambda>p. if p \<in> fst ` set (an_waiting a) then Some NotifyAll else an_notified a p)\<rparr>)"

definition abs_new_future :: "addr \<Rightarrow> abs_notifier \<Rightarrow> abs_notifier" where
  "abs_new_future p a =
     (if node_addr p \<and> p \<notin> fst ` set (an_futures a)
      then a\<lparr>an_futures := an_futures a @ [(p, \<lparr>nf_node = p, nf_generation = an_generation a, nf_completed = False\<rparr>)]\<rparr> else a)"

definition logged :: "notify_result \<Rightarrow> waker list \<times> abs_notifier \<Rightarrow> (notify_result \<times> wakeups) \<times> abs_notifier" where
  "logged r x = ((r, unlocked_wakes (fst x)), snd x)"

fun notify_op_spec :: "notify_op \<Rightarrow> abs_notifier \<Rightarrow> (notify_result \<times> wakeups) \<times> abs_notifier" where
  "notify_op_spec (NtNotified p) a = ((NtNothing, []), abs_new_future p a)"
| "notify_op_spec (NtNotifiedOwned p) a = ((NtNothing, []), abs_new_future p a)"
| "notify_op_spec (NtPoll owned p cx) a =
     (case map_of (an_futures a) p of
        None \<Rightarrow> ((NtNothing, []), a)
      | Some self \<Rightarrow> let r = abs_poll p self (Some cx) a in
          ((if fst r then NtPending else NtReady, []), abs_complete p self r))"
| "notify_op_spec (NtEnable owned p) a =
     (case map_of (an_futures a) p of
        None \<Rightarrow> ((NtNothing, []), a)
      | Some self \<Rightarrow> let r = abs_poll p self None a in ((NtFlag (\<not> fst r), []), abs_complete p self r))"
| "notify_op_spec (NtDrop p) a =
     (case map_of (an_futures a) p of None \<Rightarrow> ((NtNothing, []), a) | Some self \<Rightarrow> logged NtNothing (abs_leave p self a))"
| "notify_op_spec NtNotifyOne a = logged NtNothing (abs_single NotifyOne a)"
| "notify_op_spec NtNotifyLast a = logged NtNothing (abs_single NotifyLast a)"
| "notify_op_spec (NtNotifyWaiters d) a =
     (if \<not> (node_addr d \<and> d \<notin> fst ` set (an_futures a)) then ((NtNothing, []), a) else logged NtNothing (abs_wake_all a))"

definition abs_notifier_start :: abs_notifier where
  "abs_notifier_start = \<lparr>an_stored = False, an_waiting = [], an_notified = Map.empty, an_futures = [], an_generation = 0\<rparr>"

section \<open>The relation\<close>

text \<open>
  A queue stands for a stored notification, a list of waiters and a map of notified nodes, with the
  nodes \<open>fs\<close>. Nodes that neither wait nor were notified have no waker.
\<close>

definition notify_queue_rel ::
  "addr set \<Rightarrow> notify_waiter queue \<Rightarrow> bool \<Rightarrow> (addr \<times> waker option) list \<Rightarrow> (addr \<rightharpoonup> notify_kind) \<Rightarrow> bool" where
  "notify_queue_rel fs q stored ws notif \<longleftrightarrow> notify_ok q (map fst ws) \<and> \<not> q_locked q
     \<and> (ws = [] \<longrightarrow> state_of usize_state q = Some (if stored then STATE_NOTIFIED else STATE_UNNOTIFIED)) \<and> (ws \<noteq> [] \<longrightarrow> \<not> stored)
     \<and> map (notify_waker q) (map fst ws) = map snd ws \<and> node_states q = abs_states (fst ` set ws) (dom notif) fs
     \<and> (\<forall>p\<in>fs. q_data q p \<noteq> None) \<and> (\<forall>p k. notif p = Some k \<longrightarrow> q_data q p = Some (notified_by k))
     \<and> (\<forall>p\<in>fs. p \<notin> fst ` set ws \<and> notif p = None \<longrightarrow> notify_waker q p = None)
     \<and> fst ` set ws \<union> dom notif \<subseteq> fs \<and> fst ` set ws \<inter> dom notif = {}"

lemma notify_queue_relD:
  assumes "notify_queue_rel fs q stored ws notif"
  shows "notify_ok q (map fst ws)" "\<not> q_locked q" "ws = [] \<Longrightarrow> state_of usize_state q = Some (if stored then STATE_NOTIFIED else STATE_UNNOTIFIED)"
    "ws \<noteq> [] \<Longrightarrow> \<not> stored" "map (notify_waker q) (map fst ws) = map snd ws"
    "node_states q = abs_states (fst ` set ws) (dom notif) fs" "p \<in> fs \<Longrightarrow> q_data q p \<noteq> None"
    "notif p = Some k \<Longrightarrow> q_data q p = Some (notified_by k)"
    "p \<in> fs \<Longrightarrow> p \<notin> fst ` set ws \<Longrightarrow> notif p = None \<Longrightarrow> notify_waker q p = None"
    "fst ` set ws \<subseteq> fs" "dom notif \<subseteq> fs" "fst ` set ws \<inter> dom notif = {}" "distinct (map fst ws)"
proof -
  show d: "notify_ok q (map fst ws)" "\<not> q_locked q" "ws = [] \<Longrightarrow> state_of usize_state q = Some (if stored then STATE_NOTIFIED else STATE_UNNOTIFIED)"
    "ws \<noteq> [] \<Longrightarrow> \<not> stored" "map (notify_waker q) (map fst ws) = map snd ws"
    "node_states q = abs_states (fst ` set ws) (dom notif) fs" "p \<in> fs \<Longrightarrow> q_data q p \<noteq> None"
    "notif p = Some k \<Longrightarrow> q_data q p = Some (notified_by k)"
    "p \<in> fs \<Longrightarrow> p \<notin> fst ` set ws \<Longrightarrow> notif p = None \<Longrightarrow> notify_waker q p = None"
    "fst ` set ws \<subseteq> fs" "dom notif \<subseteq> fs" "fst ` set ws \<inter> dom notif = {}"
    using assms unfolding notify_queue_rel_def by (blast, simp_all)
  show "distinct (map fst ws)" using queue_inv_distinct [OF queue_wf_inv [OF notify_ok_wf [OF d(1)]]] .
qed

text \<open>The futures that wait were created in the present generation.\<close>

definition notify_rel :: "notify_system \<Rightarrow> abs_notifier \<Rightarrow> bool" where
  "notify_rel s a \<longleftrightarrow>
     notify_queue_rel (fst ` set (ny_futures s)) (n_queue (ny_notify s)) (an_stored a) (an_waiting a) (an_notified a)
     \<and> an_futures a = ny_futures s \<and> distinct (map fst (ny_futures s)) \<and> n_generation (ny_notify s) = an_generation a
     \<and> (\<forall>p self. map_of (ny_futures s) p = Some self \<longrightarrow> nf_node self = p
          \<and> (p \<in> fst ` set (an_waiting a) \<longrightarrow> nf_generation self = an_generation a))"

lemma notify_rel_free: "notify_queue_rel fs q stored ws notif \<Longrightarrow> q_links q p = None \<longleftrightarrow> p \<notin> fs"
proof -
  assume rel: "notify_queue_rel fs q stored ws notif"
  have "q_links q p = None \<longleftrightarrow> node_states q p = None" by (auto simp: node_states_def split: option.splits)
  also have "\<dots> \<longleftrightarrow> p \<notin> fs"
    unfolding notify_queue_relD(6) [OF rel] using notify_queue_relD(10,11) [OF rel] by (auto simp: abs_states_def)
  finally show ?thesis .
qed

lemma notify_waker_of: "notify_queue_rel fs q stored ws notif \<Longrightarrow> (p, w) \<in> set ws \<Longrightarrow> notify_waker q p = w"
  using notify_queue_relD(5) by (force simp: map_eq_conv [of "notify_waker q \<circ> fst" ws snd, unfolded o_def])


abbreviation nt_rel :: "addr set \<Rightarrow> notify_waiter queue \<Rightarrow> abs_notifier \<Rightarrow> bool" where
  "nt_rel fs q a \<equiv> notify_queue_rel fs q (an_stored a) (an_waiting a) (an_notified a)"

section \<open>The operations\<close>

lemma new_future_rel:
  assumes rel: "notify_queue_rel fs q stored ws notif" and p: "node_addr p" "p \<notin> fs"
  shows "notify_queue_rel (insert p fs) (node_with_data p notify_waiter_default q) stored ws notif"
proof -
  note d = notify_queue_relD [OF rel]
  let ?q = "node_with_data p notify_waiter_default q"
  have free: "q_links q p = None" using notify_rel_free [OF rel] p(2) by simp
  note al = usize_qs.wf_alloc [OF notify_ok_wf [OF d(1)] p(1) free, of notify_waiter_default]
  have n: "p \<notin> fst ` set ws" "p \<notin> dom notif" using d(10,11) p(2) by auto
  have data: "q_data ?q = (q_data q)(p \<mapsto> notify_waiter_default)" "q_locked ?q = q_locked q" "q_tail ?q = q_tail q"
    by (simp_all add: node_with_data_def)
  have "notify_ok ?q (map fst ws)" using d(1) al(1) n(1) data by (auto simp: notify_ok_def)
  moreover have wk: "notify_waker ?q x = (if x = p then None else notify_waker q x)" for x
    using data by (simp add: notify_waker_def notify_waiter_default_def)
  have "notify_waker ?q x = notify_waker q x" if "x \<in> fst ` set ws" for x using that n(1) wk by auto
  then have "map (notify_waker ?q) (map fst ws) = map snd ws" using d(5) by force
  moreover have "node_states ?q = abs_states (fst ` set ws) (dom notif) (insert p fs)"
    using al(2) n p(2) by (auto simp: d(6) abs_states_def fun_eq_iff)
  moreover have "notif p = None" using n(2) by auto
  ultimately show ?thesis unfolding notify_queue_rel_def using d data wk by (auto simp: state_of_def)
qed

text \<open>A single notification: it is stored, or a waiter is taken off the list.\<close>

lemma stored_rel:
  assumes rel: "notify_queue_rel fs q stored [] notif" and st: "state_of usize_state q' = Some (if stored' then STATE_NOTIFIED else STATE_UNNOTIFIED)"
    and q': "notify_ok q' []" "q_locked q' = q_locked q" "node_states q' = node_states q" "q_data q' = q_data q"
  shows "notify_queue_rel fs q' stored' [] notif"
  using assms by (simp add: notify_queue_rel_def notify_waker_def)

lemma notified_rel:
  assumes rel: "notify_queue_rel fs q stored ws notif" and p: "p \<in> fst ` set ws"
    and ok: "notify_ok q' (map fst (without p ws))" and lk: "\<not> q_locked q'"
    and st: "node_states q' = (node_states q)(p \<mapsto> Dequeued)" and data: "q_data q' = (q_data q)(p \<mapsto> notified_by k)"
    and word: "without p ws = [] \<longrightarrow> state_of usize_state q' = Some STATE_UNNOTIFIED"
  shows "notify_queue_rel fs q' stored (without p ws) (notif(p \<mapsto> k))"
proof -
  note d = notify_queue_relD [OF rel]
  have "ws \<noteq> []" using p by auto
  then have "\<not> stored" by (rule d(4))
  have wk: "x \<noteq> p \<Longrightarrow> notify_waker q' x = notify_waker q x" for x using data by (simp add: notify_waker_def)
  then have "notify_waker q' (fst x) = snd x" if "x \<in> set (without p ws)" for x
    using that notify_waker_of [OF rel, of "fst x" "snd x"] by (auto simp: set_without)
  then have "map (notify_waker q') (map fst (without p ws)) = map snd (without p ws)" by (auto simp del: without_keys)
  moreover have "node_states q' = abs_states (fst ` set (without p ws)) (dom (notif(p \<mapsto> k))) fs"
    unfolding st d(6) by (auto simp: abs_states_def fun_eq_iff)
  ultimately show ?thesis unfolding notify_queue_rel_def
    using d \<open>\<not> stored\<close> ok lk word data wk p by (auto simp del: without_keys(1))
qed

lemma single_ok:
  assumes rel: "nt_rel fs q a" and k: "k \<noteq> NotifyAll"
  obtains q' where "notify_single k id log q = Inr (log @ unlocked_wakes (fst (abs_single k a)), q')"
    "nt_rel fs q' (snd (abs_single k a))"
proof (cases "an_waiting a = []")
  case True
  have ok: "notify_ok q []" using notify_queue_relD(1) [OF rel] True by simp
  obtain q' where q': "notify_single k id log q = Inr (log, q')" "state_of usize_state q' = Some STATE_NOTIFIED" "notify_ok q' []"
    "q_locked q' = q_locked q" "node_states q' = node_states q" "q_data q' = q_data q"
    by (rule notify_single_empty [OF ok])
  have "notify_queue_rel fs q' True [] (an_notified a)"
    by (rule stored_rel [OF rel [unfolded True]]) (use q' in simp_all)
  with q'(1) True show ?thesis by (intro that) (simp_all add: abs_single_def)
next
  case False
  note d = notify_queue_relD [OF rel]
  let ?ws = "an_waiting a" and ?q = "q\<lparr>q_locked := True\<rparr>"
  let ?x = "if k = NotifyOne then hd ?ws else last ?ws"
  obtain p w where x: "?x = (p, w)" by (cases ?x)
  have mem: "(p, w) \<in> set ?ws" using x False by (auto split: if_splits) (metis hd_in_set last_in_set)+
  have c: "chosen k (map fst ?ws) = p" using x False by (auto simp: chosen_def hd_map last_map split: if_splits)
  have ok: "notify_ok ?q (map fst ?ws)" "map fst ?ws \<noteq> []" using d(1) False by simp_all
  obtain q' where q': "wake_single k log ?q = Inr (log @ unlocked_wakes (found (notify_waker ?q p)), q')"
    "notify_ok q' (remove1 p (map fst ?ws))" "\<not> q_locked q'" "node_states q' = (node_states ?q)(p \<mapsto> Dequeued)"
    "q_data q' = (q_data ?q)(p \<mapsto> notified_by k)" "remove1 p (map fst ?ws) = [] \<longrightarrow> state_of usize_state q' = Some STATE_UNNOTIFIED"
    by (rule wake_single_ok [where k = k and log = log, OF ok k, unfolded c])
  have rest: "remove1 p (map fst ?ws) = map fst (without p ?ws)" using d(13) by (simp add: remove1_filter)
  have "notify_single k id log q = wake_single k log ?q"
    using notify_single_waiting(1) [where gap = id, OF d(1) ok(2), of "map fst ?ws" k log] d(1,2) ok(2) by simp
  then have "notify_single k id log q = Inr (log @ unlocked_wakes (found w), q')"
    using q'(1) notify_waker_of [OF rel mem] by simp
  moreover have "notify_queue_rel fs q' (an_stored a) (without p ?ws) ((an_notified a)(p \<mapsto> k))"
    by (rule notified_rel [OF rel]) (use q' rest mem in \<open>force simp: without_def\<close>)+
  ultimately show ?thesis using False x by (intro that) (simp_all add: abs_single_def split_beta)
qed


text \<open>A poll.\<close>

lemma repoll_rel:
  assumes rel: "notify_queue_rel fs q stored ws notif" and p: "p \<in> fst ` set ws" and w: "q_data q p = Some w"
  shows "notify_queue_rel fs (q\<lparr>q_data := (q_data q)(p \<mapsto> w\<lparr>nw_waker := cx\<rparr>)\<rparr>) stored (assign p cx ws) notif"
proof -
  note d = notify_queue_relD [OF rel]
  let ?q = "q\<lparr>q_data := (q_data q)(p \<mapsto> w\<lparr>nw_waker := cx\<rparr>)\<rparr>"
  have "notify_ok ?q (map fst ws)" using d(1) by (auto simp: notify_ok_def)
  moreover have wk: "notify_waker ?q x = (if x = p then cx else notify_waker q x)" for x by (simp add: notify_waker_def)
  then have "map (notify_waker ?q) (map fst ws) = map snd (assign p cx ws)" using d(5) by (auto simp: assign_def)
  moreover have "notif p = None" using p d(12) by auto
  ultimately show ?thesis unfolding notify_queue_rel_def using d p wk by auto
qed

lemma enqueued_waits:
  assumes rel: "notify_queue_rel fs q stored ws notif" and p: "p \<in> fs" "p \<notin> fst ` set ws" "notif p = None" and st: "\<not> stored"
    and q': "notify_ok q' (map fst ws @ [p])" "q_locked q' = q_locked q" "q_data q' = (q_data q)(p \<mapsto> w\<lparr>nw_waker := cx\<rparr>)"
      "node_states q' = (node_states q)(p \<mapsto> Queued)"
  shows "notify_queue_rel fs q' stored (ws @ [(p, cx)]) notif"
proof -
  note d = notify_queue_relD [OF rel]
  have wk: "notify_waker q' x = (if x = p then cx else notify_waker q x)" for x using q'(3) by (simp add: notify_waker_def)
  have "notify_waker q' (fst x) = snd x" if "x \<in> set ws" for x
    using that notify_waker_of [OF rel, of "fst x" "snd x"] p(2) wk by auto
  then have "map (notify_waker q') (map fst (ws @ [(p, cx)])) = map snd (ws @ [(p, cx)])" using wk by simp
  moreover have "node_states q' = abs_states (fst ` set (ws @ [(p, cx)])) (dom notif) fs"
    unfolding q'(4) d(6) by (auto simp: abs_states_def fun_eq_iff)
  ultimately show ?thesis unfolding notify_queue_rel_def using d p st q' wk by auto
qed

text \<open>A stored notification is taken.\<close>

lemma take_stored:
  assumes "notify_ok q []" and "state_of usize_state q = Some STATE_NOTIFIED"
  obtains q' where "fetch_update_state usize_state (\<lambda>st. Inr (if st = STATE_NOTIFIED then Some STATE_UNNOTIFIED else None)) [] q
      = Inr (Inr STATE_NOTIFIED, q')" "notify_ok q' []" "state_of usize_state q' = Some STATE_UNNOTIFIED"
    "q_locked q' = q_locked q" "node_states q' = node_states q" "q_data q' = q_data q"
proof -
  obtain w where w: "enum_to_tail usize_state (State STATE_UNNOTIFIED) = Inr w" "tail_to_enum usize_state w = State STATE_UNNOTIFIED"
    by (rule notify_states_encode)
  have "tail_to_enum usize_state (q_tail q) = State STATE_NOTIFIED" using assms(2) by (simp add: state_of_def)
  then have "fetch_update_state usize_state (\<lambda>st. Inr (if st = STATE_NOTIFIED then Some STATE_UNNOTIFIED else None)) [] q
      = Inr (Inr STATE_NOTIFIED, q\<lparr>q_tail := w\<rparr>)" using w(1) by simp
  moreover have "node_states (q\<lparr>q_tail := w\<rparr>) = node_states q" by (simp add: node_states_def fun_eq_iff)
  ultimately show ?thesis using notify_ok_tail [OF assms(1) w(2)]
    by (intro that [of "q\<lparr>q_tail := w\<rparr>"]) (simp_all del: fetch_update_state.simps)
qed

definition poll_result :: "notified_inner \<Rightarrow> bool \<Rightarrow> unit poll \<times> notified_inner" where
  "poll_result self waits = (if waits then (Pending, self) else (Ready (), self\<lparr>nf_completed := True\<rparr>))"

lemma poll_requeues:
  assumes lk: "\<not> q_locked (n_queue f)" and st: "node_states (n_queue f) (nf_node self) = Some Queued"
    and w: "q_data (n_queue f) (nf_node self) = Some w" and g: "nf_generation self = n_generation f"
  shows "poll_notified id rounds id self None log f = Inr (Pending, self, log, f)"
    and "poll_notified id rounds id self (Some cx) log f = Inr (Pending, self, log,
      f\<lparr>n_queue := (n_queue f)\<lparr>q_data := (q_data (n_queue f))(nf_node self \<mapsto> w\<lparr>nw_waker := Some cx\<rparr>)\<rparr>\<rparr>)"
proof -
  note view = notified_state_eq [OF lk st, simplified]
  have u: "f\<lparr>n_queue := (n_queue f)\<lparr>q_locked := False\<rparr>\<rparr> = f" using unlock_id [OF lk] by (cases f) simp
  show "poll_notified id rounds id self None log f = Inr (Pending, self, log, f)"
    using view g u by (simp add: poll_notified_def poll_notified_impl_def unlock_def)
  have q: "(n_queue f)\<lparr>q_locked := True, q_data := D, q_locked := False\<rparr> = (n_queue f)\<lparr>q_data := D\<rparr>" for D
    using lk by (cases "n_queue f") simp
  show "poll_notified id rounds id self (Some cx) log f = Inr (Pending, self, log,
      f\<lparr>n_queue := (n_queue f)\<lparr>q_data := (q_data (n_queue f))(nf_node self \<mapsto> w\<lparr>nw_waker := Some cx\<rparr>)\<rparr>\<rparr>)"
  proof (cases "nw_waker w = Some cx")
    case True
    then have e: "w\<lparr>nw_waker := Some cx\<rparr> = w" by (cases w) simp
    show ?thesis unfolding e using view g w q True by (simp add: poll_notified_def poll_notified_impl_def with_data_mut_def unlock_def)
  next
    case False
    then show ?thesis using view g w q by (simp add: poll_notified_def poll_notified_impl_def with_data_mut_def unlock_def)
  qed
qed

lemma poll_ok:
  assumes rel: "nt_rel fs (n_queue f) a" and p: "nf_node self = p" "p \<in> fs" and g: "n_generation f = an_generation a"
    and w: "p \<in> fst ` set (an_waiting a) \<Longrightarrow> nf_generation self = an_generation a"
  obtains q' r self' where "poll_notified id [(id, id)] id self cx [] f = Inr (r, self', [], f\<lparr>n_queue := q'\<rparr>)"
    "(r, self') = poll_result self (fst (abs_poll p self cx a))" "nt_rel fs q' (snd (abs_poll p self cx a))"
proof -
  note d = notify_queue_relD [OF rel]
  let ?q = "n_queue f"
  obtain v where v: "q_data ?q p = Some v" using d(7) p(2) by blast
  consider (waits) "p \<in> fst ` set (an_waiting a)" | (notif) "p \<notin> fst ` set (an_waiting a)" "an_notified a p \<noteq> None"
    | (old) "p \<notin> fst ` set (an_waiting a)" "an_notified a p = None" "an_generation a \<noteq> nf_generation self"
    | (stored) "p \<notin> fst ` set (an_waiting a)" "an_notified a p = None" "an_generation a = nf_generation self" "an_stored a"
    | (new) "p \<notin> fst ` set (an_waiting a)" "an_notified a p = None" "an_generation a = nf_generation self" "\<not> an_stored a" by blast
  then show ?thesis
  proof cases
    case waits
    then have st: "node_states ?q (nf_node self) = Some Queued" using p by (simp add: d(6) abs_states_def)
    have gen: "nf_generation self = n_generation f" using w [OF waits] g by simp
    show ?thesis
    proof (cases cx)
      case None
      then show ?thesis using that [of Pending self ?q] poll_requeues(1) [OF d(2) st _ gen] v p rel waits
        by (simp add: abs_poll_def poll_result_def)
    next
      case (Some k)
      then show ?thesis using that poll_requeues(2) [OF d(2) st _ gen, of v] v p waits repoll_rel [OF rel waits v, of cx]
        by (simp add: abs_poll_def poll_result_def)
    qed
  next
    case notif
    then have "node_states ?q (nf_node self) = Some Dequeued" using p by (auto simp: d(6) abs_states_def)
    from notified_state_eq [OF d(2) this] notif p rel that [of "Ready ()" "self\<lparr>nf_completed := True\<rparr>" ?q] show ?thesis
      by (simp add: poll_notified_def poll_notified_impl_def abs_poll_def poll_result_def)
  next
    case old
    then have "node_states ?q (nf_node self) = Some Unqueued" using p by (auto simp: d(6) abs_states_def)
    from notified_state_eq [OF d(2) this] old p g rel that [of "Ready ()" "self\<lparr>nf_completed := True\<rparr>" ?q] show ?thesis
      by (simp add: poll_notified_def poll_notified_impl_def abs_poll_def poll_result_def)
  next
    case stored
    then have st: "node_states ?q (nf_node self) = Some Unqueued" using p by (auto simp: d(6) abs_states_def)
    have e: "an_waiting a = []" using d(4) stored(4) by blast
    have ok: "notify_ok ?q []" "state_of usize_state ?q = Some STATE_NOTIFIED" using d(1,3) e stored(4) by simp_all
    obtain q' where q': "fetch_update_state usize_state (\<lambda>st. Inr (if st = STATE_NOTIFIED then Some STATE_UNNOTIFIED else None)) [] ?q
        = Inr (Inr STATE_NOTIFIED, q')" "notify_ok q' []" "state_of usize_state q' = Some STATE_UNNOTIFIED"
      "q_locked q' = q_locked ?q" "node_states q' = node_states ?q" "q_data q' = q_data ?q"
      by (rule take_stored [OF ok])
    have "notify_queue_rel fs q' False [] (an_notified a)" by (rule stored_rel [OF rel [unfolded e]]) (use q' in simp_all)
    moreover have "poll_notified id [(id, id)] id self cx [] f = Inr (Ready (), self\<lparr>nf_completed := True\<rparr>, [], f\<lparr>n_queue := q'\<rparr>)"
      using notified_state_eq [OF d(2) st] q'(1) stored(3) g
      by (simp add: poll_notified_def poll_notified_impl_def Let_def del: fetch_update_state.simps)
    ultimately show ?thesis using that stored e by (simp add: abs_poll_def poll_result_def)
  next
    case new
    then have st: "node_states ?q (nf_node self) = Some Unqueued" using p by (auto simp: d(6) abs_states_def)
    have nw: "nw_waker v = None" using d(9) [OF p(2) new(1,2)] v by (simp add: notify_waker_def)
    have word: "state_of usize_state ?q \<noteq> Some STATE_NOTIFIED"
      using d(3) new(4) notify_state_None [OF d(1)] by (cases "an_waiting a = []") (simp_all add: STATE_NOTIFIED_def STATE_UNNOTIFIED_def)
    have gen: "nf_generation self = n_generation f" and vp: "q_data ?q (nf_node self) = Some v" using new(3) g v p by simp_all
    obtain q' where q': "poll_notified id [(id, id)] id self cx [] f = Inr (Pending, self, [], f\<lparr>n_queue := q'\<rparr>)"
      "notify_ok q' (map fst (an_waiting a) @ [p])" "q_locked q' = q_locked ?q"
      "q_data q' = (q_data ?q)(p \<mapsto> v\<lparr>nw_waker := cx\<rparr>)" "node_states q' = (node_states ?q)(p \<mapsto> Queued)"
      using poll_enqueues [OF d(1) st vp nw gen word, where cx = cx and others = id and gap = id and log = "[]"] p(1) by metis
    have "notify_queue_rel fs q' (an_stored a) (an_waiting a @ [(p, cx)]) (an_notified a)"
      by (rule enqueued_waits [OF rel p(2) new(1,2,4) q'(2-5)])
    with q'(1) new show ?thesis using that by (simp add: abs_poll_def poll_result_def)
  qed
qed


text \<open>A node goes away.\<close>

lemma left_rel:
  assumes rel: "notify_queue_rel fs q stored ws notif" and wf: "queue_wf usize_state q1 (map fst (without p ws))"
    and lk: "\<not> q_locked q1" and data: "q_data q1 = q_data q"
    and st: "\<forall>x. x \<noteq> p \<longrightarrow> node_states q1 x = node_states q x"
    and word: "without p ws = [] \<Longrightarrow> state_of usize_state q1 = Some (if stored then STATE_NOTIFIED else STATE_UNNOTIFIED)"
  shows "notify_queue_rel (fs - {p}) (node_free p q1) stored (without p ws) (notif(p := None))"
proof -
  note d = notify_queue_relD [OF rel]
  let ?q = "node_free p q1"
  have n: "p \<notin> set (map fst (without p ws))" by simp
  note fr = usize_qs.wf_free [OF wf n]
  have D: "q_data ?q = (q_data q)(p := None)" "q_locked ?q = q_locked q1" "state_of usize_state ?q = state_of usize_state q1"
    using data by (simp_all add: node_free_def state_of_def)
  have wk: "x \<noteq> p \<Longrightarrow> notify_waker ?q x = notify_waker q x" for x using D(1) by (simp add: notify_waker_def)
  have "notify_ok ?q (map fst (without p ws))" using d(1) fr(1) D(1) by (auto simp: notify_ok_def)
  moreover have "notify_waker ?q (fst x) = snd x" if "x \<in> set (without p ws)" for x
    using that notify_waker_of [OF rel, of "fst x" "snd x"] wk by (auto simp: set_without)
  then have "map (notify_waker ?q) (map fst (without p ws)) = map snd (without p ws)" by (auto simp del: without_keys)
  moreover have "node_states ?q = abs_states (fst ` set (without p ws)) (dom (notif(p := None))) (fs - {p})"
    using fr(2) st d(6,10,11) by (auto simp: abs_states_def fun_eq_iff)
  moreover have "without p ws \<noteq> [] \<Longrightarrow> \<not> stored" using d(4) by (cases ws) auto
  ultimately show ?thesis unfolding notify_queue_rel_def using d D lk word wk
    by (auto simp del: without_keys(1))
qed

lemma unlink_rel:
  assumes rel: "notify_queue_rel fs q stored ws notif" and p: "p \<in> fst ` set ws" and w: "tail_to_enum usize_state w = State STATE_UNNOTIFIED"
  obtains q1 where "remove usize_state p w False (q\<lparr>q_locked := True\<rparr>) = Inr (p = last (map fst ws), q1)"
    "node_states q1 p = Some Dequeued" "notify_queue_rel (fs - {p}) (node_free p (unlock q1)) stored (without p ws) (notif(p := None))"
proof -
  note d = notify_queue_relD [OF rel]
  let ?q = "q\<lparr>q_locked := True\<rparr>" and ?ns = "map fst ws"
  have wf: "queue_wf usize_state ?q ?ns" and mem: "p \<in> set ?ns" using notify_ok_wf [OF d(1)] p by simp_all
  obtain q1 where q1: "remove usize_state p w False ?q = Inr (p = last ?ns, q1)" "queue_wf usize_state q1 (remove1 p ?ns)"
    "node_states q1 = (node_states ?q)(p \<mapsto> Dequeued)" "frame ?q q1" "remove1 p ?ns = [] \<longrightarrow> state_of usize_state q1 = Some STATE_UNNOTIFIED"
    by (rule usize_qs.wf_remove [OF wf mem w])
  have ns: "map fst (without p ws) = remove1 p ?ns" using d(13) by (simp add: remove1_filter)
  have "ws \<noteq> []" using p by auto
  then have "\<not> stored" by (rule d(4))
  have "notify_queue_rel (fs - {p}) (node_free p (unlock q1)) stored (without p ws) (notif(p := None))"
  proof (rule left_rel [OF rel])
    show "queue_wf usize_state (unlock q1) (map fst (without p ws))" unfolding ns using q1(2) by simp
    assume "without p ws = []"
    then have "remove1 p ?ns = []" using arg_cong [of "without p ws" "[]" "map fst"] unfolding ns by simp
    then show "state_of usize_state (unlock q1) = Some (if stored then STATE_NOTIFIED else STATE_UNNOTIFIED)"
      using q1(5) \<open>\<not> stored\<close> by simp
  qed (use q1(3,4) in \<open>simp_all add: frame_def\<close>)
  with q1 show ?thesis by (intro that) simp_all
qed

lemma node_drop_rel:
  assumes rel: "notify_queue_rel fs q stored ws notif" and p: "p \<in> fs"
  obtains q' where "node_drop usize_state p id q = Inr q'" "notify_queue_rel (fs - {p}) q' stored (without p ws) (notif(p := None))"
proof (cases "p \<in> fst ` set ws")
  case True
  note d = notify_queue_relD [OF rel]
  have st: "node_states q p = Some Queued" using True by (simp add: d(6) abs_states_def)
  have null: "tail_to_enum usize_state 0 = State STATE_UNNOTIFIED" using usize_qs.null_is_state by (simp add: STATE_UNNOTIFIED_def)
  obtain q1 where q1: "remove usize_state p 0 False (q\<lparr>q_locked := True\<rparr>) = Inr (p = last (map fst ws), q1)"
    "notify_queue_rel (fs - {p}) (node_free p (unlock q1)) stored (without p ws) (notif(p := None))"
    by (rule unlink_rel [OF rel True null])
  have "raw_state p (q\<lparr>q_locked := True\<rparr>) = Inr Queued" using st by (intro raw_state_eq) simp
  then have "node_drop usize_state p id q = Inr (node_free p (unlock q1))"
    using raw_state_eq [OF st] d(2) q1(1) by (simp add: node_drop_def node_dequeue_def lock_def)
  with q1(2) show ?thesis by (intro that)
next
  case False
  note d = notify_queue_relD [OF rel]
  have "node_states q p = Some (if p \<in> dom notif then Dequeued else Unqueued)" using False p by (simp add: d(6) abs_states_def)
  then have run: "node_drop usize_state p id q = Inr (node_free p q)" by (auto simp: node_drop_def dest!: raw_state_eq split: if_splits)
  have "notify_queue_rel (fs - {p}) (node_free p q) stored (without p ws) (notif(p := None))"
    by (rule left_rel [OF rel]) (use False d(1-3) in \<open>simp_all add: without_id notify_ok_wf\<close>)
  with run show ?thesis by (intro that)
qed


abbreviation abs_gone :: "addr \<Rightarrow> abs_notifier \<Rightarrow> abs_notifier" where
  "abs_gone p a \<equiv> a\<lparr>an_waiting := without p (an_waiting a), an_notified := (an_notified a)(p := None),
     an_futures := without p (an_futures a)\<rparr>"

text \<open>To free a notified node and to notify another one are independent of each other.\<close>

lemma single_gone:
  assumes "p \<notin> fst ` set (an_waiting a)"
  shows "fst (abs_single k (abs_gone p a)) = fst (abs_single k a)"
    and "snd (abs_single k (abs_gone p a)) = abs_gone p (snd (abs_single k a))"
proof -
  have w: "without p (an_waiting a) = an_waiting a" using assms by (rule without_id)
  have both: "abs_single k (abs_gone p a) = (fst (abs_single k a), abs_gone p (snd (abs_single k a)))"
  proof (cases "an_waiting a = []")
    case True
    then show ?thesis by (simp add: abs_single_def)
  next
    case False
    let ?x = "if k = NotifyOne then hd (an_waiting a) else last (an_waiting a)"
    obtain x v where x: "?x = (x, v)" by (cases ?x)
    have "?x \<in> set (an_waiting a)" using False by simp
    then have "x \<in> fst ` set (an_waiting a)" unfolding x by force
    then have "x \<noteq> p" using assms by blast
    moreover have "without p (without x (an_waiting a)) = without x (an_waiting a)" using assms by (intro without_id) simp
    ultimately show ?thesis unfolding abs_single_def using False w x by (cases "k = NotifyOne"; simp add: fun_upd_twist)
  qed
  show "fst (abs_single k (abs_gone p a)) = fst (abs_single k a)"
    "snd (abs_single k (abs_gone p a)) = abs_gone p (snd (abs_single k a))"
    unfolding both by simp_all
qed

lemma single_keeps:
  "p \<notin> fst ` set (an_waiting a) \<Longrightarrow> p \<notin> fst ` set (an_waiting (snd (abs_single k a)))"
  "an_futures (snd (abs_single k a)) = an_futures a" "an_generation (snd (abs_single k a)) = an_generation a"
  "fst ` set (an_waiting (snd (abs_single k a))) \<subseteq> fst ` set (an_waiting a)"
  by (auto simp: abs_single_def split_beta)

lemma leave_ok:
  assumes rel: "nt_rel fs (n_queue f) a" and p: "nf_node self = p" "p \<in> fs"
  obtains q' where "notified_drop id id self [] f = Inr (unlocked_wakes (fst (abs_leave p self a)), f\<lparr>n_queue := q'\<rparr>)"
    "nt_rel (fs - {p}) q' (snd (abs_leave p self a))"
proof -
  note d = notify_queue_relD [OF rel]
  let ?q = "n_queue f"
  have f: "f\<lparr>n_queue := ?q\<rparr> = f" by simp
  consider (free) "nf_completed self \<or> (p \<notin> fst ` set (an_waiting a) \<and> (an_notified a p = None \<or> an_notified a p = Some NotifyAll))"
    | (waits) "\<not> nf_completed self" "p \<in> fst ` set (an_waiting a)"
    | (pass) k where "\<not> nf_completed self" "p \<notin> fst ` set (an_waiting a)" "an_notified a p = Some k" "k \<noteq> NotifyAll"
    by (cases "an_notified a p") auto
  then show ?thesis
  proof cases
    case free
    have run: "notify_cancel id id self [] f = Inr ([], f)" if "\<not> nf_completed self"
    proof (cases "an_notified a p")
      case None
      then have "node_states ?q (nf_node self) = Some Unqueued" using free that p by (auto simp: d(6) abs_states_def)
      from notified_state_eq [OF d(2) this] show ?thesis by (simp add: notify_cancel_def)
    next
      case (Some k)
      then have "node_states ?q (nf_node self) = Some Dequeued" "k = NotifyAll" using free that p by (auto simp: d(6) abs_states_def)
      with notified_state_eq [OF d(2) this(1)] d(8) [OF Some] p(1) show ?thesis by (simp add: notify_cancel_def with_data_def)
    qed
    obtain q' where q': "node_drop usize_state p id ?q = Inr q'" "nt_rel (fs - {p}) q' (abs_gone p a)"
      using node_drop_rel [OF rel p(2)] by auto
    have "abs_leave p self a = ([], abs_gone p a)" using free d(12) by (auto simp: abs_leave_def Let_def split: option.split)
    moreover have "notified_drop id id self [] f = Inr ([], f\<lparr>n_queue := q'\<rparr>)"
      using q'(1) p(1) run by (simp add: notified_drop_def)
    ultimately show ?thesis using that q'(2) by simp
  next
    case waits
    obtain w where w: "enum_to_tail usize_state (State STATE_UNNOTIFIED) = Inr w" "tail_to_enum usize_state w = State STATE_UNNOTIFIED"
      by (rule notify_states_encode)
    obtain q1 where q1: "remove usize_state p w False (?q\<lparr>q_locked := True\<rparr>) = Inr (p = last (map fst (an_waiting a)), q1)"
      "node_states q1 p = Some Dequeued" "notify_queue_rel (fs - {p}) (node_free p (unlock q1)) (an_stored a)
         (without p (an_waiting a)) ((an_notified a)(p := None))"
      by (rule unlink_rel [OF rel waits(2) w(2)])
    have "node_states ?q (nf_node self) = Some Queued" using waits p by (simp add: d(6) abs_states_def)
    from notified_state_eq [OF d(2) this] have "notify_cancel id id self [] f = Inr ([], f\<lparr>n_queue := unlock q1\<rparr>)"
      using q1(1) w(1) p(1) by (simp add: notify_cancel_def node_queued_dequeue_try_set_queue_state_def)
    moreover have "raw_state p (unlock q1) = Inr Dequeued" using q1(2) by (intro raw_state_eq) simp
    ultimately have "notified_drop id id self [] f = Inr ([], f\<lparr>n_queue := node_free p (unlock q1)\<rparr>)"
      using waits(1) p(1) by (simp add: notified_drop_def node_drop_def)
    moreover have "abs_leave p self a = ([], abs_gone p a)" using waits d(12) by (auto simp: abs_leave_def Let_def split: option.split)
    ultimately show ?thesis using that q1(3) by simp
  next
    case pass
    obtain q1 where q1: "notify_single k id [] ?q = Inr ([] @ unlocked_wakes (fst (abs_single k a)), q1)" "nt_rel fs q1 (snd (abs_single k a))"
      by (rule single_ok [OF rel pass(4)])
    obtain q' where q': "node_drop usize_state p id q1 = Inr q'" "nt_rel (fs - {p}) q' (abs_gone p (snd (abs_single k a)))"
      using node_drop_rel [OF q1(2) p(2)] by auto
    have "node_states ?q (nf_node self) = Some Dequeued" using pass p by (auto simp: d(6) abs_states_def)
    from notified_state_eq [OF d(2) this] have "notify_cancel id id self [] f = Inr (unlocked_wakes (fst (abs_single k a)), f\<lparr>n_queue := q1\<rparr>)"
      using q1(1) d(8) [OF pass(3)] p(1) pass(4)
      by (cases k) (simp_all add: notify_cancel_def with_data_def notify_notify_one_def notify_notify_last_def)
    then have "notified_drop id id self [] f = Inr (unlocked_wakes (fst (abs_single k a)), f\<lparr>n_queue := q'\<rparr>)"
      using q'(1) pass(1) p(1) by (simp add: notified_drop_def)
    moreover have "abs_leave p self a = abs_single k (abs_gone p a)" using pass by (simp add: abs_leave_def Let_def)
    ultimately show ?thesis using that q'(2) single_gone [OF pass(2), of k] by simp
  qed
qed

context bounded_wakers
begin

lemma wake_all_ok:
  assumes rel: "nt_rel fs (n_queue f) a" and s: "node_addr s" "s \<notin> fs" and n: "length (an_waiting a) < n"
  obtains q' where "notify_waiters n A s id id [] f = Inr (unlocked_wakes (fst (abs_wake_all a)), \<lparr>n_queue = q', n_generation = n_generation f + 1\<rparr>)"
    "nt_rel fs q' (snd (abs_wake_all a))"
proof -
  note d = notify_queue_relD [OF rel]
  let ?q = "(n_queue f)\<lparr>q_locked := True\<rparr>" and ?ns = "map fst (an_waiting a)" and ?k = "notify_waker (n_queue f)"
    and ?get = "\<lambda>w. Inr (nw_waker w)" and ?upd = "\<lambda>w. snd (mark_notified NotifyAll w)"
  have D: "\<forall>x\<in>set ?ns. \<exists>w. q_data ?q x = Some w \<and> ?get w = Inr (?k x)"
    using d(1) by (fastforce simp: notify_ok_def notify_waker_def)
  have pre: "queue_wf usize_state ?q ?ns" "q_locked ?q" "q_links ?q s = None" "STATE_UNNOTIFIED \<le> INTRUSIVE_QUEUE_MAX_STATE" "length ?ns < n"
    using notify_ok_wf [OF d(1)] notify_rel_free [OF rel, of s] s n by (simp_all add: STATE_UNNOTIFIED_def)
  obtain q' where q': "drain_wakers A ?get ?upd n STATE_UNNOTIFIED s id [] ?q = Inr ([] @ unlocked_wakes (wakers_of ?k ?ns), q')"
    "queue_wf usize_state q' []" "\<not> q_locked q'" "state_of usize_state q' = (if ?ns = [] then state_of usize_state ?q else Some STATE_UNNOTIFIED)"
    "q_data q' = (\<lambda>x. if x \<in> set ?ns then map_option ?upd (q_data ?q x) else q_data ?q x)"
    "node_states q' = (\<lambda>x. if x \<in> set ?ns then Some Dequeued else node_states ?q x)"
    by (rule drain_wakers_alone [OF pre(1-3) s(1) D pre(4,5)])
  have "lock id (n_queue f) = Inr ?q" using d(2) by (simp add: lock_def)
  then have run: "notify_waiters n A s id id [] f = Inr (unlocked_wakes (wakers_of ?k ?ns), \<lparr>n_queue = q', n_generation = n_generation f + 1\<rparr>)"
    using q'(1) by (simp add: notify_waiters_def Let_def)
  have wakers: "wakers_of ?k ?ns = fst (abs_wake_all a)"
  proof -
    have "?k (fst x) = snd x" if "x \<in> set (an_waiting a)" for x using that notify_waker_of [OF rel, of "fst x" "snd x"] by simp
    then have "map (\<lambda>x. found (?k (fst x))) (an_waiting a) = map (\<lambda>(_, w). found w) (an_waiting a)" by (auto simp: split_beta)
    then show ?thesis by (simp only: abs_wake_all_def wakers_of_def map_map o_def fst_conv)
  qed
  have "nt_rel fs q' (snd (abs_wake_all a))"
  proof -
    let ?notif = "\<lambda>p. if p \<in> fst ` set (an_waiting a) then Some NotifyAll else an_notified a p"
    have data: "q_data q' x = (if x \<in> fst ` set (an_waiting a) then Some (notified_by NotifyAll) else q_data (n_queue f) x)" for x
      using q'(5) D by (auto simp: mark_notified_eq)
    have "notify_queue_rel fs q' (an_stored a) [] ?notif"
      unfolding notify_queue_rel_def
    proof (intro conjI)
      show "notify_ok q' (map fst [])" using q'(2) by (simp add: notify_ok_def)
      show "[] = [] \<longrightarrow> state_of usize_state q' = Some (if an_stored a then STATE_NOTIFIED else STATE_UNNOTIFIED)"
        using q'(4) d(3,4) by (cases "an_waiting a = []") (simp_all add: state_of_def)
      show "node_states q' = abs_states (fst ` set []) (dom ?notif) fs"
        using q'(6) d(6,12) by (auto simp: abs_states_def fun_eq_iff dom_def)
      show "fst ` set [] \<union> dom ?notif \<subseteq> fs" using d(10,11) unfolding dom_def by (force split: if_splits)
      show "\<forall>p\<in>fs. q_data q' p \<noteq> None" using d(7) data by simp
      show "\<forall>p k. ?notif p = Some k \<longrightarrow> q_data q' p = Some (notified_by k)" using d(8) data by simp
      show "\<forall>p\<in>fs. p \<notin> fst ` set [] \<and> ?notif p = None \<longrightarrow> notify_waker q' p = None"
        using d(9) data by (simp add: notify_waker_def)
    qed (use q'(3) in simp_all)
    then show ?thesis by (simp add: abs_wake_all_def)
  qed
  with run wakers show ?thesis by (intro that [of q']) simp_all
qed

end


section \<open>The simulation\<close>

definition notify_step_ok :: "'v wakers_ops \<Rightarrow> notify_op \<Rightarrow> notify_system \<Rightarrow> abs_notifier \<Rightarrow> bool" where
  "notify_step_ok A op s a \<longleftrightarrow>
     (\<exists>s'. notify_op_step A op s = Inr (fst (notify_op_spec op a), s') \<and> notify_rel s' (snd (notify_op_spec op a)))"

lemma notify_relD:
  assumes "notify_rel s a"
  shows "nt_rel (fst ` set (ny_futures s)) (n_queue (ny_notify s)) a" "an_futures a = ny_futures s" "distinct (map fst (ny_futures s))"
    "n_generation (ny_notify s) = an_generation a" "map_of (ny_futures s) p = Some self \<Longrightarrow> nf_node self = p"
    "map_of (ny_futures s) p = Some self \<Longrightarrow> p \<in> fst ` set (an_waiting a) \<Longrightarrow> nf_generation self = an_generation a"
    "map_of (ny_futures s) p = Some self \<Longrightarrow> p \<in> fst ` set (ny_futures s)"
  using assms by (auto simp: notify_rel_def dest!: map_of_SomeD intro: rev_image_eqI)

lemma notify_rel_keep:
  assumes r: "notify_rel s a" and q: "nt_rel (fst ` set fs) q b" and b: "an_futures b = fs" "an_generation b = an_generation a"
    and waiting: "fst ` set (an_waiting b) \<subseteq> fst ` set (an_waiting a)" and fs: "distinct (map fst fs)" "set fs \<subseteq> set (ny_futures s)"
  shows "notify_rel \<lparr>ny_notify = (ny_notify s)\<lparr>n_queue := q\<rparr>, ny_futures = fs\<rparr> b"
proof -
  note d = notify_relD [OF r]
  have "nf_node v = x \<and> (x \<in> fst ` set (an_waiting b) \<longrightarrow> nf_generation v = an_generation a)" if v: "map_of fs x = Some v" for x v
  proof -
    have "map_of (ny_futures s) x = Some v" using map_of_is_SomeI [OF d(3)] map_of_SomeD [OF v] fs(2) by blast
    from d(5,6) [OF this] show ?thesis using subsetD [OF waiting] by simp
  qed
  then show ?thesis unfolding notify_rel_def using q b fs(1) d(4) by simp
qed

lemma new_future_step:
  assumes r: "notify_rel s a"
  shows "notify_step_ok A (NtNotified p) s a" "notify_step_ok A (NtNotifiedOwned p) s a"
proof -
  note d = notify_relD [OF r]
  let ?self = "\<lparr>nf_node = p, nf_generation = n_generation (ny_notify s), nf_completed = False\<rparr>"
  let ?f = "(ny_notify s)\<lparr>n_queue := node_with_data p notify_waiter_default (n_queue (ny_notify s))\<rparr>"
  have g: "q_links (n_queue (ny_notify s)) p = None \<longleftrightarrow> p \<notin> fst ` set (ny_futures s)" by (rule notify_rel_free [OF d(1)])
  have "notify_rel \<lparr>ny_notify = ?f, ny_futures = ny_futures s @ [(p, ?self)]\<rparr> (abs_new_future p a)"
    if "node_addr p" "p \<notin> fst ` set (ny_futures s)"
  proof -
    have "p \<notin> fst ` set (an_waiting a)" using notify_queue_relD(10) [OF d(1)] that(2) by blast
    then show ?thesis using r new_future_rel [OF d(1) that] d that
      by (auto simp: notify_rel_def abs_new_future_def map_add_def split: option.splits if_splits)
  qed
  then show "notify_step_ok A (NtNotified p) s a" "notify_step_ok A (NtNotifiedOwned p) s a"
    unfolding notify_step_ok_def using r g d(2,4)
    by (cases "node_addr p \<and> p \<notin> fst ` set (ny_futures s)";
        auto simp: notify_notified_def notify_notified_owned_def abs_new_future_def)+
qed

lemma polled_rel:
  assumes r: "notify_rel s a" and f: "map_of (ny_futures s) p = Some self"
    and q': "nt_rel (fst ` set (ny_futures s)) q' (snd (abs_poll p self cx a))"
    and res: "(res, self') = poll_result self (fst (abs_poll p self cx a))"
  shows "notify_rel \<lparr>ny_notify = (ny_notify s)\<lparr>n_queue := q'\<rparr>, ny_futures = assign p self' (ny_futures s)\<rparr>
    (abs_complete p self (abs_poll p self cx a))"
proof -
  note d = notify_relD [OF r]
  let ?b = "abs_complete p self (abs_poll p self cx a)"
  have keep: "an_futures (snd (abs_poll p self cx a)) = an_futures a" "an_generation (snd (abs_poll p self cx a)) = an_generation a"
    by (simp_all add: abs_poll_def)
  have self': "nf_node self' = p" "nf_generation self' = nf_generation self"
    using res d(5) [OF f] by (auto simp: poll_result_def split: if_splits)
  have fs: "an_futures ?b = assign p self' (ny_futures s)"
    using res keep d(2,3) f assign_same [OF f d(3)] by (auto simp: poll_result_def abs_complete_def split: if_splits)
  have b: "an_generation ?b = an_generation a" "an_waiting ?b = an_waiting (snd (abs_poll p self cx a))"
    "nt_rel (fst ` set (ny_futures s)) q' ?b"
    using keep q' by (simp_all add: abs_complete_def)
  have gen: "nf_node v = x \<and> (x \<in> fst ` set (an_waiting ?b) \<longrightarrow> nf_generation v = an_generation a)"
    if v: "map_of (assign p self' (ny_futures s)) x = Some v" for x v
  proof (cases "x = p")
    case True
    moreover have "v = self'" using v f True by (simp add: map_of_assign)
    moreover have "p \<in> fst ` set (an_waiting ?b) \<Longrightarrow> nf_generation self = an_generation a"
      using d(6) [OF f] unfolding b(2) by (auto simp: abs_poll_def split: if_splits)
    ultimately show ?thesis using self' by simp
  next
    case False
    then have "x \<in> fst ` set (an_waiting ?b) \<Longrightarrow> x \<in> fst ` set (an_waiting a)"
      unfolding b(2) by (auto simp: abs_poll_def split: if_splits)
    moreover have "map_of (ny_futures s) x = Some v" using v False by (simp add: map_of_assign)
    ultimately show ?thesis using d(5,6) by blast
  qed
  show ?thesis unfolding notify_rel_def using b fs gen d(3,4) by simp
qed

lemma poll_nt_step:
  assumes r: "notify_rel s a"
  shows "notify_step_ok A (NtPoll owned p cx) s a" "notify_step_ok A (NtEnable owned p) s a"
proof -
  note d = notify_relD [OF r]
  have poll: "\<exists>q' res self'. poll_notified id [(id, id)] id self c [] (ny_notify s) = Inr (res, self', [], (ny_notify s)\<lparr>n_queue := q'\<rparr>)
      \<and> (res, self') = poll_result self (fst (abs_poll p self c a))
      \<and> notify_rel \<lparr>ny_notify = (ny_notify s)\<lparr>n_queue := q'\<rparr>, ny_futures = assign p self' (ny_futures s)\<rparr> (abs_complete p self (abs_poll p self c a))"
    if f: "map_of (ny_futures s) p = Some self" for self c
  proof -
    obtain q' res self' where q': "poll_notified id [(id, id)] id self c [] (ny_notify s) = Inr (res, self', [], (ny_notify s)\<lparr>n_queue := q'\<rparr>)"
      "(res, self') = poll_result self (fst (abs_poll p self c a))" "nt_rel (fst ` set (ny_futures s)) q' (snd (abs_poll p self c a))"
      by (rule poll_ok [OF d(1) d(5,7) [OF f] d(4) d(6) [OF f]])
    with polled_rel [OF r f q'(3,2)] show ?thesis by blast
  qed
  show "notify_step_ok A (NtPoll owned p cx) s a"
  proof (cases "map_of (ny_futures s) p")
    case None
    then show ?thesis using r d(2) by (simp add: notify_step_ok_def)
  next
    case (Some self)
    then show ?thesis unfolding notify_step_ok_def using poll [OF Some, of "Some cx"] d(2)
      by (auto simp: notified_poll_def owned_notified_poll_def poll_result_def Let_def split: if_splits)
  qed
  show "notify_step_ok A (NtEnable owned p) s a"
  proof (cases "map_of (ny_futures s) p")
    case None
    then show ?thesis using r d(2) by (simp add: notify_step_ok_def)
  next
    case (Some self)
    then show ?thesis unfolding notify_step_ok_def using poll [OF Some, of None] d(2)
      by (auto simp: notified_enable_def owned_notified_enable_def poll_result_def Let_def split: if_splits)
  qed
qed

lemma single_nt_step:
  assumes r: "notify_rel s a"
  shows "notify_step_ok A NtNotifyOne s a" "notify_step_ok A NtNotifyLast s a"
proof -
  note d = notify_relD [OF r]
  have "\<exists>q'. notify_single k id [] (n_queue (ny_notify s)) = Inr (unlocked_wakes (fst (abs_single k a)), q')
      \<and> notify_rel (s\<lparr>ny_notify := (ny_notify s)\<lparr>n_queue := q'\<rparr>\<rparr>) (snd (abs_single k a))" if k: "k \<noteq> NotifyAll" for k
  proof -
    obtain q' where q': "notify_single k id [] (n_queue (ny_notify s)) = Inr ([] @ unlocked_wakes (fst (abs_single k a)), q')"
      "nt_rel (fst ` set (ny_futures s)) q' (snd (abs_single k a))"
      by (rule single_ok [OF d(1) k])
    have "notify_rel \<lparr>ny_notify = (ny_notify s)\<lparr>n_queue := q'\<rparr>, ny_futures = ny_futures s\<rparr> (snd (abs_single k a))"
      using notify_rel_keep [OF r q'(2) _ _ single_keeps(4) d(3)] single_keeps(2,3) d(2) by simp
    then have "notify_rel (s\<lparr>ny_notify := (ny_notify s)\<lparr>n_queue := q'\<rparr>\<rparr>) (snd (abs_single k a))" by (cases s) simp
    with q'(1) show ?thesis by auto
  qed
  from this [of NotifyOne] this [of NotifyLast] show "notify_step_ok A NtNotifyOne s a" "notify_step_ok A NtNotifyLast s a"
    by (auto simp: notify_step_ok_def notify_notify_one_def notify_notify_last_def logged_def)
qed

lemma leave_step:
  assumes r: "notify_rel s a"
  shows "notify_step_ok A (NtDrop p) s a"
proof (cases "map_of (ny_futures s) p")
  case None
  then show ?thesis using r notify_relD(2) [OF r] by (simp add: notify_step_ok_def)
next
  case (Some self)
  note d = notify_relD [OF r]
  obtain q' where q': "notified_drop id id self [] (ny_notify s)
      = Inr (unlocked_wakes (fst (abs_leave p self a)), (ny_notify s)\<lparr>n_queue := q'\<rparr>)"
    "nt_rel (fst ` set (ny_futures s) - {p}) q' (snd (abs_leave p self a))"
    by (rule leave_ok [OF d(1) d(5,7) [OF Some]])
  have keep: "an_futures (snd (abs_leave p self a)) = without p (an_futures a)" "an_generation (snd (abs_leave p self a)) = an_generation a"
    "fst ` set (an_waiting (snd (abs_leave p self a))) \<subseteq> fst ` set (an_waiting a)"
    using single_keeps(2-4) [of _ "abs_gone p a"] by (simp_all add: abs_leave_def Let_def split: option.split) blast+
  have "notify_rel \<lparr>ny_notify = (ny_notify s)\<lparr>n_queue := q'\<rparr>, ny_futures = without p (ny_futures s)\<rparr> (snd (abs_leave p self a))"
    using notify_rel_keep [OF r _ _ keep(2,3), where fs = "without p (ny_futures s)" and q = q'] q'(2) keep(1) d(2,3)
    by (simp add: set_without subset_iff)
  then show ?thesis unfolding notify_step_ok_def using Some q'(1) d(2) by (simp add: logged_def)
qed

context bounded_wakers
begin

lemma wake_all_step:
  assumes r: "notify_rel s a"
  shows "notify_step_ok A (NtNotifyWaiters p) s a"
proof -
  note d = notify_relD [OF r]
  have g: "q_links (n_queue (ny_notify s)) p = None \<longleftrightarrow> p \<notin> fst ` set (ny_futures s)" by (rule notify_rel_free [OF d(1)])
  show ?thesis
  proof (cases "node_addr p \<and> p \<notin> fst ` set (ny_futures s)")
    case False
    then show ?thesis using r g d(2) by (auto simp: notify_step_ok_def)
  next
    case True
    then obtain q' where q': "notify_waiters (Suc (length (ny_futures s))) A p id id [] (ny_notify s)
        = Inr (unlocked_wakes (fst (abs_wake_all a)), \<lparr>n_queue = q', n_generation = n_generation (ny_notify s) + 1\<rparr>)"
      "nt_rel (fst ` set (ny_futures s)) q' (snd (abs_wake_all a))"
      using wake_all_ok [OF d(1) _ _ keys_fewer [OF notify_queue_relD(13,10) [OF d(1)]]] by metis
    then have "notify_rel (s\<lparr>ny_notify := \<lparr>n_queue = q', n_generation = n_generation (ny_notify s) + 1\<rparr>\<rparr>) (snd (abs_wake_all a))"
      unfolding notify_rel_def using d(2-5) by (simp add: abs_wake_all_def)
    then show ?thesis unfolding notify_step_ok_def using True g q'(1) d(2) by (simp add: logged_def)
  qed
qed

lemma notify_step_refines: "notify_rel s a \<Longrightarrow> notify_step_ok A op s a"
  by (cases op) (simp_all add: new_future_step poll_nt_step single_nt_step leave_step wake_all_step)

end

section \<open>Wake-ups\<close>

fun nt_polls :: "addr \<Rightarrow> waker \<Rightarrow> notify_op \<Rightarrow> bool" where
  "nt_polls p cx (NtPoll owned x w) \<longleftrightarrow> x = p \<and> w = cx"
| "nt_polls p cx _ \<longleftrightarrow> False"

fun nt_concerns :: "addr \<Rightarrow> notify_op \<Rightarrow> bool" where
  "nt_concerns p (NtPoll owned x w) \<longleftrightarrow> x = p"
| "nt_concerns p (NtEnable owned x) \<longleftrightarrow> x = p"
| "nt_concerns p (NtDrop x) \<longleftrightarrow> x = p"
| "nt_concerns p _ \<longleftrightarrow> False"

definition nt_waits :: "addr \<Rightarrow> waker \<Rightarrow> abs_notifier \<Rightarrow> bool \<Rightarrow> bool" where
  "nt_waits p cx a b \<longleftrightarrow> is_served (an_waiting a) (dom (an_notified a)) p (Some cx) b"

lemma nt_waits_single:
  assumes s: "nt_waits p cx a b" and d: "distinct (map fst (an_waiting a))"
  shows "nt_waits p cx (snd (abs_single k a)) (b \<or> cx \<in> set (fst (abs_single k a)))"
proof (cases "an_waiting a = []")
  case True
  then show ?thesis using s by (simp add: nt_waits_def abs_single_def)
next
  case False
  define x where "x = (if k = NotifyOne then hd (an_waiting a) else last (an_waiting a))"
  have x: "x \<in> set (an_waiting a)" using False by (simp add: x_def)
  have e: "abs_single k a = (found (snd x), a\<lparr>an_waiting := without (fst x) (an_waiting a), an_notified := (an_notified a)(fst x \<mapsto> k)\<rparr>)"
    using False by (simp add: abs_single_def x_def split_beta)
  have "y = x" if "y \<in> set (an_waiting a)" "fst y = fst x" for y
    using that x d eq_key_imp_eq_value [OF d, of "fst x" "snd y" "snd x"] by (metis prod.collapse)
  then have sub: "set (an_waiting a) \<subseteq> set [x] \<union> set (without (fst x) (an_waiting a))" by (auto simp: set_without)
  have "is_served (without (fst x) (an_waiting a)) (dom ((an_notified a)(fst x \<mapsto> k))) p (Some cx) (b \<or> cx \<in> set (found (snd x)))"
    by (rule served_leave [OF s [unfolded nt_waits_def] sub]) (auto simp: found_def)
  then show ?thesis by (simp add: e nt_waits_def)
qed

lemma nt_waits_poll:
  "nt_waits p cx a b \<Longrightarrow> x \<noteq> p \<Longrightarrow> nt_waits p cx (abs_complete x self (abs_poll x self c a)) b"
  by (simp add: nt_waits_def abs_complete_def abs_poll_def served_other)

lemma nt_waits_leave:
  assumes s: "nt_waits p cx a b" and x: "x \<noteq> p" and d: "distinct (map fst (an_waiting a))"
  shows "nt_waits p cx (snd (abs_leave x self a)) (b \<or> cx \<in> set (fst (abs_leave x self a)))"
proof -
  have "nt_waits p cx (abs_gone x a) b" using s x by (auto simp: nt_waits_def served_other intro: served_mono)
  with nt_waits_single [OF this] d show ?thesis by (auto simp: abs_leave_def Let_def split: option.split)
qed

lemma nt_waits_all:
  assumes s: "nt_waits p cx a b"
  shows "nt_waits p cx (snd (abs_wake_all a)) (b \<or> cx \<in> set (fst (abs_wake_all a)))"
  unfolding nt_waits_def abs_wake_all_def
  by (rule served_leave [OF s [unfolded nt_waits_def], of "an_waiting a"]) (force simp: found_def dom_def)+

lemma nt_waits_step:
  assumes s: "nt_waits p cx a b" and d: "distinct (map fst (an_waiting a))" and op: "\<not> nt_concerns p op"
  shows "nt_waits p cx (snd (notify_op_spec op a)) (b \<or> cx \<in> fst ` set (snd (fst (notify_op_spec op a))))"
proof (cases op)
  case (NtPoll owned x w)
  then show ?thesis using s op nt_waits_poll [OF s] by (simp add: Let_def split: option.split)
next
  case (NtEnable owned x)
  then show ?thesis using s op nt_waits_poll [OF s] by (simp add: Let_def split: option.split)
next
  case (NtDrop x)
  then show ?thesis using s op nt_waits_leave [OF s _ d] by (simp add: logged_def image_image split: option.split)
next
  case NtNotifyOne
  then show ?thesis using nt_waits_single [OF s d] by (simp add: logged_def image_image)
next
  case NtNotifyLast
  then show ?thesis using nt_waits_single [OF s d] by (simp add: logged_def image_image)
next
  case (NtNotifyWaiters x)
  then show ?thesis using s nt_waits_all [OF s] by (simp add: logged_def image_image)
qed (use s in \<open>simp_all add: nt_waits_def abs_new_future_def\<close>)

lemma nt_pending:
  assumes "nt_polls p cx op" and "fst (fst (notify_op_spec op a)) = NtPending"
  shows "nt_waits p cx (snd (notify_op_spec op a)) False"
proof (cases op)
  case (NtPoll owned x w)
  then show ?thesis using assms assign_mem [of p "an_waiting a" "Some cx"]
    by (auto simp: nt_waits_def is_served_def abs_complete_def abs_poll_def Let_def split: option.splits if_splits)
qed (use assms in simp_all)

sublocale bounded_wakers \<subseteq> notifier: simulation notify_rel "notify_op_step A" notify_op_spec
  by unfold_locales (use notify_step_refines in \<open>simp add: notify_step_ok_def\<close>)

sublocale bounded_wakers \<subseteq> notifying: waking notify_rel "notify_op_step A" notify_op_spec "\<lambda>_ _. None" nt_waits nt_polls nt_concerns NtPending
  by unfold_locales (use notifier.sim nt_pending nt_waits_step notify_queue_relD(13) [OF notify_relD(1)] in \<open>blast+\<close>)

context bounded_wakers
begin

lemmas notify_run_refines = notifier.run_refines
lemmas notify_served = notifying.no_lost_wakeup

end

section \<open>Sequences of calls\<close>

lemma notify_new_start:
  obtains f where "notify_new = Inr f" "notify_rel (notify_start f) abs_notifier_start"
proof -
  have e: "notify_new = Inr \<lparr>n_queue = new_impl 0, n_generation = 0\<rparr>"
    by (simp add: notify_new_def with_state_const_def state_to_ptr_def STATE_UNNOTIFIED_def)
  have t: "tail_to_enum usize_state 0 = State STATE_UNNOTIFIED" using usize_qs.null_is_state by (simp add: STATE_UNNOTIFIED_def)
  then have "queue_wf usize_state (new_impl 0 :: notify_waiter queue) []"
    by (simp add: queue_wf_def queue_inv_def nodes_ok_def chain_def refs_def cell_def prev_of_def tail_node_def new_impl_def)
  then have "notify_queue_rel {} (new_impl 0) False [] Map.empty"
    using t by (simp add: notify_queue_rel_def notify_ok_def state_of_def)
      (simp add: new_impl_def node_states_def abs_states_def fun_eq_iff)
  then show ?thesis by (intro that [OF e]) (simp add: notify_rel_def notify_start_def abs_notifier_start_def)
qed

text \<open>
  C9. Whatever calls any number of futures make on a new \<^verbatim>\<open>Notify\<close>, each returns what the
  abstract notifier returns and wakes the same tasks in the same order, after the lock has been
  released; none of them panics. In particular \<^verbatim>\<open>notify_one\<close> and
  \<^verbatim>\<open>notify_last\<close> reach the first and the last waiting future or are stored, once, for the
  next poll; a future dropped after it was notified passes the notification on, in the same direction;
  a future created before a \<^verbatim>\<open>notify_waiters\<close> never waits after it.
\<close>

theorem notify_refines_notifier:
  assumes "bounded_wakers A rep"
  shows "\<exists>f s. notify_new = Inr f
    \<and> run_impl (notify_op_step A) ops (notify_start f) = Inr (fst (run_spec notify_op_spec ops abs_notifier_start), s)"
proof -
  obtain f where f: "notify_new = Inr f" "notify_rel (notify_start f) abs_notifier_start" by (rule notify_new_start)
  with bounded_wakers.notify_run_refines [OF assms f(2), of ops] show ?thesis by blast
qed

text \<open>
  Two futures wait; the first is notified and dropped before it is polled again: the second one is
  woken and completes.
\<close>

theorem notify_refines_notifier_witness:
  "\<exists>f s. notify_new = Inr f
    \<and> run_impl (notify_op_step waker_list_ops)
        [NtNotified 4096, NtPoll False 4096 9, NtNotifiedOwned 8192, NtPoll True 8192 7, NtNotifyOne, NtDrop 4096, NtPoll True 8192 7] (notify_start f)
      = Inr ([(NtNothing, []), (NtPending, []), (NtNothing, []), (NtPending, []), (NtNothing, [(9, False)]),
          (NtNothing, [(7, False)]), (NtReady, [])], s)"
proof -
  let ?ops = "[NtNotified 4096, NtPoll False 4096 9, NtNotifiedOwned 8192, NtPoll True 8192 7, NtNotifyOne, NtDrop 4096, NtPoll True 8192 7]"
  have "fst (run_spec notify_op_spec ?ops abs_notifier_start)
      = [(NtNothing, []), (NtPending, []), (NtNothing, []), (NtPending, []), (NtNothing, [(9, False)]),
          (NtNothing, [(7, False)]), (NtReady, [])]"
    by (simp add: abs_notifier_start_def abs_new_future_def example_addrs abs_poll_def abs_complete_def abs_single_def abs_leave_def
        logged_def without_def Let_def)
  with notify_refines_notifier [OF crate_wakers.bounded_wakers_axioms, of ?ops] show ?thesis by simp
qed

text \<open>
  C10. No wake-up of the \<^verbatim>\<open>Notify\<close> example is lost: after a poll of the future at
  \<open>p\<close> has returned \<^verbatim>\<open>Pending\<close> to the task \<open>cx\<close>, and as long as the
  future is not polled again or dropped, whatever the other clients do (including futures that are
  dropped with a notification and \<^verbatim>\<open>notify_waiters\<close>), its node is queued with the waker
  of \<open>cx\<close>, or it has been dequeued and \<open>cx\<close> was woken since that poll.
\<close>

theorem notify_no_lost_wakeup:
  assumes "bounded_wakers A rep" and "notify_new = Inr f"
    and "run_impl (notify_op_step A) (before @ NtPoll owned p cx # after) (notify_start f) = Inr (outs, s)"
    and "fst (outs ! length before) = NtPending" and "\<forall>x\<in>set after. \<not> nt_concerns p x"
  shows "node_states (n_queue (ny_notify s)) p = Some Queued \<and> notify_waker (n_queue (ny_notify s)) p = Some cx
    \<or> node_states (n_queue (ny_notify s)) p = Some Dequeued \<and> cx \<in> woken (drop (Suc (length before)) outs)"
proof -
  have "notify_rel (notify_start f) abs_notifier_start" using assms(2) by (metis notify_new_start sum.inject(2))
  then obtain a where a: "notify_rel s a" "nt_waits p cx a (cx \<in> woken (drop (Suc (length before)) outs))"
    by (rule bounded_wakers.notify_served [OF assms(1) _ assms(3) _ assms(4,5)]) simp
  note d = notify_relD(1) [OF a(1)]
  have "p \<in> fst ` set (an_waiting a)" if "(p, Some cx) \<in> set (an_waiting a)" using that by force
  with a(2) notify_waker_of [OF d, of p "Some cx"] show ?thesis
    unfolding notify_queue_relD(6) [OF d] nt_waits_def is_served_def abs_states_def by (elim disjE) simp_all
qed

text \<open>The first future of the example above is registered, and woken by the notification.\<close>

theorem notify_no_lost_wakeup_witness:
  "\<exists>f outs s. run_impl (notify_op_step waker_list_ops) ([NtNotified 4096] @ NtPoll False 4096 9 # [NtNotifyOne]) (notify_start f) = Inr (outs, s)
    \<and> (node_states (n_queue (ny_notify s)) 4096 = Some Queued \<and> notify_waker (n_queue (ny_notify s)) 4096 = Some 9
      \<or> node_states (n_queue (ny_notify s)) 4096 = Some Dequeued \<and> 9 \<in> woken (drop 2 outs))"
proof -
  let ?ops = "[NtNotified 4096] @ NtPoll False 4096 9 # [NtNotifyOne]"
  obtain f where f: "notify_new = Inr f" "notify_rel (notify_start f) abs_notifier_start" by (rule notify_new_start)
  obtain s where s: "run_impl (notify_op_step waker_list_ops) ?ops (notify_start f) = Inr (fst (run_spec notify_op_spec ?ops abs_notifier_start), s)"
    using crate_wakers.notify_run_refines [OF f(2), of ?ops] by blast
  have "fst (fst (run_spec notify_op_spec ?ops abs_notifier_start) ! length [NtNotified 4096]) = NtPending"
    by (simp add: abs_notifier_start_def abs_new_future_def abs_poll_def example_addrs Let_def split_beta)
  moreover have "\<forall>x\<in>set [NtNotifyOne]. \<not> nt_concerns 4096 x" by simp
  moreover have two: "Suc (length [NtNotified 4096]) = 2" by simp
  ultimately show ?thesis using notify_no_lost_wakeup [OF crate_wakers.bounded_wakers_axioms f(1) s, unfolded two] s by blast
qed

end
