(* ===== verification/Loom.thy ===== *)
theory Loom
  imports Aiq_Prelude
begin

text \<open>
  \<^verbatim>\<open>src/loom.rs\<close>: the wrapper of atomic pointers with which the crate is built for the
  model checker \<^verbatim>\<open>loom\<close>. That checker treats sequentially consistent accesses as weaker
  ones and honours sequentially consistent fences; the wrapper puts fences around such accesses. The
  types and functions of \<^verbatim>\<open>loom\<close> itself are a parameter.
\<close>

section \<open>The wrapper\<close>

datatype ordering = Relaxed | Acquire | Release | AcqRel | SeqCst

text \<open>
  What the wrapper uses of \<^verbatim>\<open>loom::sync::atomic\<close>, on a state \<open>'s\<close> of the checker and
  with cells \<open>'c\<close>. Exchanges return \<open>Inr\<close> the old value if they succeed and
  \<open>Inl\<close> the value found otherwise; \<open>lo_mut\<close> reads and \<open>lo_set_mut\<close> writes through the
  exclusive reference that \<^verbatim>\<open>with_mut\<close> passes to its closure.
\<close>

record ('s, 'c) loom_ops =
  lo_fence :: "ordering \<Rightarrow> 's \<Rightarrow> 's"
  lo_new :: "addr \<Rightarrow> 's \<Rightarrow> 'c \<times> 's"
  lo_mut :: "'c \<Rightarrow> 's \<Rightarrow> addr"
  lo_set_mut :: "'c \<Rightarrow> addr \<Rightarrow> 's \<Rightarrow> 's"
  lo_load :: "'c \<Rightarrow> ordering \<Rightarrow> 's \<Rightarrow> addr \<times> 's"
  lo_store :: "'c \<Rightarrow> addr \<Rightarrow> ordering \<Rightarrow> 's \<Rightarrow> 's"
  lo_swap :: "'c \<Rightarrow> addr \<Rightarrow> ordering \<Rightarrow> 's \<Rightarrow> addr \<times> 's"
  lo_compare_exchange :: "'c \<Rightarrow> addr \<Rightarrow> addr \<Rightarrow> ordering \<Rightarrow> ordering \<Rightarrow> 's \<Rightarrow> (addr + addr) \<times> 's"
  lo_compare_exchange_weak :: "'c \<Rightarrow> addr \<Rightarrow> addr \<Rightarrow> ordering \<Rightarrow> ordering \<Rightarrow> 's \<Rightarrow> (addr + addr) \<times> 's"

definition seqcst_fence :: "('s, 'c) loom_ops \<Rightarrow> ordering \<Rightarrow> 's \<Rightarrow> 's" where
  "seqcst_fence L order s = (if order = SeqCst then lo_fence L order s else s)"

definition atomic_ptr_new :: "('s, 'c) loom_ops \<Rightarrow> addr \<Rightarrow> 's \<Rightarrow> 'c \<times> 's" where
  "atomic_ptr_new L ptr s = lo_new L ptr s"


definition atomic_ptr_load :: "('s, 'c) loom_ops \<Rightarrow> 'c \<Rightarrow> ordering \<Rightarrow> 's \<Rightarrow> addr \<times> 's" where
  "atomic_ptr_load L self order s = lo_load L self order (seqcst_fence L order s)"

definition atomic_ptr_store :: "('s, 'c) loom_ops \<Rightarrow> 'c \<Rightarrow> addr \<Rightarrow> ordering \<Rightarrow> 's \<Rightarrow> 's" where
  "atomic_ptr_store L self x order s = seqcst_fence L order (lo_store L self x order s)"

definition atomic_ptr_swap :: "('s, 'c) loom_ops \<Rightarrow> 'c \<Rightarrow> addr \<Rightarrow> ordering \<Rightarrow> 's \<Rightarrow> addr \<times> 's" where
  "atomic_ptr_swap L self x order s =
     (let s = seqcst_fence L order s;
          (res, s) = lo_swap L self x order s;
          s = seqcst_fence L order s
      in (res, s))"

definition atomic_ptr_compare_exchange ::
  "('s, 'c) loom_ops \<Rightarrow> 'c \<Rightarrow> addr \<Rightarrow> addr \<Rightarrow> ordering \<Rightarrow> ordering \<Rightarrow> 's \<Rightarrow> (addr + addr) \<times> 's" where
  "atomic_ptr_compare_exchange L self current new success failure s =
     (let s = seqcst_fence L success s;
          (res, s) = lo_compare_exchange L self current new success failure s;
          s = (if \<not> isl res then seqcst_fence L success s else s)
      in (res, s))"

definition atomic_ptr_compare_exchange_weak ::
  "('s, 'c) loom_ops \<Rightarrow> 'c \<Rightarrow> addr \<Rightarrow> addr \<Rightarrow> ordering \<Rightarrow> ordering \<Rightarrow> 's \<Rightarrow> (addr + addr) \<times> 's" where
  "atomic_ptr_compare_exchange_weak L self current new success failure s =
     (let s = seqcst_fence L success s;
          (res, s) = lo_compare_exchange_weak L self current new success failure s;
          s = (if \<not> isl res then seqcst_fence L success s else s)
      in (res, s))"



text \<open>Where fences do nothing, the wrapper is the type it wraps.\<close>

lemma wrapper_transparent:
  assumes "\<And>order. lo_fence L order = (\<lambda>s. s)"
  shows "atomic_ptr_load L = lo_load L" "atomic_ptr_store L = lo_store L" "atomic_ptr_swap L = lo_swap L"
    "atomic_ptr_compare_exchange L = lo_compare_exchange L" "atomic_ptr_compare_exchange_weak L = lo_compare_exchange_weak L"
  using assms
  by (simp_all add: fun_eq_iff seqcst_fence_def atomic_ptr_load_def atomic_ptr_store_def atomic_ptr_swap_def
      atomic_ptr_compare_exchange_def atomic_ptr_compare_exchange_weak_def Let_def split_beta)

section \<open>What one thread does\<close>




text \<open>
  Any \<^verbatim>\<open>loom\<close>, with a record of the fences and accesses it is asked for, in order, each with
  all its arguments and with what it returned. \<open>AExchange\<close> says first whether the exchange was a weak
  one; \<open>AMut\<close> is an access through an exclusive reference, with the value found and the one left.
\<close>

datatype 'c access =
    AFence ordering | ALoad 'c ordering addr | AStore 'c addr ordering | ASwap 'c addr ordering addr
  | AExchange bool 'c addr addr ordering ordering "addr + addr" | AMut 'c addr addr


text \<open>Sequentially consistent writes and reads; an exchange that fails writes nothing.\<close>

fun sc_write :: "'c access \<Rightarrow> bool" where
  "sc_write (AStore _ _ order) \<longleftrightarrow> order = SeqCst"
| "sc_write (ASwap _ _ order _) \<longleftrightarrow> order = SeqCst"
| "sc_write (AExchange _ _ _ _ order _ res) \<longleftrightarrow> order = SeqCst \<and> \<not> isl res"
| "sc_write _ \<longleftrightarrow> False"

fun sc_read :: "'c access \<Rightarrow> bool" where
  "sc_read (ALoad _ order _) \<longleftrightarrow> order = SeqCst"
| "sc_read (ASwap _ _ order _) \<longleftrightarrow> order = SeqCst"
| "sc_read (AExchange _ _ _ _ order _ _) \<longleftrightarrow> order = SeqCst"
| "sc_read _ \<longleftrightarrow> False"

text \<open>
  Fences where they are needed: right before every sequentially consistent read and right after every
  sequentially consistent write.
\<close>

definition fenced :: "'c access list \<Rightarrow> bool" where
  "fenced tr \<longleftrightarrow> (\<forall>i<length tr. (sc_read (tr ! i) \<longrightarrow> 0 < i \<and> tr ! (i - 1) = AFence SeqCst)
     \<and> (sc_write (tr ! i) \<longrightarrow> Suc i < length tr \<and> tr ! Suc i = AFence SeqCst))"





text \<open>Between a write and a later read there is a fence.\<close>

lemma fenced_between:
  assumes "fenced tr" and "i < j" "j < length tr" and "sc_write (tr ! i)" "sc_read (tr ! j)"
  shows "\<exists>k. i < k \<and> k < j \<and> tr ! k = AFence SeqCst"
proof -
  have "tr ! Suc i = AFence SeqCst" using assms unfolding fenced_def by (meson less_trans)
  moreover have "j \<noteq> Suc i" using calculation assms(5) by auto
  ultimately show ?thesis using assms(2) by (intro exI [of _ "Suc i"]) auto
qed







section \<open>Properties\<close>


end
